(* ===== verification/Prelude.thy ===== *)
theory Prelude
  imports Main "HOL-Library.Word" "HOL-Library.Monad_Syntax"
begin

text \<open>
  Shared material of the development: the names of the machine integer types of the
  simulator, the result type that carries failed assertions and undefined pointer uses,
  and the generic facts on lists, maps and words that the component theories use.

  The simulator is compiled for x86-64, so \<open>Address\<close> and \<open>uint64_t\<close> are 64-bit words,
  \<open>unsigned\<close> and \<open>uint32_t\<close> are 32-bit words. Locks (\<open>futex_lock\<close>, \<open>futex_unlock\<close>)
  and debug output have no counterpart: every operation is modelled as one atomic step,
  which is what the lock around its body gives.
\<close>

unbundle bit_operations_syntax

type_synonym u8 = "8 word"
type_synonym u16 = "16 word"
type_synonym u32 = "32 word"
type_synonym u64 = "64 word"
type_synonym address = "64 word"

section \<open>Results\<close>

text \<open>
  What stops the simulator: a failed \<open>assert\<close> (which writes to address 0 and exits), a
  \<open>panic\<close>, a use of a null or dangling pointer, a pointer cast to the wrong class, an
  index past the end of a vector, a read of a field that no constructor set, an integer
  division by zero, and a call that does not return.
\<close>

datatype error =
    Assert_failed
  | Panic
  | Null_deref
  | Bad_cast
  | Out_of_range
  | Uninitialised
  | Div_zero
  | Diverges

type_synonym 'a res = "error + 'a"

named_theorems res_simps \<open>rewriting of the result monad\<close>

fun bindE :: "'a res \<Rightarrow> ('a \<Rightarrow> 'b res) \<Rightarrow> 'b res" where
  "bindE (Inl e) f = Inl e"
| "bindE (Inr x) f = f x"

definition assertE :: "bool \<Rightarrow> unit res" where
  "assertE b = (if b then Inr () else Inl Assert_failed)"

definition derefE :: "'a option \<Rightarrow> 'a res" where
  "derefE p = (case p of None \<Rightarrow> Inl Null_deref | Some x \<Rightarrow> Inr x)"

definition nthE :: "'a list \<Rightarrow> nat \<Rightarrow> 'a res" where
  "nthE xs i = (if i < length xs then Inr (xs ! i) else Inl Out_of_range)"

text \<open>The value of a recursion that may not end (\<open>partial_function (option)\<close>).\<close>

definition loopE :: "'a option \<Rightarrow> 'a res" where
  "loopE p = (case p of None \<Rightarrow> Inl Diverges | Some x \<Rightarrow> Inr x)"

lemma loopE_simps [simp]: "loopE None = Inl Diverges" "loopE (Some x) = Inr x"
  by (simp_all add: loopE_def)

definition divE :: "'a :: len word \<Rightarrow> 'a word \<Rightarrow> 'a word res" where
  "divE a b = (if b = 0 then Inl Div_zero else Inr (a div b))"

text \<open>A loop over a list, stopped by the first error.\<close>

fun foldE :: "('a \<Rightarrow> 'b \<Rightarrow> 'b res) \<Rightarrow> 'a list \<Rightarrow> 'b \<Rightarrow> 'b res" where
  "foldE f [] s = Inr s"
| "foldE f (x # xs) s = bindE (f x s) (foldE f xs)"

text \<open>The values of \<open>for (unsigned i = 0; i < n; i++)\<close>.\<close>

definition upto_u32 :: "u32 \<Rightarrow> u32 list" where
  "upto_u32 n = map of_nat [0..<unat n]"

lemma bindE_Inr_iff [res_simps]:
  "bindE m f = Inr y \<longleftrightarrow> (\<exists>x. m = Inr x \<and> f x = Inr y)"
  by (cases m) auto

lemma bindE_Inl_iff [res_simps]:
  "bindE m f = Inl e \<longleftrightarrow> m = Inl e \<or> (\<exists>x. m = Inr x \<and> f x = Inl e)"
  by (cases m) auto

lemma bindE_assoc: "bindE (bindE m f) g = bindE m (\<lambda>x. bindE (f x) g)"
  by (cases m) auto

lemma bindE_cong [fundef_cong]:
  "m = m' \<Longrightarrow> (\<And>x. m' = Inr x \<Longrightarrow> f x = f' x) \<Longrightarrow> bindE m f = bindE m' f'"
  by (cases m') auto

lemma assertE_simps [simp]:
  "assertE True = Inr ()" "assertE False = Inl Assert_failed"
  by (simp_all add: assertE_def)

lemma assertE_Inr_iff [res_simps]: "assertE b = Inr u \<longleftrightarrow> b"
  by (simp add: assertE_def)

lemma derefE_simps [simp]:
  "derefE None = Inl Null_deref" "derefE (Some x) = Inr x"
  by (simp_all add: derefE_def)

lemma derefE_Inr_iff [res_simps]: "derefE p = Inr x \<longleftrightarrow> p = Some x"
  by (cases p) auto

lemma nthE_Inr_iff [res_simps]: "nthE xs i = Inr x \<longleftrightarrow> i < length xs \<and> x = xs ! i"
  by (auto simp: nthE_def)

lemma foldE_append: "foldE f (xs @ ys) s = bindE (foldE f xs s) (foldE f ys)"
  by (induction xs arbitrary: s) (auto simp: bindE_assoc intro!: bindE_cong)

text \<open>The loop rule: an invariant that every round keeps, and no round fails under it.\<close>

lemma foldE_invariant:
  assumes "I [] s" and "set xs \<subseteq> A"
    and "\<And>x seen s. x \<in> A \<Longrightarrow> I seen s \<Longrightarrow> \<exists>s'. f x s = Inr s' \<and> I (seen @ [x]) s'"
  shows "\<exists>s'. foldE f xs s = Inr s' \<and> I xs s'"
  using assms(2)
proof (induction xs rule: rev_induct)
  case Nil
  then show ?case using assms(1) by simp
next
  case (snoc x xs)
  then show ?case using assms(3) by (fastforce simp: foldE_append)
qed

lemma nthE_in_range [simp]: "i < length xs \<Longrightarrow> nthE xs i = Inr (xs ! i)"
  by (simp add: nthE_def)

section \<open>Bits of words\<close>

lemma unat_drop_bit: "unat (drop_bit n (w :: 'a :: len word)) = unat w div 2 ^ n"
  unfolding unat_drop_bit_eq by (simp add: drop_bit_eq_div)

lemma unat_and_mask: "unat (w AND mask n :: 'a :: len word) = unat w mod 2 ^ n"
proof -
  have "unat (take_bit n w) = take_bit n (unat w)"
    by (rule unsigned_take_bit_eq)
  then show ?thesis
    unfolding take_bit_eq_mask [symmetric] by (simp only: take_bit_eq_mod)
qed

lemma unat_push_bit:
  "unat w * 2 ^ n < 2 ^ LENGTH('a) \<Longrightarrow> unat (push_bit n w :: 'a :: len word) = unat w * 2 ^ n"
  unfolding unsigned_push_bit_eq by (simp add: push_bit_eq_mult take_bit_eq_mod)

lemma ucast_u64_eq_0_iff [simp]: "(ucast (x :: u32) :: u64) = 0 \<longleftrightarrow> x = 0"
  by transfer simp

lemma unat_ucast_u64 [simp]: "unat (ucast (x :: u32) :: u64) = unat x"
  using unsigned_less [of x, where 'a = nat] by (simp add: unsigned_ucast_eq take_bit_nat_eq_self)

lemma unat_less_2p64: "unat (w :: u64) < 2 ^ 64"
  using unsigned_less [of w, where 'a = nat] by simp

lemma set_upto_u32: "set (upto_u32 n) = {i. i < n}"
proof -
  have "i \<in> set (upto_u32 n)" if "i < n" for i
  proof -
    have "i = of_nat (unat i)" "unat i < unat n"
      using that by (simp_all add: word_less_nat_alt)
    then show ?thesis unfolding upto_u32_def by force
  qed
  moreover have "i < n" if "i \<in> set (upto_u32 n)" for i
    using that unsigned_less [of n, where 'a = nat]
    by (auto simp: upto_u32_def word_less_nat_alt unsigned_of_nat take_bit_nat_eq_self)
  ultimately show ?thesis by blast
qed

lemma unat_2_power: "k < 64 \<Longrightarrow> unat ((2 :: u64) ^ k) = 2 ^ k"
proof -
  assume k: "k < 64"
  have "(2 :: u64) ^ k = push_bit k 1" by (simp add: push_bit_eq_mult)
  moreover have "(2 :: nat) ^ k < 2 ^ 64" using k by (rule power_strict_increasing) simp
  then have "unat (push_bit k 1 :: u64) = unat (1 :: u64) * 2 ^ k"
    by (intro unat_push_bit) simp
  ultimately show ?thesis by simp
qed

lemma unat_of_nat_u64: "m < 2 ^ 64 \<Longrightarrow> unat (of_nat m :: u64) = m"
  by (simp add: unsigned_of_nat take_bit_nat_eq_self)

lemma unat_div_2_power: "k < 64 \<Longrightarrow> unat ((w :: u64) div 2 ^ k) = unat w div 2 ^ k"
  by (simp add: unat_div_distrib unat_2_power)

end
