(* ===== verification/Common_Functions.thy ===== *)
theory Common_Functions
  imports Prelude "HOL-Library.Signed_Division"
begin

text \<open>
  The enumerations of \<open>common/global_const.h\<close> and the free functions of
  \<open>common/common_functions.h\<close>: bit fields, the paging-mode and zone names, the integer
  power and the four overloads of the integer logarithm.
\<close>

section \<open>Enumerations and constants\<close>

datatype PagingStyle =
    Legacy_Normal
  | Legacy_Huge
  | PAE_Normal
  | PAE_Huge
  | LongMode_Normal
  | LongMode_Middle
  | LongMode_Huge

datatype ZoneType =
    Zone_DMA
  | Zone_DMA32
  | Zone_Normal
  | Zone_HighMem
  | MAX_NR_ZONES

datatype EVICTSTYLE = LRU | HOTNESSAware | HotMonitorTLBLRU

definition MAXORDER :: nat where
  "MAXORDER = 11"

definition PAGE_BUDDY_MAPCOUNT_VALUE :: int where
  "PAGE_BUDDY_MAPCOUNT_VALUE = -128"

definition INVALID_PAGE_ADDR :: address where
  "INVALID_PAGE_ADDR = -1"

definition PAGE_FAULT_SIG :: address where
  "PAGE_FAULT_SIG = -1"

definition GFP_DMA :: u32 where
  "GFP_DMA = 1"

definition GFP_HighMem :: u32 where
  "GFP_HighMem = 2"

definition GFP_DMA32 :: u32 where
  "GFP_DMA32 = 4"

definition GFP_COLD :: u32 where
  "GFP_COLD = 8"

lemmas global_const_defs =
  MAXORDER_def PAGE_BUDDY_MAPCOUNT_VALUE_def INVALID_PAGE_ADDR_def PAGE_FAULT_SIG_def
  GFP_DMA_def GFP_HighMem_def GFP_DMA32_def GFP_COLD_def

section \<open>Bit fields\<close>

text \<open>
  \<open>(1 << bit_len) - 1\<close> is computed on \<open>int\<close> and only then widened to 64 bits. The
  shift is defined for lengths 0 to 30; elsewhere the model follows the x86 shift, which
  takes the count modulo 32.
\<close>

definition mask_len :: "int \<Rightarrow> u64" where
  "mask_len bit_len =
     (if bit_len = 64 then -1
      else scast (push_bit (nat (bit_len mod 32)) 1 - 1 :: u32))"

definition get_bit_value :: "u64 \<Rightarrow> nat \<Rightarrow> nat \<Rightarrow> u32" where
  "get_bit_value v start_bit end_bit =
     (let bit_len = int end_bit - int start_bit + 1
      in ucast (drop_bit start_bit v AND mask_len bit_len))"

section \<open>Names\<close>

definition string_to_pagingmode :: "string \<Rightarrow> PagingStyle" where
  "string_to_pagingmode s =
     (if s = ''Legacy_Normal'' then Legacy_Normal
      else if s = ''Legacy_Huge'' then Legacy_Huge
      else if s = ''PAE_Normal'' then PAE_Normal
      else if s = ''PAE_Huge'' then PAE_Huge
      else if s = ''LongMode_Normal'' then LongMode_Normal
      else if s = ''LongMode_Middle'' then LongMode_Middle
      else if s = ''LongMode_Huge'' then LongMode_Huge
      else Legacy_Normal)"

definition pagingmode_to_string :: "PagingStyle \<Rightarrow> string" where
  "pagingmode_to_string mode =
     (if mode = Legacy_Normal \<or> mode = Legacy_Huge then ''Legacy''
      else if mode = PAE_Normal \<or> mode = PAE_Huge then ''PAE''
      else if mode = LongMode_Normal \<or> mode = LongMode_Middle \<or> mode = LongMode_Huge
        then ''LongMode''
      else [])"

definition string_to_zonetype :: "string \<Rightarrow> ZoneType" where
  "string_to_zonetype s =
     (if s = ''mem.zone.zone_dma'' then Zone_DMA
      else if s = ''mem.zone.zone_dma32'' then Zone_DMA32
      else if s = ''mem.zone.zone_normal'' then Zone_Normal
      else if s = ''mem.zone.zone_highmem'' then Zone_HighMem
      else MAX_NR_ZONES)"

definition stringToPolicy :: "string \<Rightarrow> EVICTSTYLE" where
  "stringToPolicy s =
     (if s = ''LRU'' then LRU
      else if s = ''HOTNESSAware'' then HOTNESSAware
      else if s = ''HotMonitorTLBLRU'' then HotMonitorTLBLRU
      else LRU)"

definition is_highmem_zone :: "ZoneType \<Rightarrow> bool" where
  "is_highmem_zone t \<longleftrightarrow> t = Zone_HighMem"

section \<open>Arithmetic\<close>

text \<open>
  The recursion of \<open>power\<close> stops at exponent 1 only, so exponent 0 and every negative
  exponent recurse for ever; \<^const>\<open>None\<close> stands for that. Division of the exponent
  truncates towards zero, as in C.
\<close>

partial_function (option) power_rec :: "u64 \<Rightarrow> int \<Rightarrow> u64 option" where
  "power_rec base e =
     (if e = 1 then Some base
      else if e smod 2 \<noteq> 0 then
        Option.bind (power_rec base (e sdiv 2)) (\<lambda>p.
        Option.bind (power_rec base (e sdiv 2)) (\<lambda>q. Some (base * p * q)))
      else
        Option.bind (power_rec base (e sdiv 2)) (\<lambda>p.
        Option.bind (power_rec base (e sdiv 2)) (\<lambda>q. Some (p * q))))"

definition get_page_size_by_mode :: "PagingStyle \<Rightarrow> u64 option" where
  "get_page_size_by_mode mode =
     do {
       kb \<leftarrow> power_rec 2 10;
       mb \<leftarrow> power_rec 2 20;
       gb \<leftarrow> power_rec 2 30;
       if mode = Legacy_Normal \<or> mode = PAE_Normal \<or> mode = LongMode_Normal
         then Some (4 * kb)
       else if mode = Legacy_Huge then Some (4 * mb)
       else if mode = PAE_Huge \<or> mode = LongMode_Middle then Some (2 * mb)
       else Some gb
     }"

definition Max_c :: "'a :: linorder \<Rightarrow> 'a \<Rightarrow> 'a" where
  "Max_c a b = (if a \<ge> b then a else b)"

definition Min_c :: "'a :: linorder \<Rightarrow> 'a \<Rightarrow> 'a" where
  "Min_c a b = (if a \<le> b then a else b)"

text \<open>
  One line \<open>if (x & m) { result += k; x >>= k; }\<close> of the logarithms; each overload is a
  chain of such lines.
\<close>

definition log2_line :: "'a :: len word \<Rightarrow> nat \<Rightarrow> nat \<times> 'a word \<Rightarrow> nat \<times> 'a word" where
  "log2_line m k = (\<lambda>(result, x). if x AND m \<noteq> 0 then (result + k, drop_bit k x) else (result, x))"

definition log2_u8 :: "u8 \<Rightarrow> nat" where
  "log2_u8 x =
     fst (log2_line 0x02 1 (log2_line 0x0c 2 (log2_line 0xf0 4 (0, x))))"

definition log2_u16 :: "u16 \<Rightarrow> nat" where
  "log2_u16 x =
     fst (log2_line 0x0002 1 (log2_line 0x000c 2 (log2_line 0x00f0 4 (log2_line 0xff00 8 (0, x)))))"

definition log2_u32 :: "u32 \<Rightarrow> nat" where
  "log2_u32 x =
     fst (log2_line 0x00000002 1 (log2_line 0x0000000c 2 (log2_line 0x000000f0 4
       (log2_line 0x0000ff00 8 (log2_line 0xffff0000 16 (0, x))))))"

definition log2_u64 :: "u64 \<Rightarrow> nat" where
  "log2_u64 x =
     fst (log2_line 0x0000000000000002 1 (log2_line 0x000000000000000c 2
       (log2_line 0x00000000000000f0 4 (log2_line 0x000000000000ff00 8
       (log2_line 0x00000000ffff0000 16 (log2_line 0xffffffff00000000 32 (0, x)))))))"

section \<open>Bit fields select the bits they name\<close>

lemma mask_len_eq:
  assumes "n \<le> 30"
  shows "mask_len (int n) = mask n"
proof -
  have "(push_bit n 1 - 1 :: u32) = mask n"
    by (simp add: mask_eq_decr_exp push_bit_eq_mult)
  moreover have "scast (mask n :: u32) = (mask n :: u64)"
    using assms by (intro bit_word_eqI) (auto simp: bit_simps)
  ultimately show ?thesis
    using assms by (simp add: mask_len_def)
qed

lemma get_bit_value_eq:
  assumes "s \<le> Suc e" and "e + 1 - s \<le> 30"
  shows "get_bit_value v s e = ucast (drop_bit s v AND mask (e + 1 - s))"
proof -
  have "int e - int s + 1 = int (e + 1 - s)"
    using assms(1) by simp
  then show ?thesis
    using mask_len_eq [OF assms(2)] by (simp add: get_bit_value_def)
qed

lemma unat_get_bit_value:
  assumes "s \<le> Suc e" and "e + 1 - s \<le> 30"
  shows "unat (get_bit_value v s e) = (unat v div 2 ^ s) mod 2 ^ (e + 1 - s)"
proof -
  have "(unat v div 2 ^ s) mod 2 ^ (e + 1 - s) < 2 ^ 32"
  proof (rule less_le_trans)
    show "(unat v div 2 ^ s) mod 2 ^ (e + 1 - s) < 2 ^ (e + 1 - s)" by simp
    show "(2 :: nat) ^ (e + 1 - s) \<le> 2 ^ 32"
      by (rule power_increasing) (use assms(2) in auto)
  qed
  then show ?thesis
    by (simp add: get_bit_value_eq [OF assms] unsigned_ucast_eq unat_and_mask unat_drop_bit take_bit_eq_mod)
qed

section \<open>The integer power\<close>

text \<open>Exponents from 1 on: the recursion returns the power, modulo the word size.\<close>

lemma power_rec_pos: "0 < n \<Longrightarrow> power_rec base (int n) = Some (base ^ n)"
proof (induction n rule: less_induct)
  case (less n)
  show ?case
  proof (cases "n = 1")
    case True
    then show ?thesis by (simp add: power_rec.simps)
  next
    case False
    with less.prems have half: "0 < n div 2" "n div 2 < n" by auto
    have quo: "int n sdiv 2 = int (n div 2)" "int n smod 2 = int (n mod 2)"
      by (auto simp: signed_divide_int_def signed_modulo_int_def zdiv_int zmod_int)
    have IH: "power_rec base (int n sdiv 2) = Some (base ^ (n div 2))"
      using less.IH [OF half(2,1)] quo(1) by simp
    show ?thesis
    proof (cases "even n")
      case True
      then have "base ^ n = base ^ (n div 2) * base ^ (n div 2)"
        by (simp flip: power_add add: mult_2 [symmetric])
      then show ?thesis
        using False True by (simp add: power_rec.simps [of base "int n"] IH quo(2))
    next
      case odd: False
      then have "base ^ n = base * base ^ (n div 2) * base ^ (n div 2)"
        by (simp flip: power_add power_Suc add: mult_2 [symmetric])
      then show ?thesis
        using False odd by (simp add: power_rec.simps [of base "int n"] IH quo(2) odd_iff_mod_2_eq_one)
    qed
  qed
qed


lemma power_rec_Some_pos:
  assumes "power_rec base e = Some y"
  shows "0 < e"
proof (rule power_rec.raw_induct [where P = "\<lambda>base e y. 0 < e", OF _ assms])
  fix f base y and e :: int
  assume IH: "\<And>base e y. f base e = Some y \<Longrightarrow> 0 < e"
    and eq: "(if e = 1 then Some base
      else if e smod 2 \<noteq> 0 then
        Option.bind (f base (e sdiv 2)) (\<lambda>p.
        Option.bind (f base (e sdiv 2)) (\<lambda>q. Some (base * p * q)))
      else
        Option.bind (f base (e sdiv 2)) (\<lambda>p.
        Option.bind (f base (e sdiv 2)) (\<lambda>q. Some (p * q)))) = Some y"
  show "0 < e"
  proof (cases "e = 1")
    case False
    with eq obtain p where "f base (e sdiv 2) = Some p"
      by (auto split: if_splits bind_splits)
    then have "0 < e sdiv 2" by (rule IH)
    then show ?thesis
      by (auto simp: signed_divide_int_def sgn_if split: if_splits)
  qed simp
qed

lemma page_size_eq:
  "get_page_size_by_mode mode =
     Some (2 ^ (case mode of Legacy_Normal \<Rightarrow> 12 | Legacy_Huge \<Rightarrow> 22 | PAE_Normal \<Rightarrow> 12 | PAE_Huge \<Rightarrow> 21
       | LongMode_Normal \<Rightarrow> 12 | LongMode_Middle \<Rightarrow> 21 | LongMode_Huge \<Rightarrow> 30))"
  using power_rec_pos [of 10 2] power_rec_pos [of 20 2] power_rec_pos [of 30 2]
  by (cases mode) (simp_all add: get_page_size_by_mode_def)

section \<open>The integer logarithms\<close>

text \<open>
  Between two lines of a logarithm the pair holds the bits of the input above the
  \<open>result\<close> lowest ones, and no more than the remaining lines can count.
\<close>

lemma log2_line_mask:
  fixes x :: "'a :: len word"
  assumes "unat x < 2 ^ (2 * k)"
  shows "x AND push_bit k (mask k) \<noteq> 0 \<longleftrightarrow> 2 ^ k \<le> unat x"
proof -
  have "unat (drop_bit k x AND mask k) = unat (drop_bit k x)"
    using assms by (simp add: unat_and_mask unat_drop_bit mult_2 power_add less_mult_imp_div_less)
  then have full: "drop_bit k x AND mask k = drop_bit k x"
    by (simp only: word_unat_eq_iff)
  have "x AND push_bit k (mask k) = push_bit k (drop_bit k x AND mask k)"
    by (rule bit_word_eqI) (auto simp: bit_simps)
  also have "\<dots> = push_bit k (drop_bit k x)"
    by (simp only: full)
  finally have low: "x AND push_bit k (mask k) = push_bit k (drop_bit k x)" .
  have "drop_bit k (x AND push_bit k (mask k)) = drop_bit k x AND mask k"
    by (rule bit_word_eqI) (auto simp: bit_simps dest: bit_imp_le_length)
  with low full have "x AND push_bit k (mask k) = 0 \<longleftrightarrow> drop_bit k x = 0"
    by (metis drop_bit_of_0 push_bit_of_0)
  also have "\<dots> \<longleftrightarrow> unat x div 2 ^ k = 0"
    by (metis unat_drop_bit unat_eq_zero)
  finally show ?thesis
    by (auto simp: div_eq_0_iff)
qed

definition log2_inv :: "'a :: len word \<Rightarrow> nat \<Rightarrow> nat \<times> 'a word \<Rightarrow> bool" where
  "log2_inv x0 k = (\<lambda>(r, x). x = drop_bit r x0 \<and> x \<noteq> 0 \<and> unat x < 2 ^ k)"

lemma log2_line_inv:
  assumes "log2_inv x0 (2 * k) rx" and m: "m = push_bit k (mask k)"
  shows "log2_inv x0 k (log2_line m k rx)"
proof -
  obtain r x where rx: "rx = (r, x)" by (cases rx)
  from assms(1) have x: "x = drop_bit r x0" "x \<noteq> 0" "unat x < 2 ^ (2 * k)"
    by (auto simp: log2_inv_def rx)
  show ?thesis
  proof (cases "2 ^ k \<le> unat x")
    case True
    then have "drop_bit k x \<noteq> 0"
      by (metis unat_drop_bit unat_eq_zero div_eq_0_iff not_less zero_less_numeral zero_less_power power_not_zero zero_neq_numeral)
    moreover have "unat (drop_bit k x) < 2 ^ k"
      using x(3) by (simp add: unat_drop_bit mult_2 power_add less_mult_imp_div_less)
    ultimately show ?thesis
      using True log2_line_mask [OF x(3)] x(1)
      by (simp add: log2_inv_def log2_line_def rx m ac_simps)
  next
    case False
    then show ?thesis
      using log2_line_mask [OF x(3)] x by (simp add: log2_inv_def log2_line_def rx m)
  qed
qed

lemma log2_inv_final:
  assumes "log2_inv x0 1 rx"
  shows "2 ^ fst rx \<le> unat x0 \<and> unat x0 < 2 ^ Suc (fst rx)"
proof -
  obtain r x where rx: "rx = (r, x)" by (cases rx)
  from assms have "x = drop_bit r x0" "x \<noteq> 0" "unat x < 2"
    by (auto simp: log2_inv_def rx)
  then have "unat (drop_bit r x0) = 1"
    by (metis less_2_cases unat_eq_zero One_nat_def)
  then have "unat x0 div 2 ^ r = 1"
    by (simp only: unat_drop_bit)
  then have "unat x0 = 2 ^ r + unat x0 mod 2 ^ r"
    by (metis div_mult_mod_eq mult_1)
  moreover have "unat x0 mod 2 ^ r < 2 ^ r"
    by simp
  ultimately show ?thesis
    unfolding rx fst_conv power_Suc by linarith
qed

lemmas log2_masks = push_bit_eq_mult mask_eq_decr_exp


lemma log2_line_inv_numeral:
  assumes "log2_inv x0 k2 rx" and "k2 = 2 * k" and "m = push_bit k (mask k)"
  shows "log2_inv x0 k (log2_line m k rx)"
  using log2_line_inv [of x0 k rx m] assms by simp

lemma log2_inv_start: "x \<noteq> 0 \<Longrightarrow> log2_inv x LENGTH('a) (0, x :: 'a :: len word)"
  by (simp add: log2_inv_def)

lemma log2_u8_bounds: 
  assumes "x \<noteq> 0" shows "2 ^ log2_u8 x \<le> unat x \<and> unat x < 2 ^ Suc (log2_u8 x)"
  unfolding log2_u8_def
  by (rule log2_inv_final, (rule log2_line_inv_numeral)+, rule log2_inv_start [OF assms])
    (simp_all add: log2_masks)

lemma log2_u16_bounds: 
  assumes "x \<noteq> 0" shows "2 ^ log2_u16 x \<le> unat x \<and> unat x < 2 ^ Suc (log2_u16 x)"
  unfolding log2_u16_def
  by (rule log2_inv_final, (rule log2_line_inv_numeral)+, rule log2_inv_start [OF assms])
    (simp_all add: log2_masks)

lemma log2_u32_bounds: 
  assumes "x \<noteq> 0" shows "2 ^ log2_u32 x \<le> unat x \<and> unat x < 2 ^ Suc (log2_u32 x)"
  unfolding log2_u32_def
  by (rule log2_inv_final, (rule log2_line_inv_numeral)+, rule log2_inv_start [OF assms])
    (simp_all add: log2_masks)

lemma log2_u64_bounds: 
  assumes "x \<noteq> 0" shows "2 ^ log2_u64 x \<le> unat x \<and> unat x < 2 ^ Suc (log2_u64 x)"
  unfolding log2_u64_def
  by (rule log2_inv_final, (rule log2_line_inv_numeral)+, rule log2_inv_start [OF assms])
    (simp_all add: log2_masks)

text \<open>The logarithm rounded down: how often a number can be halved.\<close>

fun halvings :: "nat \<Rightarrow> nat" where
  "halvings n = (if n < 2 then 0 else Suc (halvings (n div 2)))"

declare halvings.simps [simp del]

lemma halvings_unique: "2 ^ r \<le> n \<Longrightarrow> n < 2 ^ Suc r \<Longrightarrow> r = halvings n"
proof (induction r arbitrary: n)
  case 0
  then show ?case by (simp add: halvings.simps)
next
  case (Suc r)
  then have "r = halvings (n div 2)" by (intro Suc.IH) auto
  moreover have "2 \<le> n" using Suc.prems(1) by (metis le_trans one_le_numeral one_le_power mult_2 power_Suc add_mono one_add_one)
  ultimately show ?case by (simp add: halvings.simps [of n])
qed

lemma halvings_zero: "halvings (unat (0 :: 'a :: len word)) = 0"
  by (simp add: halvings.simps)

lemma log2_zero: "log2_u8 0 = 0" "log2_u16 0 = 0" "log2_u32 0 = 0" "log2_u64 0 = 0"
  by (simp_all add: log2_u8_def log2_u16_def log2_u32_def log2_u64_def log2_line_def)

section \<open>Properties\<close>

text \<open>
  C34. \<open>power(base, exp)\<close> returns exactly for exponents above 0, and then the power modulo \<open>2^64\<close>. For
  exponent 0 and for negative exponents the recursion does not end, as it stops at exponent 1 only.
\<close>

theorem power_terminates: "power_rec base e = (if 0 < e then Some (base ^ nat e) else None)"
  using power_rec_pos [of "nat e" base] power_rec_Some_pos [of base e] by (cases "power_rec base e") auto

text \<open>
  C35. All overloads of \<open>log2\<close> compute the logarithm to base 2 rounded down, that is the number of
  times the argument can be halved, and 0 for 0.
\<close>

theorem log2_rounds_down:
  "log2_u8 w = halvings (unat w) \<and> log2_u16 x = halvings (unat x) \<and>
   log2_u32 y = halvings (unat y) \<and> log2_u64 z = halvings (unat z)"
proof (intro conjI)
  show "log2_u8 w = halvings (unat w)"
    by (cases "w = 0") (simp only: halvings_zero log2_zero, blast intro: halvings_unique dest: log2_u8_bounds)
  show "log2_u16 x = halvings (unat x)"
    by (cases "x = 0") (simp only: halvings_zero log2_zero, blast intro: halvings_unique dest: log2_u16_bounds)
  show "log2_u32 y = halvings (unat y)"
    by (cases "y = 0") (simp only: halvings_zero log2_zero, blast intro: halvings_unique dest: log2_u32_bounds)
  show "log2_u64 z = halvings (unat z)"
    by (cases "z = 0") (simp only: halvings_zero log2_zero, blast intro: halvings_unique dest: log2_u64_bounds)
qed

end
