(* ===== verification/Mem_Objects.thy ===== *)
theory Mem_Objects
  imports Common_Functions
begin

text \<open>
  The objects that several components point to: the page descriptor of \<open>MMU/page.h\<close>,
  the DRAM cache block of \<open>DRAM-buffer/DRAM_buffer_block.h\<close>, the memory request of
  \<open>memory_hierarchy.h\<close>, the global configuration of \<open>zsim.h\<close> as far as the modelled
  code reads it, and the address arithmetic of \<open>tlb/common_func.h\<close>.

  There is one \<open>Page\<close> object per page number and one \<open>DRAMBufferBlock\<close> per block
  number, so a pointer to one of them is its number.
\<close>

section \<open>Global configuration\<close>

record GlobSimInfo =
  page_size :: u64
  page_shift :: nat
  block_size :: u32
  block_shift :: nat
  high_addr :: address
  mem_access_time :: u32
  memory_size :: u64
  numProcs :: nat
  numCores :: nat
  percpu_pagelist_fraction :: int
  max_zone_pfns :: "ZoneType \<Rightarrow> u64"
  access_threshold :: "u32 list"
  life_time_cfg :: u32
  tlb_hit_lat :: u32
  multi_queue :: bool
  proc_fairness :: bool
  enable_shared_memory :: bool

text \<open>A configuration for examples: 4KB pages and cache blocks, DRAM cache from 4GB on.\<close>

definition example_zinfo :: GlobSimInfo where
  "example_zinfo =
     \<lparr>page_size = 0x1000, page_shift = 12, block_size = 0x1000, block_shift = 12,
      high_addr = 0x100000000, mem_access_time = 117, memory_size = 0x100000000,
      numProcs = 1, numCores = 2, percpu_pagelist_fraction = 0, max_zone_pfns = (\<lambda>_. 0),
      access_threshold = [2], life_time_cfg = 0, tlb_hit_lat = 1, multi_queue = False,
      proc_fairness = False, enable_shared_memory = False\<rparr>"

section \<open>Memory requests\<close>

datatype AccessType = GETS | GETX | PUTS | PUTX | EVICTION | SETDIRTY | WRITEBACK

record MemReq =
  lineAddr :: address
  type_of :: AccessType
  childId :: u32
  cycle :: u64

text \<open>\<open>req.cycle += lat\<close> with an \<open>unsigned\<close> latency.\<close>

definition add_cycles :: "MemReq \<Rightarrow> u32 \<Rightarrow> MemReq" where
  "add_cycles req lat = req\<lparr>cycle := cycle req + ucast lat\<rparr>"

lemma add_cycles_0: "add_cycles req 0 = req"
  by (simp add: add_cycles_def)

lemma add_cycles_simps [simp]:
  "lineAddr (add_cycles req lat) = lineAddr req" "type_of (add_cycles req lat) = type_of req"
  "childId (add_cycles req lat) = childId req"
  by (simp_all add: add_cycles_def)

section \<open>Page descriptors\<close>

text \<open>
  A zone pointer is the zone it points to, or the bits found in memory that no constructor
  has set: \<open>Page(uint64_t)\<close> leaves \<open>zone\<close>, \<open>node\<close> and \<open>private\<close> alone.
\<close>

datatype zone_ptr = ZonePtr ZoneType | Garbage u64

record Page =
  page_count :: u32
  pageNo :: address
  map_count :: int
  page_zone :: zone_ptr
  page_node :: u64
  next_page :: "address option"
  overlap :: u32
  page_private :: u32

definition Page_new :: "Page \<Rightarrow> address \<Rightarrow> Page" where
  "Page_new raw page_no =
     raw\<lparr>page_count := 0, pageNo := page_no, map_count := -1, next_page := None, overlap := 0\<rparr>"

definition inc_reference :: "Page \<Rightarrow> Page" where
  "inc_reference p = p\<lparr>page_count := page_count p + 1\<rparr>"

definition set_page_zone :: "Page \<Rightarrow> ZoneType \<Rightarrow> Page" where
  "set_page_zone p z = p\<lparr>page_zone := ZonePtr z\<rparr>"

definition set_page_node :: "Page \<Rightarrow> u64 \<Rightarrow> Page" where
  "set_page_node p n = p\<lparr>page_node := n\<rparr>"

definition set_overlap :: "Page \<Rightarrow> u32 \<Rightarrow> Page" where
  "set_overlap p access_counter = p\<lparr>overlap := access_counter\<rparr>"

definition get_overlap :: "Page \<Rightarrow> u32" where
  "get_overlap p = overlap p"

section \<open>DRAM cache blocks\<close>

definition USED_flag :: u16 where
  "USED_flag = 0x01"

definition DIRTY_flag :: u16 where
  "DIRTY_flag = 0x02"

record DRAMBufferBlock =
  block_flag :: u16
  hotness :: u32
  max_queue :: u32
  block_id :: address
  original_addr :: address
  block_vaddr :: address

text \<open>
  The one-argument constructor sets the block number only: flags, hotness and addresses
  keep the contents of the allocated memory.
\<close>

definition DRAMBufferBlock_new :: "DRAMBufferBlock \<Rightarrow> address \<Rightarrow> DRAMBufferBlock" where
  "DRAMBufferBlock_new raw bid = raw\<lparr>block_id := bid\<rparr>"

definition DRAMBufferBlock_new2 :: "DRAMBufferBlock \<Rightarrow> address \<Rightarrow> u32 \<Rightarrow> DRAMBufferBlock" where
  "DRAMBufferBlock_new2 raw bid max_count =
     raw\<lparr>block_flag := 0, hotness := max_count, max_queue := max_count, block_id := bid\<rparr>"

definition is_occupied :: "DRAMBufferBlock \<Rightarrow> bool" where
  "is_occupied b \<longleftrightarrow> block_flag b AND USED_flag \<noteq> 0"

definition block_is_dirty :: "DRAMBufferBlock \<Rightarrow> bool" where
  "block_is_dirty b \<longleftrightarrow> block_flag b AND DIRTY_flag \<noteq> 0"

definition block_set_dirty :: "DRAMBufferBlock \<Rightarrow> DRAMBufferBlock" where
  "block_set_dirty b = b\<lparr>block_flag := block_flag b OR DIRTY_flag\<rparr>"

definition block_set_used :: "DRAMBufferBlock \<Rightarrow> DRAMBufferBlock" where
  "block_set_used b = b\<lparr>block_flag := block_flag b OR USED_flag\<rparr>"

definition block_validate :: "DRAMBufferBlock \<Rightarrow> address \<Rightarrow> DRAMBufferBlock res" where
  "block_validate b addr =
     bindE (assertE (\<not> is_occupied b)) (\<lambda>_.
     Inr ((block_set_used b)\<lparr>original_addr := addr\<rparr>))"

definition block_invalidate :: "DRAMBufferBlock \<Rightarrow> DRAMBufferBlock" where
  "block_invalidate b = b\<lparr>block_flag := 0, hotness := max_queue b\<rparr>"

definition get_src_addr :: "DRAMBufferBlock \<Rightarrow> address" where
  "get_src_addr b = original_addr b"

definition set_src_addr :: "DRAMBufferBlock \<Rightarrow> address \<Rightarrow> DRAMBufferBlock" where
  "set_src_addr b addr = b\<lparr>original_addr := addr\<rparr>"

definition set_vaddr :: "DRAMBufferBlock \<Rightarrow> address \<Rightarrow> DRAMBufferBlock" where
  "set_vaddr b addr = b\<lparr>block_vaddr := addr\<rparr>"

definition get_vaddr :: "DRAMBufferBlock \<Rightarrow> address" where
  "get_vaddr b = block_vaddr b"

lemmas block_flag_defs =
  USED_flag_def DIRTY_flag_def is_occupied_def block_is_dirty_def block_set_dirty_def
  block_set_used_def block_invalidate_def

section \<open>Address arithmetic of the DRAM cache\<close>

definition block_id_to_addr :: "GlobSimInfo \<Rightarrow> address \<Rightarrow> address" where
  "block_id_to_addr z bid = high_addr z + push_bit (block_shift z) bid"

definition dram_addr_to_block_id :: "GlobSimInfo \<Rightarrow> address \<Rightarrow> address" where
  "dram_addr_to_block_id z dram_addr = drop_bit (block_shift z) (dram_addr - high_addr z)"

definition is_dram_address :: "GlobSimInfo \<Rightarrow> address \<Rightarrow> bool" where
  "is_dram_address z paddr \<longleftrightarrow> paddr \<ge> high_addr z"

section \<open>Facts\<close>

lemma block_flags [simp]:
  "is_occupied (block_invalidate b) = False"
  "block_is_dirty (block_invalidate b) = False"
  "is_occupied (block_set_used b)"
  "block_is_dirty (block_set_dirty b)"
  "is_occupied (block_set_dirty b) = is_occupied b"
  "block_is_dirty (block_set_used b) = block_is_dirty b"
proof -
  have flags: "x OR y = 0 \<longleftrightarrow> x = 0 \<and> y = 0" for x y :: u16
    by (auto simp: bit_eq_iff bit_simps)
  have and_or: "(x OR y) AND z = (x AND z) OR (y AND z)" for x y z :: u16
    by (rule bit_word_eqI) (auto simp: bit_simps)
  show "is_occupied (block_set_used b)" "block_is_dirty (block_set_dirty b)"
    "is_occupied (block_set_dirty b) = is_occupied b"
    "block_is_dirty (block_set_used b) = block_is_dirty b"
    by (simp_all add: block_flag_defs and_or flags)
qed (simp_all add: block_flag_defs)

text \<open>
  A block number that fits above \<open>high_addr\<close> is recovered from its address, and the
  address lies in the DRAM range.
\<close>

lemma dram_block_roundtrip:
  assumes "unat (high_addr z) + unat bid * 2 ^ block_shift z < 2 ^ 64"
  shows "dram_addr_to_block_id z (block_id_to_addr z bid) = bid"
    and "is_dram_address z (block_id_to_addr z bid)"
proof -
  have small: "unat bid * 2 ^ block_shift z < 2 ^ 64"
    using assms by simp
  have push: "unat (push_bit (block_shift z) bid) = unat bid * 2 ^ block_shift z"
    using small by (simp add: unat_push_bit)
  have "drop_bit (block_shift z) (push_bit (block_shift z) bid) = bid"
    using push by (simp add: word_unat_eq_iff unat_drop_bit)
  then show "dram_addr_to_block_id z (block_id_to_addr z bid) = bid"
    by (simp add: dram_addr_to_block_id_def block_id_to_addr_def)
  have "unat (block_id_to_addr z bid) = unat (high_addr z) + unat bid * 2 ^ block_shift z"
    using assms push by (simp add: block_id_to_addr_def unat_word_ariths)
  then show "is_dram_address z (block_id_to_addr z bid)"
    by (simp add: is_dram_address_def word_le_nat_alt)
qed

end
