(* ===== verification/Page_Table.thy ===== *)
theory Page_Table
  imports Mem_Objects
begin

text \<open>
  Page table entries and page tables (\<open>page-table/page_table_entry.h\<close>) and the
  operations the three paging classes share (\<open>page-table/comm_page_table_op.h\<close>).

  The tables of one paging object live in a store from table numbers to entry vectors;
  \<open>new PageTable\<close> takes the next number, \<open>delete\<close> ends the life of the table, which is then no longer
  in the store; that the code places tables in memory of \<open>gm_memalign\<close>, which the global \<open>delete\<close> does
  not manage, is outside the model. A \<open>void*\<close> held by
  an entry is null or points to a table, a page descriptor or a DRAM cache block, and
  using it as another class is the error \<^const>\<open>Bad_cast\<close>.
\<close>

section \<open>Page table entries\<close>

datatype void_ptr = NullPtr | TablePtr nat | PagePtr address | BlockPtr address

record BasePDTEntry =
  next_level_ptr :: void_ptr
  entry_bits :: u32

definition P_bit :: u32 where "P_bit = 0x1"
definition RW_bit :: u32 where "RW_bit = 0x2"
definition PERMISSION_bit :: u32 where "PERMISSION_bit = 0x4"
definition PWT_bit :: u32 where "PWT_bit = 0x8"
definition PCD_bit :: u32 where "PCD_bit = 0x10"
definition A_bit :: u32 where "A_bit = 0x20"
definition D_bit :: u32 where "D_bit = 0x40"
definition PS_bit :: u32 where "PS_bit = 0x80"
definition G_bit :: u32 where "G_bit = 0x100"
definition PBUFFER_bit :: u32 where "PBUFFER_bit = 0x200"

lemmas pte_bit_defs =
  P_bit_def RW_bit_def PERMISSION_bit_def PWT_bit_def PCD_bit_def A_bit_def D_bit_def
  PS_bit_def G_bit_def PBUFFER_bit_def

definition set_bits :: "u32 \<Rightarrow> BasePDTEntry \<Rightarrow> BasePDTEntry" where
  "set_bits m e = e\<lparr>entry_bits := entry_bits e OR m\<rparr>"

definition clear_bits :: "u32 \<Rightarrow> BasePDTEntry \<Rightarrow> BasePDTEntry" where
  "clear_bits m e = e\<lparr>entry_bits := entry_bits e AND NOT m\<rparr>"

definition pte_is_present :: "BasePDTEntry \<Rightarrow> bool" where
  "pte_is_present e \<longleftrightarrow> entry_bits e AND P_bit \<noteq> 0"

definition read_only :: "BasePDTEntry \<Rightarrow> bool" where
  "read_only e \<longleftrightarrow> \<not> (entry_bits e AND RW_bit \<noteq> 0)"

definition can_write :: "BasePDTEntry \<Rightarrow> bool" where
  "can_write e \<longleftrightarrow> \<not> (entry_bits e AND RW_bit \<noteq> 0)"

definition user_can_access :: "BasePDTEntry \<Rightarrow> bool" where
  "user_can_access e \<longleftrightarrow> entry_bits e AND PERMISSION_bit \<noteq> 0"

definition page_write_through :: "BasePDTEntry \<Rightarrow> bool" where
  "page_write_through e \<longleftrightarrow> entry_bits e AND PWT_bit \<noteq> 0"

definition page_cache_disable :: "BasePDTEntry \<Rightarrow> bool" where
  "page_cache_disable e \<longleftrightarrow> entry_bits e AND PCD_bit \<noteq> 0"

definition is_accessed :: "BasePDTEntry \<Rightarrow> bool" where
  "is_accessed e \<longleftrightarrow> entry_bits e AND A_bit \<noteq> 0"

definition pte_is_dirty :: "BasePDTEntry \<Rightarrow> bool" where
  "pte_is_dirty e \<longleftrightarrow> entry_bits e AND D_bit \<noteq> 0"

definition is_4KB :: "BasePDTEntry \<Rightarrow> bool" where
  "is_4KB e \<longleftrightarrow> \<not> (entry_bits e AND PS_bit \<noteq> 0)"

definition is_largepage :: "BasePDTEntry \<Rightarrow> bool" where
  "is_largepage e \<longleftrightarrow> entry_bits e AND PS_bit \<noteq> 0"

definition is_global :: "BasePDTEntry \<Rightarrow> bool" where
  "is_global e \<longleftrightarrow> entry_bits e AND G_bit \<noteq> 0"

definition point_buffer_page :: "BasePDTEntry \<Rightarrow> bool" where
  "point_buffer_page e \<longleftrightarrow> entry_bits e AND PBUFFER_bit \<noteq> 0"

definition set_buffer :: "bool \<Rightarrow> BasePDTEntry \<Rightarrow> BasePDTEntry" where
  "set_buffer buffer_block e =
     (if buffer_block then set_bits PBUFFER_bit e else clear_bits PBUFFER_bit e)"

definition set_read_only :: "BasePDTEntry \<Rightarrow> BasePDTEntry" where
  "set_read_only = clear_bits RW_bit"

definition set_read_write :: "BasePDTEntry \<Rightarrow> BasePDTEntry" where
  "set_read_write = set_bits RW_bit"

definition set_supervisor :: "BasePDTEntry \<Rightarrow> BasePDTEntry" where
  "set_supervisor = clear_bits PERMISSION_bit"

definition set_user :: "BasePDTEntry \<Rightarrow> BasePDTEntry" where
  "set_user = set_bits PERMISSION_bit"

definition set_pwt :: "BasePDTEntry \<Rightarrow> BasePDTEntry" where
  "set_pwt = set_bits PWT_bit"

definition set_cache_writeback :: "BasePDTEntry \<Rightarrow> BasePDTEntry" where
  "set_cache_writeback = clear_bits PWT_bit"

definition set_uncacheable :: "BasePDTEntry \<Rightarrow> BasePDTEntry" where
  "set_uncacheable = set_bits PCD_bit"

definition set_cacheable :: "BasePDTEntry \<Rightarrow> BasePDTEntry" where
  "set_cacheable = clear_bits PCD_bit"

definition set_accessed :: "BasePDTEntry \<Rightarrow> BasePDTEntry" where
  "set_accessed = set_bits A_bit"

definition set_unaccessed :: "BasePDTEntry \<Rightarrow> BasePDTEntry" where
  "set_unaccessed = clear_bits A_bit"

definition pte_set_dirty :: "BasePDTEntry \<Rightarrow> BasePDTEntry" where
  "pte_set_dirty = set_bits D_bit"

definition clear_dirty :: "BasePDTEntry \<Rightarrow> BasePDTEntry" where
  "clear_dirty = clear_bits D_bit"

definition enable_4KB :: "BasePDTEntry \<Rightarrow> BasePDTEntry" where
  "enable_4KB = clear_bits PS_bit"

definition enable_large_page :: "BasePDTEntry \<Rightarrow> BasePDTEntry" where
  "enable_large_page = set_bits PS_bit"

definition set_page_global :: "BasePDTEntry \<Rightarrow> BasePDTEntry" where
  "set_page_global = set_bits G_bit"

definition set_page_local :: "BasePDTEntry \<Rightarrow> BasePDTEntry" where
  "set_page_local = clear_bits G_bit"

definition BasePDTEntry_new :: BasePDTEntry where
  "BasePDTEntry_new = set_user (set_read_write \<lparr>next_level_ptr = NullPtr, entry_bits = 0\<rparr>)"

definition BasePDTEntry_new_ptr :: "void_ptr \<Rightarrow> BasePDTEntry" where
  "BasePDTEntry_new_ptr ppt = \<lparr>next_level_ptr = ppt, entry_bits = 0\<rparr>"

definition validate :: "void_ptr \<Rightarrow> bool \<Rightarrow> BasePDTEntry \<Rightarrow> BasePDTEntry" where
  "validate next_level_addr is_buffer e =
     (set_buffer is_buffer (set_bits P_bit e))\<lparr>next_level_ptr := next_level_addr\<rparr>"

definition pte_invalidate_page :: "BasePDTEntry \<Rightarrow> BasePDTEntry res" where
  "pte_invalidate_page e =
     bindE (assertE (pte_is_present e)) (\<lambda>_.
     Inr ((set_read_write (set_user (e\<lparr>entry_bits := 0\<rparr>)))\<lparr>next_level_ptr := NullPtr\<rparr>))"

definition pte_set_next_level_address :: "void_ptr \<Rightarrow> BasePDTEntry \<Rightarrow> BasePDTEntry" where
  "pte_set_next_level_address ppt e = e\<lparr>next_level_ptr := ppt\<rparr>"

section \<open>The store of page tables\<close>

record table_heap =
  tables :: "nat \<Rightarrow> BasePDTEntry list option"
  next_table :: nat

definition empty_heap :: table_heap where
  "empty_heap = \<lparr>tables = (\<lambda>_. None), next_table = 0\<rparr>"

text \<open>\<open>PageTable(uint64_t size)\<close>: a vector of \<open>sz\<close> default entries.\<close>

definition PageTable_new :: "nat \<Rightarrow> table_heap \<Rightarrow> (nat \<times> table_heap) res" where
  "PageTable_new sz hp =
     bindE (assertE (sz > 0)) (\<lambda>_.
     Inr (next_table hp,
       hp\<lparr>tables := (tables hp)(next_table hp \<mapsto> replicate sz BasePDTEntry_new),
          next_table := Suc (next_table hp)\<rparr>))"

definition table_ref :: "table_heap \<Rightarrow> nat \<Rightarrow> BasePDTEntry list res" where
  "table_ref hp t = derefE (tables hp t)"

text \<open>A \<open>void*\<close> used as a \<open>PageTable*\<close> that is dereferenced.\<close>

definition as_table :: "void_ptr \<Rightarrow> nat res" where
  "as_table p = (case p of TablePtr t \<Rightarrow> Inr t | NullPtr \<Rightarrow> Inl Null_deref | _ \<Rightarrow> Inl Bad_cast)"

text \<open>\<open>PageTable::operator[]\<close> checks the index.\<close>

definition entry_ref :: "table_heap \<Rightarrow> nat \<Rightarrow> u32 \<Rightarrow> BasePDTEntry res" where
  "entry_ref hp t entry_id =
     bindE (table_ref hp t) (\<lambda>es.
     bindE (assertE (unat entry_id < length es)) (\<lambda>_.
     Inr (es ! unat entry_id)))"

definition entry_upd ::
  "table_heap \<Rightarrow> nat \<Rightarrow> u32 \<Rightarrow> (BasePDTEntry \<Rightarrow> BasePDTEntry) \<Rightarrow> table_heap res" where
  "entry_upd hp t entry_id f =
     bindE (table_ref hp t) (\<lambda>es.
     bindE (assertE (unat entry_id < length es)) (\<lambda>_.
     Inr (hp\<lparr>tables := (tables hp)(t \<mapsto> es[unat entry_id := f (es ! unat entry_id)])\<rparr>)))"

text \<open>\<open>entry_array[entry_id]\<close> without the check of \<open>operator[]\<close>.\<close>

definition raw_entry :: "table_heap \<Rightarrow> nat \<Rightarrow> u32 \<Rightarrow> BasePDTEntry res" where
  "raw_entry hp t entry_id = bindE (table_ref hp t) (\<lambda>es. nthE es (unat entry_id))"

definition table_get_next_level_address :: "table_heap \<Rightarrow> nat \<Rightarrow> u32 \<Rightarrow> void_ptr res" where
  "table_get_next_level_address hp t entry_id =
     bindE (table_ref hp t) (\<lambda>es.
     if unat entry_id < length es then Inr (next_level_ptr (es ! unat entry_id)) else Inr NullPtr)"

definition table_enable_large_page :: "table_heap \<Rightarrow> nat \<Rightarrow> table_heap res" where
  "table_enable_large_page hp t =
     bindE (table_ref hp t) (\<lambda>es.
     Inr (hp\<lparr>tables := (tables hp)(t \<mapsto> map enable_large_page es)\<rparr>))"

section \<open>Shared page table operations\<close>

definition is_present :: "table_heap \<Rightarrow> nat \<Rightarrow> u32 \<Rightarrow> bool res" where
  "is_present hp t entry_id = bindE (raw_entry hp t entry_id) (\<lambda>e. Inr (pte_is_present e))"

definition point_to_buffer_table :: "table_heap \<Rightarrow> nat \<Rightarrow> u32 \<Rightarrow> bool res" where
  "point_to_buffer_table hp t entry_id =
     bindE (entry_ref hp t entry_id) (\<lambda>e. Inr (point_buffer_page e))"

definition get_next_level_address :: "table_heap \<Rightarrow> nat \<Rightarrow> u32 \<Rightarrow> void_ptr res" where
  "get_next_level_address hp t entry_id =
     bindE (entry_ref hp t entry_id) (\<lambda>e. Inr (next_level_ptr e))"

definition set_next_level_address ::
  "table_heap \<Rightarrow> nat \<Rightarrow> u32 \<Rightarrow> void_ptr \<Rightarrow> table_heap res" where
  "set_next_level_address hp t entry_id p = entry_upd hp t entry_id (pte_set_next_level_address p)"

definition validate_entry ::
  "table_heap \<Rightarrow> nat \<Rightarrow> u32 \<Rightarrow> void_ptr \<Rightarrow> bool \<Rightarrow> table_heap res" where
  "validate_entry hp t entry_id p map_to_buffer =
     bindE (entry_upd hp t entry_id (validate p map_to_buffer)) (\<lambda>hp.
     if \<not> map_to_buffer then entry_upd hp t entry_id (set_buffer False) else Inr hp)"

definition is_valid :: "table_heap \<Rightarrow> nat \<Rightarrow> u32 \<Rightarrow> bool res" where
  "is_valid hp t entry_id = bindE (entry_ref hp t entry_id) (\<lambda>e. Inr (pte_is_present e))"

definition invalidate_page :: "table_heap \<Rightarrow> nat \<Rightarrow> u32 \<Rightarrow> table_heap res" where
  "invalidate_page hp t entry_id =
     bindE (is_present hp t entry_id) (\<lambda>present.
     if present then
       bindE (entry_ref hp t entry_id) (\<lambda>e.
       bindE (pte_invalidate_page e) (\<lambda>e'.
       entry_upd hp t entry_id (\<lambda>_. e')))
     else Inr hp)"

text \<open>
  \<open>invalidate_entry\<close> calls \<open>invalidate_page_table\<close>: it deletes the next-level table of
  a present entry, clears the pointer and resets the bits. The second assertion fails on
  an entry that is not present.
\<close>

definition invalidate_entry :: "table_heap \<Rightarrow> nat \<Rightarrow> u32 \<Rightarrow> table_heap res" where
  "invalidate_entry hp t entry_id =
     bindE (entry_ref hp t entry_id) (\<lambda>e.
     bindE (if pte_is_present e then
              bindE (assertE (next_level_ptr e \<noteq> NullPtr)) (\<lambda>_.
              bindE (as_table (next_level_ptr e)) (\<lambda>child.
              entry_upd (hp\<lparr>tables := (tables hp)(child := None)\<rparr>) t entry_id
                (pte_set_next_level_address NullPtr)))
            else Inr hp) (\<lambda>hp.
     bindE (entry_ref hp t entry_id) (\<lambda>e.
     bindE (assertE (pte_is_present e)) (\<lambda>_.
     entry_upd hp t entry_id
       (\<lambda>e. set_read_write (set_user (e\<lparr>entry_bits := 0\<rparr>)))))))"

section \<open>Table offsets of a virtual address\<close>

definition get_pagetable_off :: "address \<Rightarrow> PagingStyle \<Rightarrow> u32" where
  "get_pagetable_off addr mode =
     (case mode of
        Legacy_Normal \<Rightarrow> get_bit_value addr 12 21
      | PAE_Normal \<Rightarrow> get_bit_value addr 21 20
      | LongMode_Normal \<Rightarrow> get_bit_value addr 12 20
      | _ \<Rightarrow> -1)"

definition get_buffer_table_off :: "address \<Rightarrow> u32 \<Rightarrow> PagingStyle \<Rightarrow> u32" where
  "get_buffer_table_off addr buffer_shift mode = 0"

definition get_page_directory_off :: "address \<Rightarrow> PagingStyle \<Rightarrow> u32" where
  "get_page_directory_off addr mode =
     (if mode = Legacy_Normal \<or> mode = Legacy_Huge then get_bit_value addr 22 31
      else if mode = PAE_Normal \<or> mode = PAE_Huge \<or> mode = LongMode_Normal \<or> mode = LongMode_Middle
        then get_bit_value addr 21 29
      else -1)"

definition get_page_directory_pointer_off :: "address \<Rightarrow> PagingStyle \<Rightarrow> u32" where
  "get_page_directory_pointer_off addr mode =
     (if mode = PAE_Normal \<or> mode = PAE_Huge then get_bit_value addr 30 31
      else if mode = LongMode_Normal \<or> mode = LongMode_Middle \<or> mode = LongMode_Huge
        then get_bit_value addr 30 38
      else -1)"

definition get_pml4_off :: "address \<Rightarrow> PagingStyle \<Rightarrow> u32" where
  "get_pml4_off addr mode =
     (if mode = LongMode_Normal \<or> mode = LongMode_Middle \<or> mode = LongMode_Huge
        then get_bit_value addr 39 47
      else -1)"

text \<open>\<open>get_domains\<close> returns the four offsets (pml4, pdp, pd, pt); unused ones are -1.\<close>

definition get_domains :: "address \<Rightarrow> PagingStyle \<Rightarrow> u32 \<times> u32 \<times> u32 \<times> u32" where
  "get_domains addr mode =
     (case mode of
        Legacy_Normal \<Rightarrow> (-1, -1, get_bit_value addr 22 31, get_bit_value addr 12 21)
      | Legacy_Huge \<Rightarrow> (-1, -1, get_bit_value addr 22 31, -1)
      | PAE_Normal \<Rightarrow>
          (-1, get_bit_value addr 30 31, get_bit_value addr 21 29, get_bit_value addr 12 20)
      | PAE_Huge \<Rightarrow> (-1, get_bit_value addr 30 31, get_bit_value addr 21 29, -1)
      | LongMode_Normal \<Rightarrow>
          (get_bit_value addr 39 47, get_bit_value addr 30 38, get_bit_value addr 21 29,
           get_bit_value addr 12 20)
      | LongMode_Middle \<Rightarrow>
          (get_bit_value addr 39 47, get_bit_value addr 30 38, get_bit_value addr 21 29, -1)
      | LongMode_Huge \<Rightarrow> (get_bit_value addr 39 47, get_bit_value addr 30 38, -1, -1))"

section \<open>From a mapped object to its page number\<close>

text \<open>
  The objects page table entries point to: the page descriptors of the memory node and the
  blocks of the DRAM cache, by number.
\<close>

record mem_objs =
  obj_pages :: "address \<Rightarrow> Page option"
  obj_blocks :: "address \<Rightarrow> DRAMBufferBlock option"

definition as_page :: "mem_objs \<Rightarrow> void_ptr \<Rightarrow> Page res" where
  "as_page os p =
     (case p of PagePtr n \<Rightarrow> derefE (obj_pages os n) | NullPtr \<Rightarrow> Inl Null_deref | _ \<Rightarrow> Inl Bad_cast)"

definition as_block :: "mem_objs \<Rightarrow> void_ptr \<Rightarrow> DRAMBufferBlock res" where
  "as_block os p =
     (case p of BlockPtr n \<Rightarrow> derefE (obj_blocks os n) | NullPtr \<Rightarrow> Inl Null_deref | _ \<Rightarrow> Inl Bad_cast)"

fun put_page :: "mem_objs \<Rightarrow> void_ptr \<Rightarrow> Page \<Rightarrow> mem_objs" where
  "put_page os (PagePtr n) pg = os\<lparr>obj_pages := (obj_pages os)(n \<mapsto> pg)\<rparr>"
| "put_page os _ pg = os"

fun put_block :: "mem_objs \<Rightarrow> void_ptr \<Rightarrow> DRAMBufferBlock \<Rightarrow> mem_objs" where
  "put_block os (BlockPtr n) b = os\<lparr>obj_blocks := (obj_blocks os)(n \<mapsto> b)\<rparr>"
| "put_block os _ b = os"

text \<open>
  \<open>extend_one_buffer_map\<close>; the pointer reference \<open>mapped_entry\<close> is a result: the table
  and index of the entry that was not valid before.
\<close>

definition extend_one_buffer_map ::
  "table_heap \<Rightarrow> nat \<Rightarrow> void_ptr \<Rightarrow> u32 \<Rightarrow> u32 \<Rightarrow> nat \<Rightarrow> (table_heap \<times> (nat \<times> u32) option) res" where
  "extend_one_buffer_map hp table block_ptr pt_entry_id buffer_entry_id buffer_table_entry_num =
     bindE (get_next_level_address hp table pt_entry_id) (\<lambda>next_level_addr.
     bindE (point_to_buffer_table hp table pt_entry_id) (\<lambda>pbuffer.
     if \<not> pbuffer then
       bindE (PageTable_new buffer_table_entry_num hp) (\<lambda>(buffer_table, hp).
       bindE (validate_entry hp table pt_entry_id (TablePtr buffer_table) True) (\<lambda>hp.
       bindE (is_valid hp buffer_table buffer_entry_id) (\<lambda>v.
       bindE (validate_entry hp buffer_table buffer_entry_id block_ptr True) (\<lambda>hp.
       Inr (hp, if \<not> v then Some (buffer_table, buffer_entry_id) else None)))))
     else
       bindE (as_table next_level_addr) (\<lambda>t.
       bindE (is_valid hp t buffer_entry_id) (\<lambda>v.
       bindE (validate_entry hp t buffer_entry_id block_ptr True) (\<lambda>hp.
       Inr (hp, if \<not> v then Some (t, buffer_entry_id) else None))))))"

text \<open>
  \<open>get_block_id\<close>: the page number of the mapped object. A set-dirty request marks the
  entry and the cache block dirty; a write-back request stores the access counter in the
  page descriptor. The request's \<open>childId\<close> carries the block's dirty bit or the counter.
\<close>

definition get_block_id ::
  "GlobSimInfo \<Rightarrow> mem_objs \<Rightarrow> table_heap \<Rightarrow> MemReq \<Rightarrow> nat option \<Rightarrow> void_ptr \<Rightarrow> u32 \<Rightarrow>
   bool \<Rightarrow> bool \<Rightarrow> bool \<Rightarrow> u32 \<Rightarrow> (address \<times> MemReq \<times> table_heap \<times> mem_objs) res" where
  "get_block_id z os hp req pgt pblock pg_id pbuffer set_dirty write_back access_counter =
     (if pblock = NullPtr then Inr (INVALID_PAGE_ADDR, req, hp, os)
      else if pbuffer then
        bindE (as_block os pblock) (\<lambda>b.
        bindE (if set_dirty then
                 bindE (assertE (pgt \<noteq> None)) (\<lambda>_.
                 bindE (derefE pgt) (\<lambda>t.
                 bindE (raw_entry hp t pg_id) (\<lambda>_.
                 bindE (entry_upd hp t pg_id pte_set_dirty) (\<lambda>hp.
                 Inr (block_set_dirty b, hp)))))
               else Inr (b, hp)) (\<lambda>(b, hp).
        Inr (drop_bit (page_shift z) (block_id_to_addr z (block_id b)),
             req\<lparr>childId := (if block_is_dirty b then 1 else 0)\<rparr>,
             hp, put_block os pblock b)))
      else
        bindE (as_page os pblock) (\<lambda>pg.
        (let pg = (if write_back then set_overlap pg access_counter else pg)
         in Inr (pageNo pg, req\<lparr>childId := get_overlap pg\<rparr>, hp, put_page os pblock pg))))"

end
