(* ===== verification/Page_Tree.thy ===== *)
theory Page_Tree
  imports Page_Table "HOL-Library.Sublist"
begin

text \<open>
  The tables of a paging object as a tree. A table is reached from the root by the list
  of entry numbers on the way; the well-formedness of a tree gives every reachable table
  the length of its level and every entry the pointer its level allows, makes the path to
  a table unique and every unused table number free. Writing a leaf entry, linking a new
  table and cutting off a subtree keep it, and change exactly the paths one expects.
\<close>

section \<open>Paths\<close>

definition entry_of :: "table_heap \<Rightarrow> nat \<Rightarrow> nat \<Rightarrow> BasePDTEntry option" where
  "entry_of hp t i =
     (case tables hp t of None \<Rightarrow> None | Some es \<Rightarrow> if i < length es then Some (es ! i) else None)"

fun table_of :: "void_ptr \<Rightarrow> nat option" where
  "table_of (TablePtr t) = Some t"
| "table_of _ = None"

definition child :: "table_heap \<Rightarrow> nat \<Rightarrow> nat \<Rightarrow> nat option" where
  "child hp t i = Option.bind (entry_of hp t i) (\<lambda>e. table_of (next_level_ptr e))"

fun tbl_at :: "table_heap \<Rightarrow> nat \<Rightarrow> nat list \<Rightarrow> nat option" where
  "tbl_at hp t [] = Some t"
| "tbl_at hp t (i # p) = Option.bind (child hp t i) (\<lambda>c. tbl_at hp c p)"

text \<open>The entry an address selects: the path to its table and the index in it.\<close>

definition leaf_at :: "table_heap \<Rightarrow> nat \<Rightarrow> nat list \<times> nat \<Rightarrow> BasePDTEntry option" where
  "leaf_at hp root pi = Option.bind (tbl_at hp root (fst pi)) (\<lambda>t. entry_of hp t (snd pi))"

lemma tbl_at_append: "tbl_at hp t (p @ q) = Option.bind (tbl_at hp t p) (\<lambda>u. tbl_at hp u q)"
  by (induction p arbitrary: t) (auto split: bind_splits)

lemma tbl_at_snoc: "tbl_at hp t (p @ [i]) = Option.bind (tbl_at hp t p) (\<lambda>u. child hp u i)"
  by (simp add: tbl_at_append)

lemma tbl_at_cong:
  assumes "child hp' = child hp"
  shows "tbl_at hp' = tbl_at hp"
proof (intro ext)
  fix t p
  show "tbl_at hp' t p = tbl_at hp t p"
    by (induction p arbitrary: t) (simp_all add: assms)
qed

section \<open>Well-formed trees\<close>

text \<open>
  An entry of an inner level is absent or points to a table of the tree; an entry of the
  last level is absent or points to a page, or to a cache block when its buffer bit is set.
\<close>

definition entry_ok :: "bool \<Rightarrow> BasePDTEntry \<Rightarrow> bool" where
  "entry_ok inner e \<longleftrightarrow>
     (pte_is_present e \<longleftrightarrow> next_level_ptr e \<noteq> NullPtr) \<and>
     (case next_level_ptr e of
        NullPtr \<Rightarrow> \<not> point_buffer_page e
      | TablePtr _ \<Rightarrow> inner \<and> \<not> point_buffer_page e
      | PagePtr _ \<Rightarrow> \<not> inner \<and> \<not> point_buffer_page e
      | BlockPtr _ \<Rightarrow> \<not> inner \<and> point_buffer_page e)"

definition level_ok :: "nat \<Rightarrow> bool \<Rightarrow> table_heap \<Rightarrow> nat \<Rightarrow> bool" where
  "level_ok n inner hp t \<longleftrightarrow>
     (\<exists>es. tables hp t = Some es \<and> length es = n \<and> (\<forall>e \<in> set es. entry_ok inner e))"

definition wf_tree :: "nat list \<Rightarrow> table_heap \<Rightarrow> nat \<Rightarrow> bool" where
  "wf_tree szs hp root \<longleftrightarrow>
     (\<forall>p t. tbl_at hp root p = Some t \<longrightarrow>
        length p < length szs \<and> level_ok (szs ! length p) (Suc (length p) < length szs) hp t) \<and>
     (\<forall>p q t. tbl_at hp root p = Some t \<longrightarrow> tbl_at hp root q = Some t \<longrightarrow> p = q) \<and>
     (\<forall>t. next_table hp \<le> t \<longrightarrow> tables hp t = None)"

lemma wf_tree_level:
  "wf_tree szs hp root \<Longrightarrow> tbl_at hp root p = Some t \<Longrightarrow>
     length p < length szs \<and> level_ok (szs ! length p) (Suc (length p) < length szs) hp t"
  by (simp add: wf_tree_def)

lemma wf_tree_inj:
  "wf_tree szs hp root \<Longrightarrow> tbl_at hp root p = Some t \<Longrightarrow> tbl_at hp root q = Some t \<Longrightarrow> p = q"
  unfolding wf_tree_def by blast

lemma wf_tree_fresh: "wf_tree szs hp root \<Longrightarrow> next_table hp \<le> t \<Longrightarrow> tables hp t = None"
  by (simp add: wf_tree_def)

lemma wf_tree_entry:
  assumes "wf_tree szs hp root" "tbl_at hp root p = Some t" "i < szs ! length p"
  obtains e where "entry_of hp t i = Some e" "entry_ok (Suc (length p) < length szs) e"
  using wf_tree_level [OF assms(1,2)] assms(3)
  by (auto simp: level_ok_def entry_of_def)

lemma wf_tree_entry_range:
  assumes "wf_tree szs hp root" "tbl_at hp root p = Some t" "entry_of hp t i = Some e"
  shows "i < szs ! length p" "entry_ok (Suc (length p) < length szs) e"
  using wf_tree_level [OF assms(1,2)] assms(3)
  by (auto simp: level_ok_def entry_of_def split: if_splits option.splits)

section \<open>Writing an entry\<close>

definition put_entry :: "table_heap \<Rightarrow> nat \<Rightarrow> nat \<Rightarrow> BasePDTEntry \<Rightarrow> table_heap" where
  "put_entry hp t i e = hp\<lparr>tables := (tables hp)(t := map_option (\<lambda>es. es[i := e]) (tables hp t))\<rparr>"

lemma next_table_put_entry [simp]: "next_table (put_entry hp t i e) = next_table hp"
  by (simp add: put_entry_def)

lemma entry_of_put_entry:
  "entry_of (put_entry hp t i e) u j =
     (if u = t \<and> j = i \<and> entry_of hp t i \<noteq> None then Some e else entry_of hp u j)"
  by (auto simp: entry_of_def put_entry_def nth_list_update split: option.splits if_splits)

lemma tables_put_entry_None [simp]: "tables (put_entry hp t i e) u = None \<longleftrightarrow> tables hp u = None"
  by (auto simp: put_entry_def)

lemma level_ok_put_entry:
  assumes "level_ok n inner hp u" and "u = t \<Longrightarrow> entry_ok inner e"
  shows "level_ok n inner (put_entry hp t i e) u"
  using assms by (auto simp: level_ok_def put_entry_def dest!: set_update_subset_insert [THEN subsetD])

lemma put_entry_put_entry [simp]: "put_entry (put_entry hp t i e) t i e' = put_entry hp t i e'"
  by (cases "tables hp t") (simp_all add: put_entry_def)

lemma put_entry_same: "entry_of hp t i = Some e \<Longrightarrow> put_entry hp t i e = hp"
  by (auto simp: entry_of_def put_entry_def fun_upd_idem_iff list_update_same_conv
      split: option.splits if_splits)

text \<open>The operations of the code, on an entry that exists.\<close>

lemma entry_ref_eq [simp]:
  "entry_of hp t (unat i) = Some e \<Longrightarrow> entry_ref hp t i = Inr e"
  by (auto simp: entry_of_def entry_ref_def table_ref_def split: option.splits if_splits)

lemma raw_entry_eq [simp]:
  "entry_of hp t (unat i) = Some e \<Longrightarrow> raw_entry hp t i = Inr e"
  by (auto simp: entry_of_def raw_entry_def table_ref_def split: option.splits if_splits)

lemma entry_upd_eq [simp]:
  "entry_of hp t (unat i) = Some e \<Longrightarrow> entry_upd hp t i f = Inr (put_entry hp t (unat i) (f e))"
  by (auto simp: entry_of_def entry_upd_def table_ref_def put_entry_def
      split: option.splits if_splits)

lemma table_ops_eq [simp]:
  assumes "entry_of hp t (unat i) = Some e"
  shows "is_present hp t i = Inr (pte_is_present e)"
    and "is_valid hp t i = Inr (pte_is_present e)"
    and "point_to_buffer_table hp t i = Inr (point_buffer_page e)"
    and "get_next_level_address hp t i = Inr (next_level_ptr e)"
  using assms
  by (simp_all add: is_present_def is_valid_def point_to_buffer_table_def get_next_level_address_def)

section \<open>The three changes of a tree\<close>

text \<open>Overwriting a leaf entry by another entry that is no table pointer.\<close>

lemma child_put_leaf:
  assumes "child hp t i = None" and "table_of (next_level_ptr e) = None"
  shows "child (put_entry hp t i e) = child hp"
  using assms by (intro ext) (auto simp: child_def entry_of_put_entry split: bind_splits)

lemma put_leaf:
  assumes wf: "wf_tree szs hp root" and at: "tbl_at hp root p = Some t"
    and leaf: "Suc (length p) = length szs" and e: "entry_ok False e"
  shows "wf_tree szs (put_entry hp t i e) root"
    and "tbl_at (put_entry hp t i e) = tbl_at hp"
proof -
  have "child hp t i = None"
  proof (rule ccontr)
    assume "child hp t i \<noteq> None"
    then obtain c where "tbl_at hp root (p @ [i]) = Some c"
      using at by (auto simp: tbl_at_snoc)
    from wf_tree_level [OF wf this] leaf show False by simp
  qed
  moreover have "table_of (next_level_ptr e) = None"
    using e by (auto simp: entry_ok_def split: void_ptr.splits)
  ultimately show same: "tbl_at (put_entry hp t i e) = tbl_at hp"
    by (intro tbl_at_cong child_put_leaf)
  have "level_ok (szs ! length q) (Suc (length q) < length szs) (put_entry hp t i e) u"
    if "tbl_at hp root q = Some u" for q u
  proof (rule level_ok_put_entry)
    show "level_ok (szs ! length q) (Suc (length q) < length szs) hp u"
      using wf_tree_level [OF wf that] by simp
    show "entry_ok (Suc (length q) < length szs) e" if "u = t"
      using wf_tree_inj [OF wf at, of q] \<open>tbl_at hp root q = Some u\<close> that leaf e by auto
  qed
  then show "wf_tree szs (put_entry hp t i e) root"
    using wf unfolding wf_tree_def same by (auto simp: wf_tree_level [OF wf])
qed

text \<open>Linking a new table under an entry that had none.\<close>

definition new_table :: "nat \<Rightarrow> table_heap \<Rightarrow> table_heap" where
  "new_table n hp =
     hp\<lparr>tables := (tables hp)(next_table hp \<mapsto> replicate n BasePDTEntry_new),
        next_table := Suc (next_table hp)\<rparr>"

lemma PageTable_new_eq [simp]:
  "0 < n \<Longrightarrow> PageTable_new n hp = Inr (next_table hp, new_table n hp)"
  by (simp add: PageTable_new_def new_table_def)

lemma BasePDTEntry_new_simps [simp]:
  "next_level_ptr BasePDTEntry_new = NullPtr"
  "\<not> pte_is_present BasePDTEntry_new"
  "\<not> point_buffer_page BasePDTEntry_new"
  "entry_ok inner BasePDTEntry_new"
  by (simp_all add: BasePDTEntry_new_def set_user_def set_read_write_def set_bits_def
      pte_is_present_def point_buffer_page_def pte_bit_defs entry_ok_def)

definition link_table :: "nat \<Rightarrow> table_heap \<Rightarrow> nat \<Rightarrow> nat \<Rightarrow> BasePDTEntry \<Rightarrow> table_heap" where
  "link_table n hp t i e = put_entry (new_table n hp) t i e"

lemma entry_of_new_table:
  "entry_of (new_table n hp) t i =
     (if t = next_table hp then if i < n then Some BasePDTEntry_new else None else entry_of hp t i)"
  by (simp add: entry_of_def new_table_def)

lemma entry_of_link_table:
  assumes "t \<noteq> next_table hp"
  shows "entry_of (link_table n hp t i e) u j =
    (if u = t \<and> j = i \<and> entry_of hp t i \<noteq> None then Some e
     else if u = next_table hp then if j < n then Some BasePDTEntry_new else None
     else entry_of hp u j)"
  using assms by (simp add: link_table_def entry_of_put_entry entry_of_new_table)

lemma child_link_table:
  assumes "t \<noteq> next_table hp" and "entry_of hp t i \<noteq> None"
  shows "child (link_table n hp t i e) u j =
    (if u = t \<and> j = i then table_of (next_level_ptr e)
     else if u = next_table hp then None else child hp u j)"
  using assms by (auto simp: child_def entry_of_link_table)

text \<open>The conditions under which the code links a table of \<open>n\<close> entries below \<open>p\<close>.\<close>

definition can_link ::
  "nat list \<Rightarrow> table_heap \<Rightarrow> nat \<Rightarrow> nat list \<Rightarrow> nat \<Rightarrow> nat \<Rightarrow> BasePDTEntry \<Rightarrow> nat \<Rightarrow> bool" where
  "can_link szs hp root p t i e n \<longleftrightarrow>
     wf_tree szs hp root \<and> tbl_at hp root p = Some t \<and> Suc (length p) < length szs \<and>
     i < szs ! length p \<and> child hp t i = None \<and>
     next_level_ptr e = TablePtr (next_table hp) \<and> entry_ok True e \<and> n = szs ! Suc (length p)"

lemma reached_old:
  "wf_tree szs hp root \<Longrightarrow> tbl_at hp root q = Some u \<Longrightarrow> u \<noteq> next_table hp"
  using wf_tree_level [of szs hp root q u] wf_tree_fresh [of szs hp root "next_table hp"]
  by (auto simp: level_ok_def)

lemma child_new:
  assumes link: "can_link szs hp root p t i e n"
  shows "child (link_table n hp t i e) u j =
    (if u = t \<and> j = i then Some (next_table hp) else if u = next_table hp then None else child hp u j)"
proof -
  have wf: "wf_tree szs hp root" and at: "tbl_at hp root p = Some t" and i: "i < szs ! length p"
    and e: "next_level_ptr e = TablePtr (next_table hp)"
    using link by (simp_all add: can_link_def)
  have "entry_of hp t i \<noteq> None"
    using wf_tree_entry [OF wf at i] by auto
  then show ?thesis
    using reached_old [OF wf at] e by (simp add: child_link_table)
qed

lemma tbl_at_new:
  assumes link: "can_link szs hp root p t i e n"
  shows "tbl_at (link_table n hp t i e) root q =
    (if q = p @ [i] then Some (next_table hp) else tbl_at hp root q)"
proof (induction q rule: rev_induct)
  case Nil
  then show ?case by simp
next
  case (snoc j q)
  have wf: "wf_tree szs hp root" and at: "tbl_at hp root p = Some t" and free: "child hp t i = None"
    using link by (simp_all add: can_link_def)
  note old = reached_old [OF wf]
  show ?case
  proof (cases "q = p @ [i]")
    case True
    then have "tbl_at hp root q = None" "tbl_at (link_table n hp t i e) root q = Some (next_table hp)"
      and "q \<noteq> p"
      using at free snoc by (auto simp: tbl_at_snoc)
    then show ?thesis
      using old [OF at] by (simp add: tbl_at_snoc child_new [OF link])
  next
    case False
    then have IH: "tbl_at (link_table n hp t i e) root q = tbl_at hp root q"
      using snoc by simp
    show ?thesis
    proof (cases "tbl_at hp root q")
      case None
      then show ?thesis using at IH by (auto simp: tbl_at_snoc)
    next
      case (Some u)
      have "u = t \<longleftrightarrow> q = p"
        using wf_tree_inj [OF wf at, of q] Some at by auto
      then show ?thesis
        using Some IH old [OF Some] by (simp add: tbl_at_snoc child_new [OF link])
    qed
  qed
qed

lemma level_new:
  assumes link: "can_link szs hp root p t i e n"
    and q: "tbl_at (link_table n hp t i e) root q = Some u"
  shows "length q < length szs \<and>
    level_ok (szs ! length q) (Suc (length q) < length szs) (link_table n hp t i e) u"
proof -
  have wf: "wf_tree szs hp root" and at: "tbl_at hp root p = Some t"
    and inner: "Suc (length p) < length szs" and e: "entry_ok True e" and n: "n = szs ! Suc (length p)"
    using link by (simp_all add: can_link_def)
  show ?thesis
  proof (cases "q = p @ [i]")
    case True
    then have "u = next_table hp" using q by (simp add: tbl_at_new [OF link])
    then show ?thesis
      using True inner n reached_old [OF wf at]
      by (auto simp: level_ok_def link_table_def put_entry_def new_table_def)
  next
    case False
    then have u: "tbl_at hp root q = Some u" using q by (simp add: tbl_at_new [OF link])
    have "level_ok (szs ! length q) (Suc (length q) < length szs) (new_table n hp) u"
      using wf_tree_level [OF wf u] reached_old [OF wf u] by (auto simp: level_ok_def new_table_def)
    moreover have "entry_ok (Suc (length q) < length szs) e" if "u = t"
      using wf_tree_inj [OF wf at, of q] u that inner e by auto
    ultimately show ?thesis
      using wf_tree_level [OF wf u] by (simp add: link_table_def level_ok_put_entry)
  qed
qed

lemma wf_treeI:
  assumes "\<And>p t. tbl_at hp root p = Some t \<Longrightarrow>
      length p < length szs \<and> level_ok (szs ! length p) (Suc (length p) < length szs) hp t"
    and "\<And>p q t. tbl_at hp root p = Some t \<Longrightarrow> tbl_at hp root q = Some t \<Longrightarrow> p = q"
    and "\<And>t. next_table hp \<le> t \<Longrightarrow> tables hp t = None"
  shows "wf_tree szs hp root"
  unfolding wf_tree_def by (intro conjI allI impI) (use assms in blast)+

lemma wf_new:
  assumes link: "can_link szs hp root p t i e n"
  shows "wf_tree szs (link_table n hp t i e) root"
proof (rule wf_treeI)
  have wf: "wf_tree szs hp root"
    using link by (simp add: can_link_def)
  show "q = r"
    if "tbl_at (link_table n hp t i e) root q = Some u" "tbl_at (link_table n hp t i e) root r = Some u"
    for q r u
    using that reached_old [OF wf, of q u] reached_old [OF wf, of r u] wf_tree_inj [OF wf, of q u r]
    by (simp add: tbl_at_new [OF link] split: if_splits)
  show "tables (link_table n hp t i e) u = None" if "next_table (link_table n hp t i e) \<le> u" for u
    using that wf_tree_fresh [OF wf, of u] by (simp add: link_table_def new_table_def)
qed (rule level_new [OF link])

lemma leaf_new:
  assumes link: "can_link szs hp root p t i e n" and q: "Suc (length q) = length szs"
  shows "leaf_at (link_table n hp t i e) root (q, j) =
    (if q = p @ [i] then if j < n then Some BasePDTEntry_new else None else leaf_at hp root (q, j))"
proof -
  have wf: "wf_tree szs hp root" and at: "tbl_at hp root p = Some t"
    and inner: "Suc (length p) < length szs"
    using link by (simp_all add: can_link_def)
  note old = reached_old [OF wf]
  show ?thesis
  proof (cases "tbl_at hp root q")
    case None
    then show ?thesis
      using old [OF at] by (simp add: leaf_at_def tbl_at_new [OF link] entry_of_link_table)
  next
    case (Some u)
    then have "u \<noteq> t"
      using wf_tree_inj [OF wf at, of q] inner q by auto
    then show ?thesis
      using Some old [OF at] old [OF Some]
      by (simp add: leaf_at_def tbl_at_new [OF link] entry_of_link_table)
  qed
qed

text \<open>Deleting a table and clearing the entry that pointed to it.\<close>

definition cut_table :: "table_heap \<Rightarrow> nat \<Rightarrow> nat \<Rightarrow> nat \<Rightarrow> table_heap" where
  "cut_table hp t i c = put_entry (hp\<lparr>tables := (tables hp)(c := None)\<rparr>) t i BasePDTEntry_new"

lemma entry_of_cut_table:
  assumes "t \<noteq> c"
  shows "entry_of (cut_table hp t i c) u j =
    (if u = c then None
     else if u = t \<and> j = i \<and> entry_of hp t i \<noteq> None then Some BasePDTEntry_new
     else entry_of hp u j)"
  using assms by (auto simp: cut_table_def entry_of_put_entry) (simp_all add: entry_of_def)

lemma cut_table_distinct:
  assumes wf: "wf_tree szs hp root" and at: "tbl_at hp root p = Some t" and c: "child hp t i = Some c"
  shows "t \<noteq> c" "tbl_at hp root (p @ [i]) = Some c" "entry_of hp t i \<noteq> None"
proof -
  show sub: "tbl_at hp root (p @ [i]) = Some c"
    using at c by (simp add: tbl_at_snoc)
  show "t \<noteq> c"
    using wf_tree_inj [OF wf at, of "p @ [i]"] sub by auto
  show "entry_of hp t i \<noteq> None"
    using c by (auto simp: child_def bind_eq_Some_conv)
qed

lemma tbl_at_cut:
  assumes wf: "wf_tree szs hp root" and at: "tbl_at hp root p = Some t" and c: "child hp t i = Some c"
  shows "tbl_at (cut_table hp t i c) root q = (if prefix (p @ [i]) q then None else tbl_at hp root q)"
proof (induction q rule: rev_induct)
  case Nil
  then show ?case by simp
next
  case (snoc j q)
  note d = cut_table_distinct [OF wf at c]
  have cut: "child (cut_table hp t i c) u j =
    (if u = c then None else if u = t \<and> j = i then None else child hp u j)" for u
    using d by (auto simp: child_def entry_of_cut_table)
  show ?case
  proof (cases "prefix (p @ [i]) q")
    case True
    then have "prefix (p @ [i]) (q @ [j])" "tbl_at (cut_table hp t i c) root q = None"
      using snoc by auto
    then show ?thesis by (simp add: tbl_at_snoc)
  next
    case False
    then have IH: "tbl_at (cut_table hp t i c) root q = tbl_at hp root q"
      using snoc by simp
    show ?thesis
    proof (cases "tbl_at hp root q")
      case None
      then show ?thesis using IH by (simp add: tbl_at_snoc)
    next
      case (Some u)
      have "u \<noteq> c"
        using wf_tree_inj [OF wf Some, of "p @ [i]"] d(2) False by auto
      moreover have "u = t \<longleftrightarrow> q = p"
        using wf_tree_inj [OF wf at, of q] Some at by auto
      ultimately show ?thesis
        using Some IH False by (simp add: tbl_at_snoc cut)
    qed
  qed
qed

lemma wf_cut:
  assumes wf: "wf_tree szs hp root" and at: "tbl_at hp root p = Some t" and c: "child hp t i = Some c"
  shows "wf_tree szs (cut_table hp t i c) root"
proof (rule wf_treeI)
  note d = cut_table_distinct [OF wf at c] and cut = tbl_at_cut [OF wf at c]
  show "length q < length szs \<and>
      level_ok (szs ! length q) (Suc (length q) < length szs) (cut_table hp t i c) u"
    if "tbl_at (cut_table hp t i c) root q = Some u" for q u
  proof -
    have u: "tbl_at hp root q = Some u" and no: "\<not> prefix (p @ [i]) q"
      using that by (auto simp: cut split: if_splits)
    have "u \<noteq> c"
      using wf_tree_inj [OF wf u, of "p @ [i]"] d(2) no by auto
    then have "level_ok (szs ! length q) (Suc (length q) < length szs)
        (hp\<lparr>tables := (tables hp)(c := None)\<rparr>) u"
      using wf_tree_level [OF wf u] by (simp add: level_ok_def)
    then show ?thesis
      using wf_tree_level [OF wf u] by (simp add: cut_table_def level_ok_put_entry)
  qed
  show "q = r"
    if "tbl_at (cut_table hp t i c) root q = Some u" "tbl_at (cut_table hp t i c) root r = Some u" for q r u
    using that wf_tree_inj [OF wf, of q u r] by (simp add: cut split: if_splits)
  show "tables (cut_table hp t i c) u = None" if "next_table (cut_table hp t i c) \<le> u" for u
    using that wf_tree_fresh [OF wf, of u] by (simp add: cut_table_def)
qed

lemma leaf_cut:
  assumes wf: "wf_tree szs hp root" and at: "tbl_at hp root p = Some t" and c: "child hp t i = Some c"
    and q: "Suc (length q) = length szs"
  shows "leaf_at (cut_table hp t i c) root (q, j) =
    (if prefix (p @ [i]) q then None else leaf_at hp root (q, j))"
proof (cases "prefix (p @ [i]) q \<or> tbl_at hp root q = None")
  case True
  then show ?thesis by (auto simp: leaf_at_def tbl_at_cut [OF wf at c])
next
  case False
  then obtain u where u: "tbl_at hp root q = Some u" by auto
  note d = cut_table_distinct [OF wf at c]
  have "u \<noteq> c"
    using wf_tree_inj [OF wf u, of "p @ [i]"] d(2) False by auto
  moreover have "u \<noteq> t"
    using wf_tree_inj [OF wf at, of q] u q wf_tree_level [OF wf d(2)] by auto
  ultimately show ?thesis
    using u False d(1) by (simp add: leaf_at_def tbl_at_cut [OF wf at c] entry_of_cut_table)
qed

section \<open>The code's operations as changes of the tree\<close>

lemma pte_bit_exp:
  "P_bit = 2 ^ 0" "RW_bit = 2 ^ 1" "PERMISSION_bit = 2 ^ 2" "PWT_bit = 2 ^ 3" "PCD_bit = 2 ^ 4"
  "A_bit = 2 ^ 5" "D_bit = 2 ^ 6" "PS_bit = 2 ^ 7" "G_bit = 2 ^ 8" "PBUFFER_bit = 2 ^ 9"
  by (simp_all add: pte_bit_defs)

lemma flag_bit: "x AND 2 ^ k \<noteq> 0 \<longleftrightarrow> bit (x :: u32) k"
  by (simp add: and_exp_eq_0_iff_not_bit)

lemma pte_flags:
  "pte_is_present e \<longleftrightarrow> bit (entry_bits e) 0"
  "read_only e \<longleftrightarrow> \<not> bit (entry_bits e) 1"
  "can_write e \<longleftrightarrow> \<not> bit (entry_bits e) 1"
  "user_can_access e \<longleftrightarrow> bit (entry_bits e) 2"
  "pte_is_dirty e \<longleftrightarrow> bit (entry_bits e) 6"
  "is_largepage e \<longleftrightarrow> bit (entry_bits e) 7"
  "point_buffer_page e \<longleftrightarrow> bit (entry_bits e) 9"
  unfolding pte_is_present_def read_only_def can_write_def user_can_access_def pte_is_dirty_def
    is_largepage_def point_buffer_page_def pte_bit_exp flag_bit
  by simp_all

lemmas pte_update_defs =
  validate_def set_buffer_def set_bits_def clear_bits_def pte_set_dirty_def

lemma validate_simps [simp]:
  "next_level_ptr (validate p b e) = p"
  "pte_is_present (validate p b e)"
  "point_buffer_page (validate p b e) = b"
  unfolding pte_flags pte_update_defs pte_bit_exp by (simp_all add: bit_simps)

lemma pte_set_dirty_simps [simp]:
  "next_level_ptr (pte_set_dirty e) = next_level_ptr e"
  "pte_is_present (pte_set_dirty e) = pte_is_present e"
  "point_buffer_page (pte_set_dirty e) = point_buffer_page e"
  "pte_is_dirty (pte_set_dirty e)"
  unfolding pte_flags pte_update_defs pte_bit_exp by (simp_all add: bit_simps)

lemma entry_ok_set_dirty [simp]: "entry_ok inner (pte_set_dirty e) = entry_ok inner e"
  by (cases "next_level_ptr e") (simp_all add: entry_ok_def)

lemma set_buffer_validate [simp]: "set_buffer False (validate p False e) = validate p False e"
  by (simp add: pte_update_defs and.assoc)

lemma validate_entry_eq [simp]:
  assumes "entry_of hp t (unat i) = Some e"
  shows "validate_entry hp t i p b = Inr (put_entry hp t (unat i) (validate p b e))"
  using assms by (simp add: validate_entry_def entry_of_put_entry)

lemma pte_invalidate_page_eq: "pte_is_present e \<Longrightarrow> pte_invalidate_page e = Inr BasePDTEntry_new"
  by (simp add: pte_invalidate_page_def BasePDTEntry_new_def set_user_def set_read_write_def
      set_bits_def or.commute)

lemma invalidate_page_eq [simp]:
  assumes "entry_of hp t (unat i) = Some e"
  shows "invalidate_page hp t i =
    Inr (if pte_is_present e then put_entry hp t (unat i) BasePDTEntry_new else hp)"
  using assms by (simp add: invalidate_page_def pte_invalidate_page_eq)

lemma invalidate_entry_eq [simp]:
  assumes e: "entry_of hp t (unat i) = Some e" and "pte_is_present e"
    and "next_level_ptr e = TablePtr c" and "t \<noteq> c"
  shows "invalidate_entry hp t i = Inr (cut_table hp t (unat i) c)"
proof -
  have "entry_of (hp\<lparr>tables := (tables hp)(c := None)\<rparr>) t (unat i) = Some e"
    using assms by (simp add: entry_of_def)
  then show ?thesis
    using assms
    by (cases e) (simp add: invalidate_entry_def as_table_def entry_of_put_entry pte_set_next_level_address_def
        pte_is_present_def cut_table_def BasePDTEntry_new_def set_user_def set_read_write_def
        set_bits_def or.commute)
qed

text \<open>Following the pointer of an inner entry.\<close>

lemma inner_next:
  assumes "wf_tree szs hp root" "tbl_at hp root p = Some t" "Suc (length p) < length szs"
    and "i < szs ! length p"
  obtains e where "entry_of hp t i = Some e" "child hp t i = None" "next_level_ptr e = NullPtr"
      "\<not> pte_is_present e"
    | e c where "entry_of hp t i = Some e" "child hp t i = Some c" "next_level_ptr e = TablePtr c"
      "pte_is_present e" "tbl_at hp root (p @ [i]) = Some c"
proof -
  obtain e where e: "entry_of hp t i = Some e" "entry_ok True e"
    using wf_tree_entry [OF assms(1,2,4)] assms(3) by auto
  show thesis
  proof (cases "next_level_ptr e")
    case NullPtr
    then show thesis using e that(1) by (simp add: child_def entry_ok_def)
  next
    case (TablePtr c)
    then show thesis using e assms(2) that(2) by (simp add: child_def entry_ok_def tbl_at_snoc)
  qed (use e in \<open>simp_all add: entry_ok_def\<close>)
qed

text \<open>\<open>new PageTable\<close> followed by \<open>validate_entry\<close>, the allocation step of every level.\<close>

definition link_new :: "nat list \<Rightarrow> table_heap \<Rightarrow> nat list \<Rightarrow> nat \<Rightarrow> u32 \<Rightarrow> table_heap" where
  "link_new szs hp p t i =
     link_table (szs ! Suc (length p)) hp t (unat i)
       (validate (TablePtr (next_table hp)) False (the (entry_of hp t (unat i))))"

lemma link_new_code:
  assumes "wf_tree szs hp root" "tbl_at hp root p = Some t" "Suc (length p) < length szs"
    and "unat i < szs ! length p"
  shows "validate_entry (new_table (szs ! Suc (length p)) hp) t i (TablePtr (next_table hp)) False =
    Inr (link_new szs hp p t i)"
proof -
  obtain e where "entry_of hp t (unat i) = Some e"
    using wf_tree_entry [OF assms(1,2,4)] by auto
  then have "entry_of (new_table (szs ! Suc (length p)) hp) t (unat i) = Some e"
    using reached_old [OF assms(1,2)] by (simp add: entry_of_new_table)
  with \<open>entry_of hp t (unat i) = Some e\<close> show ?thesis
    by (simp add: link_new_def link_table_def)
qed

lemma link_new_can_link:
  assumes "wf_tree szs hp root" "tbl_at hp root p = Some t" "Suc (length p) < length szs"
    and "unat i < szs ! length p" and "child hp t (unat i) = None"
  shows "can_link szs hp root p t (unat i)
    (validate (TablePtr (next_table hp)) False (the (entry_of hp t (unat i)))) (szs ! Suc (length p))"
  using assms by (simp add: can_link_def entry_ok_def)

lemma link_new_facts:
  assumes "wf_tree szs hp root" "tbl_at hp root p = Some t" "Suc (length p) < length szs"
    and "unat i < szs ! length p" and "child hp t (unat i) = None"
  shows "wf_tree szs (link_new szs hp p t i) root"
    and "tbl_at (link_new szs hp p t i) root q =
      (if q = p @ [unat i] then Some (next_table hp) else tbl_at hp root q)"
    and "Suc (length q) = length szs \<Longrightarrow> leaf_at (link_new szs hp p t i) root (q, j) =
      (if q = p @ [unat i] then if j < szs ! Suc (length p) then Some BasePDTEntry_new else None
       else leaf_at hp root (q, j))"
  unfolding link_new_def
  by (rule wf_new tbl_at_new leaf_new; (rule link_new_can_link [OF assms])?)+

section \<open>Mapped entries and growing trees\<close>

text \<open>The entry a path leads to, if it is present.\<close>

definition mapped :: "table_heap \<Rightarrow> nat \<Rightarrow> nat list \<times> nat \<Rightarrow> BasePDTEntry option" where
  "mapped hp root pi =
     (case leaf_at hp root pi of None \<Rightarrow> None | Some e \<Rightarrow> if pte_is_present e then Some e else None)"

lemma mapped_put_leaf:
  assumes "wf_tree szs hp root" "tbl_at hp root p = Some t" "Suc (length p) = length szs"
    and "entry_ok False e" and "i < szs ! length p"
  shows "mapped (put_entry hp t i e) root (q, j) =
    (if q = p \<and> j = i then if pte_is_present e then Some e else None else mapped hp root (q, j))"
proof -
  have "entry_of hp t i \<noteq> None"
    using wf_tree_entry [OF assms(1,2,5)] by auto
  moreover have "tbl_at hp root q = Some t \<longleftrightarrow> q = p"
    using wf_tree_inj [OF assms(1,2), of q] assms(2) by blast
  ultimately have "leaf_at (put_entry hp t i e) root (q, j) =
      (if q = p \<and> j = i then Some e else leaf_at hp root (q, j))"
    unfolding leaf_at_def put_leaf(2) [OF assms(1-4)]
    by (cases "tbl_at hp root q") (auto simp: entry_of_put_entry)
  then show ?thesis by (simp add: mapped_def)
qed

text \<open>\<open>hp'\<close> has all tables of \<open>hp\<close> at their places, and maps the same pages.\<close>

definition extends :: "nat list \<Rightarrow> nat \<Rightarrow> table_heap \<Rightarrow> table_heap \<Rightarrow> bool" where
  "extends szs root hp hp' \<longleftrightarrow>
     wf_tree szs hp' root \<and>
     (\<forall>q t. tbl_at hp root q = Some t \<longrightarrow> tbl_at hp' root q = Some t) \<and>
     (\<forall>q j. Suc (length q) = length szs \<longrightarrow> mapped hp' root (q, j) = mapped hp root (q, j))"

lemma extends_refl: "wf_tree szs hp root \<Longrightarrow> extends szs root hp hp"
  by (simp add: extends_def)

lemma extends_trans: "extends szs root a b \<Longrightarrow> extends szs root b c \<Longrightarrow> extends szs root a c"
  by (simp add: extends_def)

lemma extends_link:
  assumes "wf_tree szs hp root" "tbl_at hp root p = Some t" "Suc (length p) < length szs"
    and "unat i < szs ! length p" and "child hp t (unat i) = None"
  shows "extends szs root hp (link_new szs hp p t i)"
proof -
  have none: "tbl_at hp root (p @ [unat i]) = None"
    using assms(2,5) by (simp add: tbl_at_snoc)
  then have "leaf_at hp root (p @ [unat i], j) = None" for j
    by (simp add: leaf_at_def)
  then have "mapped (link_new szs hp p t i) root (q, j) = mapped hp root (q, j)"
    if "Suc (length q) = length szs" for q j
    using that by (simp add: mapped_def link_new_facts(3) [OF assms])
  then show ?thesis
    using none by (auto simp: extends_def link_new_facts(1,2) [OF assms])
qed

text \<open>The number of tables a walk to a path has to allocate.\<close>

fun missing :: "table_heap \<Rightarrow> nat \<Rightarrow> nat list \<Rightarrow> nat" where
  "missing hp t [] = 0"
| "missing hp t (i # p) =
     (case child hp t i of None \<Rightarrow> length (i # p) | Some c \<Rightarrow> missing hp c p)"

lemma missing_new: "(\<And>i. child hp t i = None) \<Longrightarrow> missing hp t q = length q"
  by (cases q) simp_all

text \<open>The number of tables of a level.\<close>

definition level_paths :: "table_heap \<Rightarrow> nat \<Rightarrow> nat \<Rightarrow> nat list set" where
  "level_paths hp root k = {q. length q = k \<and> tbl_at hp root q \<noteq> None}"

definition num_tables :: "table_heap \<Rightarrow> nat \<Rightarrow> nat \<Rightarrow> nat" where
  "num_tables hp root k = card (level_paths hp root k)"

lemma finite_level_paths:
  assumes wf: "wf_tree szs hp root"
  shows "finite (level_paths hp root k)"
proof (rule inj_on_finite)
  show "inj_on (\<lambda>q. the (tbl_at hp root q)) (level_paths hp root k)"
    by (auto simp: inj_on_def level_paths_def intro: wf_tree_inj [OF wf])
  have "t < next_table hp" if "tbl_at hp root q = Some t" for q t
    using wf_tree_level [OF wf that] wf_tree_fresh [OF wf, of t] by (force simp: level_ok_def)
  then show "(\<lambda>q. the (tbl_at hp root q)) ` level_paths hp root k \<subseteq> {..<next_table hp}"
    by (auto simp: level_paths_def)
qed simp

lemma num_tables_link:
  assumes "wf_tree szs hp root" "tbl_at hp root p = Some t" "Suc (length p) < length szs"
    and "unat i < szs ! length p" and "child hp t (unat i) = None"
  shows "num_tables (link_new szs hp p t i) root k =
    num_tables hp root k + (if k = Suc (length p) then 1 else 0)"
proof -
  have "level_paths (link_new szs hp p t i) root k =
    (if k = Suc (length p) then insert (p @ [unat i]) (level_paths hp root k) else level_paths hp root k)"
    by (auto simp: level_paths_def link_new_facts(2) [OF assms])
  moreover have "p @ [unat i] \<notin> level_paths hp root k"
    using assms(2,5) by (simp add: level_paths_def tbl_at_snoc)
  ultimately show ?thesis
    using finite_level_paths [OF assms(1), of k]
    by (cases "k = Suc (length p)") (simp_all add: num_tables_def)
qed

lemma num_tables_put_leaf:
  assumes "wf_tree szs hp root" "tbl_at hp root p = Some t" "Suc (length p) = length szs"
    and "entry_ok False e"
  shows "num_tables (put_entry hp t i e) root k = num_tables hp root k"
  by (simp add: num_tables_def level_paths_def put_leaf(2) [OF assms])

lemma num_tables_cut:
  assumes wf: "wf_tree szs hp root" and at: "tbl_at hp root p = Some t"
    and c: "child hp t i = Some c" and leaf: "\<And>j. child hp c j = None"
  shows "num_tables (cut_table hp t i c) root k =
    num_tables hp root k - (if k = Suc (length p) then 1 else 0)"
proof -
  note d = cut_table_distinct [OF wf at c]
  have "tbl_at hp root q = None" if "prefix (p @ [i]) q" "q \<noteq> p @ [i]" for q
  proof -
    from that obtain r where "q = (p @ [i]) @ r" "r \<noteq> []"
      by (auto simp: prefix_def)
    then obtain j r' where q: "q = (p @ [i]) @ j # r'"
      by (cases r) auto
    show ?thesis
      unfolding q tbl_at_append [of hp root "p @ [i]"] using leaf d(2) by simp
  qed
  then have "level_paths (cut_table hp t i c) root k = level_paths hp root k - {p @ [i]}"
    by (auto simp: level_paths_def tbl_at_cut [OF wf at c])
  moreover have "p @ [i] \<in> level_paths hp root k \<longleftrightarrow> k = Suc (length p)"
    using d(2) by (auto simp: level_paths_def simp del: tbl_at.simps)
  ultimately show ?thesis
    by (simp add: num_tables_def card_Diff_singleton_if)
qed

text \<open>No more tables at the first level than the root has entries.\<close>

lemma level_paths_1:
  assumes wf: "wf_tree szs hp root"
  shows "level_paths hp root 1 \<subseteq> (\<lambda>i. [i]) ` {i. i < szs ! 0 \<and> child hp root i \<noteq> None}"
proof
  fix q assume "q \<in> level_paths hp root 1"
  then obtain i c where q: "q = [i]" and c: "child hp root i = Some c"
    by (auto simp: level_paths_def length_Suc_conv)
  then obtain e where "entry_of hp root i = Some e"
    by (auto simp: child_def bind_eq_Some_conv)
  then have "i < szs ! 0"
    using wf_tree_entry_range(1) [OF wf, of "[]" root i e] by simp
  then show "q \<in> (\<lambda>i. [i]) ` {i. i < szs ! 0 \<and> child hp root i \<noteq> None}"
    using q c by simp
qed

lemma num_tables_1:
  assumes wf: "wf_tree szs hp root"
  shows "num_tables hp root 1 \<le> szs ! 0"
    and "\<lbrakk>i < szs ! 0; child hp root i = None\<rbrakk> \<Longrightarrow> num_tables hp root 1 < szs ! 0"
proof -
  let ?used = "{i. i < szs ! 0 \<and> child hp root i \<noteq> None}"
  have le: "num_tables hp root 1 \<le> card ?used"
    unfolding num_tables_def by (rule surj_card_le [OF _ level_paths_1 [OF wf]]) simp
  have sub: "?used \<subseteq> {..<szs ! 0}"
    by blast
  show "num_tables hp root 1 \<le> szs ! 0"
    using le card_mono [OF finite_lessThan sub] by (simp only: card_lessThan)
  assume "i < szs ! 0" "child hp root i = None"
  then have "?used \<noteq> {..<szs ! 0}"
    by blast
  then have "card ?used < card {..<szs ! 0}"
    using sub by (intro psubset_card_mono psubsetI) simp_all
  then show "num_tables hp root 1 < szs ! 0"
    using le by (simp only: card_lessThan)
qed

lemma num_tables_pos:
  assumes "wf_tree szs hp root" "tbl_at hp root q = Some t"
  shows "0 < num_tables hp root (length q)"
proof -
  have "q \<in> level_paths hp root (length q)"
    using assms(2) by (simp add: level_paths_def)
  then show ?thesis
    using finite_level_paths [OF assms(1)] unfolding num_tables_def by (metis card_gt_0_iff empty_iff)
qed

lemma tbl_at_prefix_None: "tbl_at hp root s = None \<Longrightarrow> prefix s r \<Longrightarrow> tbl_at hp root r = None"
  by (auto simp: prefix_def tbl_at_append)

text \<open>Every table of the store is reachable from the root: nothing is leaked.\<close>

definition no_garbage :: "table_heap \<Rightarrow> nat \<Rightarrow> bool" where
  "no_garbage hp root \<longleftrightarrow> (\<forall>t. tables hp t \<noteq> None \<longrightarrow> (\<exists>q. tbl_at hp root q = Some t))"

lemma no_garbage_cut:
  assumes wf: "wf_tree szs hp root" and at: "tbl_at hp root q = Some t" and c: "child hp t i = Some c"
    and leaf: "\<And>j. child hp c j = None" and ng: "no_garbage hp root"
  shows "no_garbage (cut_table hp t i c) root"
  unfolding no_garbage_def
proof (intro allI impI)
  fix u assume u: "tables (cut_table hp t i c) u \<noteq> None"
  then have "u \<noteq> c" "tables hp u \<noteq> None"
    by (auto simp: cut_table_def split: if_splits)
  then obtain r where r: "tbl_at hp root r = Some u"
    using ng by (auto simp: no_garbage_def)
  have "\<not> prefix (q @ [i]) r"
  proof
    assume "prefix (q @ [i]) r"
    then obtain s where s: "r = (q @ [i]) @ s" by (auto simp: prefix_def)
    then show False
      using r \<open>u \<noteq> c\<close> leaf cut_table_distinct(2) [OF wf at c]
      unfolding s tbl_at_append [of hp root "q @ [i]"] by (cases s) auto
  qed
  then show "\<exists>r. tbl_at (cut_table hp t i c) root r = Some u"
    using r tbl_at_cut [OF wf at c, of r] by auto
qed

lemma no_garbage_put_entry:
  "no_garbage hp root \<Longrightarrow> tbl_at (put_entry hp t i e) = tbl_at hp \<Longrightarrow> no_garbage (put_entry hp t i e) root"
  by (simp add: no_garbage_def)

lemma no_garbage_link:
  assumes "wf_tree szs hp root" "tbl_at hp root p = Some t" "Suc (length p) < length szs"
    and "unat i < szs ! length p" and "child hp t (unat i) = None" and ng: "no_garbage hp root"
  shows "no_garbage (link_new szs hp p t i) root"
  unfolding no_garbage_def
proof (intro allI impI)
  fix u assume "tables (link_new szs hp p t i) u \<noteq> None"
  then have "u = next_table hp \<or> tables hp u \<noteq> None"
    by (auto simp: link_new_def link_table_def new_table_def put_entry_def split: if_splits)
  then show "\<exists>q. tbl_at (link_new szs hp p t i) root q = Some u"
  proof
    assume "u = next_table hp"
    then show ?thesis using link_new_facts(2) [OF assms(1-5), of "p @ [unat i]"] by auto
  next
    assume "tables hp u \<noteq> None"
    then obtain q where "tbl_at hp root q = Some u" using ng by (auto simp: no_garbage_def)
    moreover have "tbl_at hp root (p @ [unat i]) = None" using assms(2,5) by (simp add: tbl_at_snoc)
    ultimately show ?thesis
      using link_new_facts(2) [OF assms(1-5), of q] by (intro exI [of _ q]) auto
  qed
qed

text \<open>The tree of a new root table.\<close>

lemma wf_tree_single:
  assumes "PageTable_new n empty_heap = Inr (root, hp)" "szs \<noteq> []" "n = szs ! 0"
  shows "wf_tree szs hp root" "tbl_at hp root q = (if q = [] then Some root else None)"
    "mapped hp root (q, j) = None" "no_garbage hp root"
proof -
  have hp: "root = 0" "hp = new_table n empty_heap" "0 < n"
    using assms(1) by (auto simp: PageTable_new_def new_table_def empty_heap_def assertE_def split: if_splits)
  have entry: "entry_of hp t i = (if t = 0 \<and> i < n then Some BasePDTEntry_new else None)" for t i
    by (simp add: hp entry_of_new_table) (simp add: empty_heap_def entry_of_def)
  then have child: "child hp t i = None" for t i
    by (simp add: child_def)
  show at: "tbl_at hp root q = (if q = [] then Some root else None)" for q
    by (cases q) (simp_all add: child)
  show "mapped hp root (q, j) = None"
    by (simp add: mapped_def leaf_at_def at entry)
  show "no_garbage hp root"
    unfolding no_garbage_def
  proof (intro allI impI)
    fix t assume "tables hp t \<noteq> None"
    then have "t = root" by (simp add: hp new_table_def empty_heap_def split: if_splits)
    then show "\<exists>q. tbl_at hp root q = Some t" by (auto intro: exI [of _ "[]"])
  qed
  have lvl: "level_ok (szs ! 0) inner hp root" for inner
    using assms(3) by (simp add: level_ok_def hp new_table_def empty_heap_def)
  show "wf_tree szs hp root"
  proof (rule wf_treeI)
    show "tables hp t = None" if "next_table hp \<le> t" for t
      using that by (simp add: hp new_table_def empty_heap_def)
  qed (use assms(2) in \<open>auto simp: at lvl split: if_splits\<close>)
qed

lemma num_tables_single:
  assumes "PageTable_new n empty_heap = Inr (root, hp)" "0 < k"
  shows "num_tables hp root k = 0"
proof -
  have "n = [n] ! 0" by simp
  from wf_tree_single(2) [OF assms(1) _ this]
  have "level_paths hp root k = {}"
    using assms(2) by (auto simp: level_paths_def split: if_splits)
  then show ?thesis by (simp add: num_tables_def)
qed

lemma child_entry:
  assumes "child hp t i = Some c"
  obtains e where "entry_of hp t i = Some e" "next_level_ptr e = TablePtr c"
proof -
  obtain e where "entry_of hp t i = Some e" "table_of (next_level_ptr e) = Some c"
    using assms by (auto simp: child_def bind_eq_Some_conv)
  then show thesis using that by (cases "next_level_ptr e") auto
qed

lemma child_link_new:
  assumes "wf_tree szs hp root" "tbl_at hp root q = Some t" "Suc (length q) < length szs"
    and "unat i < szs ! length q" and "child hp t (unat i) = None"
  shows "child (link_new szs hp q t i) t (unat i) = Some (next_table hp)"
    and "child (link_new szs hp q t i) (next_table hp) j = None"
  using child_new [OF link_new_can_link [OF assms]] reached_old [OF assms(1,2)]
  by (simp_all add: link_new_def)

section \<open>Page numbers as paths\<close>

text \<open>The last \<open>k\<close> digits of a number in base \<open>b\<close>, most significant first.\<close>

fun digits :: "nat \<Rightarrow> nat \<Rightarrow> nat \<Rightarrow> nat list" where
  "digits b 0 n = []"
| "digits b (Suc k) n = digits b k (n div b) @ [n mod b]"

lemma length_digits [simp]: "length (digits b k n) = k"
  by (induction k arbitrary: n) simp_all

lemma digits_numerals:
  "digits b 1 n = [n mod b]"
  "digits b 2 n = [n div b mod b, n mod b]"
  "digits b 3 n = [n div b div b mod b, n div b mod b, n mod b]"
  by (simp_all add: numeral_3_eq_3 numeral_2_eq_2)

lemma digits_less: "0 < b \<Longrightarrow> i \<in> set (digits b k n) \<Longrightarrow> i < b"
  by (induction k arbitrary: n) auto

lemma digits_eq_iff:
  assumes "0 < b"
  shows "digits b k m = digits b k n \<longleftrightarrow> m mod b ^ k = n mod b ^ k"
proof (induction k arbitrary: m n)
  case (Suc k)
  have split: "x mod b ^ Suc k = b * (x div b mod b ^ k) + x mod b" for x
    by (simp add: mod_mult2_eq)
  have key: "b * u + m mod b = b * v + n mod b \<longleftrightarrow> u = v \<and> m mod b = n mod b" for u v
  proof
    assume eq: "b * u + m mod b = b * v + n mod b"
    have "(b * u + m mod b) div b = u" "(b * v + n mod b) div b = v"
      using assms by simp_all
    with eq have "u = v" by metis
    with eq show "u = v \<and> m mod b = n mod b" by simp
  qed simp
  have "digits b (Suc k) m = digits b (Suc k) n \<longleftrightarrow>
      m div b mod b ^ k = n div b mod b ^ k \<and> m mod b = n mod b"
    using Suc by simp
  also have "\<dots> \<longleftrightarrow> m mod b ^ Suc k = n mod b ^ Suc k"
    unfolding split by (rule key [symmetric])
  finally show ?case .
qed simp

end
