(* ===== verification/Paging_Interface.thy ===== *)
theory Paging_Interface
  imports Page_Tree
begin

text \<open>
  What the three paging classes share (\<open>page-table/page_table.cpp\<close>) and the contract of
  \<open>class BasePaging\<close> (\<open>memory_hierarchy.h\<close>) as a locale: a paging object stands for a
  partial map from virtual page numbers to pages and cache blocks, \<open>map_page_table\<close>
  updates it, \<open>access\<close> looks it up. The facts a client needs are proved in the locale; each
  paging class is an interpretation of it.
\<close>

section \<open>Shared code\<close>

text \<open>The last step of \<open>map_page_table\<close>: fill the entry and report it if it was not valid.\<close>

definition map_entry ::
  "table_heap \<Rightarrow> nat \<Rightarrow> u32 \<Rightarrow> void_ptr \<Rightarrow> bool \<Rightarrow> ((nat \<times> u32) option \<times> table_heap) res" where
  "map_entry hp table i pg_ptr pbuffer =
     bindE (is_valid hp table i) (\<lambda>v.
     bindE (validate_entry hp table i pg_ptr pbuffer) (\<lambda>hp.
     Inr (if \<not> v then Some (table, i) else None, hp)))"

text \<open>
  The end of \<open>access\<close> is the same in the three paging classes: the kind of the request
  selects the side effects of \<open>get_block_id\<close>.
\<close>

definition finish_access ::
  "GlobSimInfo \<Rightarrow> mem_objs \<Rightarrow> table_heap \<Rightarrow> MemReq \<Rightarrow> nat option \<Rightarrow> void_ptr \<Rightarrow> u32 \<Rightarrow> bool \<Rightarrow>
   (address \<times> MemReq \<times> table_heap \<times> mem_objs) res" where
  "finish_access z os hp req pgt ptr pg_id pbuffer =
     get_block_id z os hp req pgt ptr pg_id pbuffer (type_of req = SETDIRTY)
       (type_of req = WRITEBACK) (if type_of req = WRITEBACK then childId req else 0)"

section \<open>Objects of leaf entries\<close>

definition ptr_ok :: "void_ptr \<Rightarrow> bool \<Rightarrow> bool" where
  "ptr_ok ptr pbuffer \<longleftrightarrow>
     (case ptr of PagePtr _ \<Rightarrow> \<not> pbuffer | BlockPtr _ \<Rightarrow> pbuffer | _ \<Rightarrow> False)"

lemma entry_ok_validate: "ptr_ok ptr b \<Longrightarrow> entry_ok False (validate ptr b e)"
  by (auto simp: ptr_ok_def entry_ok_def split: void_ptr.splits)

text \<open>The page number of the object a leaf entry points to.\<close>

definition obj_addr :: "GlobSimInfo \<Rightarrow> mem_objs \<Rightarrow> void_ptr \<Rightarrow> address option" where
  "obj_addr z os ptr =
     (case ptr of
        PagePtr n \<Rightarrow> map_option pageNo (obj_pages os n)
      | BlockPtr n \<Rightarrow>
          map_option (\<lambda>b. drop_bit (page_shift z) (block_id_to_addr z (block_id b))) (obj_blocks os n)
      | _ \<Rightarrow> None)"

lemma obj_addr_put_block:
  assumes "obj_blocks os n = Some b" "block_id b' = block_id b"
  shows "obj_addr z (put_block os (BlockPtr n) b') = obj_addr z os"
  using assms by (intro ext) (simp add: obj_addr_def split: void_ptr.splits)

lemma obj_addr_put_page:
  assumes "obj_pages os n = Some pg" "pageNo pg' = pageNo pg"
  shows "obj_addr z (put_page os (PagePtr n) pg') = obj_addr z os"
  using assms by (intro ext) (simp add: obj_addr_def split: void_ptr.splits)

text \<open>
  The end of an access returns that number; it marks at most the entry and the block dirty
  or stores the counter of the page, so no translation changes.
\<close>

lemma finish_access_ok:
  assumes e: "entry_of hp t (unat i) = Some e" "entry_ok False e"
    and obj: "obj_addr z os (next_level_ptr e) = Some ppn"
  obtains req' e' os' where
    "finish_access z os hp req (Some t) (next_level_ptr e) i (point_buffer_page e) =
       Inr (ppn, req', put_entry hp t (unat i) e', os')"
    "e' = e \<or> e' = pte_set_dirty e" "obj_addr z os' = obj_addr z os"
    "lineAddr req' = lineAddr req" "cycle req' = cycle req"
proof (cases "next_level_ptr e")
  case (PagePtr n)
  then obtain pg where pg: "obj_pages os n = Some pg" "ppn = pageNo pg" "\<not> point_buffer_page e"
    using obj e(2) by (auto simp: obj_addr_def entry_ok_def)
  define pg' where "pg' = (if type_of req = WRITEBACK then set_overlap pg (childId req) else pg)"
  have fin: "finish_access z os hp req (Some t) (next_level_ptr e) i (point_buffer_page e) =
      Inr (ppn, req\<lparr>childId := get_overlap pg'\<rparr>, put_entry hp t (unat i) e, put_page os (PagePtr n) pg')"
    using PagePtr pg e(1)
    by (simp add: finish_access_def get_block_id_def as_page_def pg'_def Let_def put_entry_same
        set_overlap_def get_overlap_def)
  have obj': "obj_addr z (put_page os (PagePtr n) pg') = obj_addr z os"
    by (rule obj_addr_put_page [OF pg(1)]) (simp add: pg'_def set_overlap_def)
  show thesis by (rule that [OF fin _ obj']) simp_all
next
  case (BlockPtr n)
  then obtain b where b: "obj_blocks os n = Some b" "point_buffer_page e"
      "ppn = drop_bit (page_shift z) (block_id_to_addr z (block_id b))"
    using obj e(2) by (auto simp: obj_addr_def entry_ok_def)
  define b' where "b' = (if type_of req = SETDIRTY then block_set_dirty b else b)"
  define e' where "e' = (if type_of req = SETDIRTY then pte_set_dirty e else e)"
  have fin: "finish_access z os hp req (Some t) (next_level_ptr e) i (point_buffer_page e) =
      Inr (ppn, req\<lparr>childId := (if block_is_dirty b' then 1 else 0)\<rparr>,
        put_entry hp t (unat i) e', put_block os (BlockPtr n) b')"
    using BlockPtr b e(1)
    by (simp add: finish_access_def get_block_id_def as_block_def b'_def e'_def put_entry_same
        block_set_dirty_def)
  have obj': "obj_addr z (put_block os (BlockPtr n) b') = obj_addr z os"
    by (rule obj_addr_put_block [OF b(1)]) (simp add: b'_def block_set_dirty_def)
  show thesis by (rule that [OF fin _ obj']) (simp_all add: e'_def)
qed (use obj in \<open>simp_all add: obj_addr_def\<close>)

section \<open>The map of a tree\<close>

text \<open>
  The map that a tree implements, for a class that sends each page number below \<open>n\<close> to its
  own path.
\<close>

definition tree_abs ::
  "nat \<Rightarrow> (nat \<Rightarrow> nat list \<times> nat) \<Rightarrow> table_heap \<Rightarrow> nat \<Rightarrow> nat \<Rightarrow> void_ptr option" where
  "tree_abs n path hp root v =
     (if v < n then map_option next_level_ptr (mapped hp root (path v)) else None)"

definition path_fun :: "nat list \<Rightarrow> nat \<Rightarrow> (nat \<Rightarrow> nat list \<times> nat) \<Rightarrow> bool" where
  "path_fun szs n path \<longleftrightarrow>
     inj_on path {..<n} \<and>
     (\<forall>v < n. Suc (length (fst (path v))) = length szs \<and> snd (path v) < szs ! length (fst (path v)))"

lemma tree_abs_put_leaf:
  assumes wf: "wf_tree szs hp root" and pf: "path_fun szs n path" and v: "v < n" "path v = (q, i)"
    and at: "tbl_at hp root q = Some t" and e: "entry_ok False e"
  shows "tree_abs n path (put_entry hp t i e) root =
    (tree_abs n path hp root)(v := if pte_is_present e then Some (next_level_ptr e) else None)"
proof
  fix w
  have q: "Suc (length q) = length szs" "i < szs ! length q"
    using pf v by (auto simp: path_fun_def)
  show "tree_abs n path (put_entry hp t i e) root w =
    ((tree_abs n path hp root)(v := if pte_is_present e then Some (next_level_ptr e) else None)) w"
  proof (cases "w < n")
    case True
    obtain r j where w: "path w = (r, j)" by fastforce
    have "r = q \<and> j = i \<longleftrightarrow> w = v"
      using pf v w True by (auto simp: path_fun_def inj_on_def)
    then show ?thesis
      using True w by (simp add: tree_abs_def mapped_put_leaf [OF wf at q(1) e q(2)])
  next
    case False
    then show ?thesis using v by (auto simp: tree_abs_def)
  qed
qed

lemma tree_abs_extends:
  assumes "extends szs root hp hp'" "path_fun szs n path"
  shows "tree_abs n path hp' root = tree_abs n path hp root"
proof
  fix v
  obtain q j where "path v = (q, j)" by fastforce
  then show "tree_abs n path hp' root v = tree_abs n path hp root v"
    using assms by (auto simp: tree_abs_def extends_def path_fun_def)
qed

lemma tree_abs_table:
  assumes "v < n" "path v = (q, i)" "tbl_at hp root q = Some t" "entry_of hp t i = Some e"
  shows "tree_abs n path hp root v = (if pte_is_present e then Some (next_level_ptr e) else None)"
  using assms by (simp add: tree_abs_def mapped_def leaf_at_def)

lemma tree_abs_no_table:
  assumes "path v = (q, i)" "tbl_at hp root q = None"
  shows "tree_abs n path hp root v = None"
  using assms by (simp add: tree_abs_def mapped_def leaf_at_def)

lemma tree_abs_SomeE:
  assumes "tree_abs n path hp root v = Some ptr" "path v = (q, i)"
  obtains t e where "v < n" "tbl_at hp root q = Some t" "entry_of hp t i = Some e" "pte_is_present e"
    "next_level_ptr e = ptr"
  using assms
  by (auto simp: tree_abs_def mapped_def leaf_at_def bind_eq_Some_conv split: if_splits option.splits)

text \<open>The last step of \<open>map_page_table\<close>, on the tree.\<close>

lemma map_entry_ok:
  assumes wf: "wf_tree szs hp root" and pf: "path_fun szs n path" and v: "v < n" "path v = (q, unat i)"
    and at: "tbl_at hp root q = Some t" and ptr: "ptr_ok ptr b"
  obtains m e where "map_entry hp t i ptr b = Inr (m, put_entry hp t (unat i) e)" "entry_ok False e"
    "wf_tree szs (put_entry hp t (unat i) e) root"
    "num_tables (put_entry hp t (unat i) e) root k = num_tables hp root k"
    "tree_abs n path (put_entry hp t (unat i) e) root = (tree_abs n path hp root)(v \<mapsto> ptr)"
    "m = None \<longleftrightarrow> tree_abs n path hp root v \<noteq> None"
proof -
  have q: "Suc (length q) = length szs" "unat i < szs ! length q"
    using pf v by (auto simp: path_fun_def)
  obtain e where e: "entry_of hp t (unat i) = Some e"
    by (rule wf_tree_entry [OF wf at q(2)])
  let ?e = "validate ptr b e"
  have ok: "entry_ok False ?e"
    by (rule entry_ok_validate [OF ptr])
  show thesis
  proof (rule that [of "if pte_is_present e then None else Some (t, i)" ?e])
    show "map_entry hp t i ptr b =
        Inr (if pte_is_present e then None else Some (t, i), put_entry hp t (unat i) ?e)"
      using e by (simp add: map_entry_def)
    show "wf_tree szs (put_entry hp t (unat i) ?e) root"
      by (rule put_leaf(1) [OF wf at q(1) ok])
    show "num_tables (put_entry hp t (unat i) ?e) root k = num_tables hp root k"
      by (rule num_tables_put_leaf [OF wf at q(1) ok])
    show "tree_abs n path (put_entry hp t (unat i) ?e) root = (tree_abs n path hp root)(v \<mapsto> ptr)"
      using tree_abs_put_leaf [OF wf pf v at ok] by simp
    show "(if pte_is_present e then None else Some (t, i)) = None \<longleftrightarrow> tree_abs n path hp root v \<noteq> None"
      using tree_abs_table [where path = path, OF v at e] by simp
  qed (rule ok)
qed

text \<open>The end of an access, on the tree.\<close>

lemma finish_access_tree:
  assumes wf: "wf_tree szs hp root" and pf: "path_fun szs n path" and v: "v < n" "path v = (q, unat i)"
    and at: "tbl_at hp root q = Some t" and e: "entry_of hp t (unat i) = Some e" "pte_is_present e"
    and obj: "obj_addr z os (next_level_ptr e) = Some ppn"
  obtains req' hp' os' where
    "finish_access z os hp req (Some t) (next_level_ptr e) i (point_buffer_page e) = Inr (ppn, req', hp', os')"
    "wf_tree szs hp' root" "\<And>k. num_tables hp' root k = num_tables hp root k"
    "tree_abs n path hp' root = tree_abs n path hp root"
    "obj_addr z os' = obj_addr z os" "lineAddr req' = lineAddr req" "cycle req' = cycle req"
proof -
  have q: "Suc (length q) = length szs"
    using pf v by (auto simp: path_fun_def)
  have ok: "entry_ok False e"
    using wf_tree_entry_range(2) [OF wf at e(1)] q by simp
  obtain req' e' os' where fin:
    "finish_access z os hp req (Some t) (next_level_ptr e) i (point_buffer_page e) =
       Inr (ppn, req', put_entry hp t (unat i) e', os')"
    and e': "e' = e \<or> e' = pte_set_dirty e" and os': "obj_addr z os' = obj_addr z os"
    and req': "lineAddr req' = lineAddr req" "cycle req' = cycle req"
    by (rule finish_access_ok [OF e(1) ok obj])
  have ok': "entry_ok False e'" and e'_simps: "pte_is_present e'" "next_level_ptr e' = next_level_ptr e"
    using ok e e' by auto
  have "(tree_abs n path hp root)(v \<mapsto> next_level_ptr e) = tree_abs n path hp root"
    using tree_abs_table [where path = path, OF v at e(1)] e(2) by (simp add: fun_upd_idem)
  then have "tree_abs n path (put_entry hp t (unat i) e') root = tree_abs n path hp root"
    using tree_abs_put_leaf [OF wf pf v at ok'] e'_simps by simp
  then show thesis
    using that [OF fin put_leaf(1) [OF wf at q ok'] num_tables_put_leaf [OF wf at q ok']] os' req' by blast
qed

section \<open>Examples\<close>

text \<open>Objects and requests for examples.\<close>

definition example_objs :: mem_objs where
  "example_objs = \<lparr>obj_pages = (\<lambda>n. Some \<lparr>page_count = 0, pageNo = n, map_count = -1,
       page_zone = ZonePtr Zone_DMA, page_node = 0, next_page = None, overlap = 0, page_private = 0\<rparr>),
     obj_blocks = (\<lambda>n. Some \<lparr>block_flag = 0, hotness = 0, max_queue = 0, block_id = n,
       original_addr = 0, block_vaddr = 0\<rparr>)\<rparr>"

definition example_req :: "address \<Rightarrow> MemReq" where
  "example_req addr = \<lparr>lineAddr = addr, type_of = GETS, childId = 0, cycle = 1000\<rparr>"

section \<open>The contract of a paging class\<close>

text \<open>
  \<open>pinv\<close> is the invariant of the class, \<open>proom\<close> the condition under which it can allocate
  a table, \<open>pvpn\<close> the page number of an address and \<open>pabs\<close> the map it implements.
\<close>

locale base_paging =
  fixes pinv :: "'p \<Rightarrow> bool" and proom :: "'p \<Rightarrow> bool"
    and pvpn :: "'p \<Rightarrow> address \<Rightarrow> nat" and pabs :: "'p \<Rightarrow> nat \<Rightarrow> void_ptr option"
    and pmap :: "GlobSimInfo \<Rightarrow> 'p \<Rightarrow> address \<Rightarrow> void_ptr \<Rightarrow> bool \<Rightarrow> (u32 \<times> (nat \<times> u32) option \<times> 'p) res"
    and paccess :: "GlobSimInfo \<Rightarrow> 'p \<Rightarrow> mem_objs \<Rightarrow> MemReq \<Rightarrow> (address \<times> MemReq \<times> 'p \<times> mem_objs) res"
  assumes map_law: "\<lbrakk>pinv p; proom p; ptr_ok ptr b\<rbrakk> \<Longrightarrow>
      \<exists>lat m p'. pmap z p a ptr b = Inr (lat, m, p') \<and> pinv p' \<and> pvpn p' = pvpn p \<and>
        pabs p' = (pabs p)(pvpn p a \<mapsto> ptr) \<and> (m = None \<longleftrightarrow> pabs p (pvpn p a) \<noteq> None)"
    and hit_law: "\<lbrakk>pinv p; pabs p (pvpn p (lineAddr req)) = Some ptr; obj_addr z os ptr = Some ppn;
        type_of req \<noteq> SETDIRTY\<rbrakk> \<Longrightarrow>
      \<exists>req' p' os'. paccess z p os req = Inr (ppn, req', p', os') \<and> pinv p' \<and> pvpn p' = pvpn p \<and>
        pabs p' = pabs p \<and> obj_addr z os' = obj_addr z os \<and> lineAddr req' = lineAddr req"
    and miss_law: "\<lbrakk>pinv p; pabs p (pvpn p (lineAddr req)) = None\<rbrakk> \<Longrightarrow>
      \<exists>req'. paccess z p os req = Inr (PAGE_FAULT_SIG, req', p, os) \<and> lineAddr req' = lineAddr req"
begin

text \<open>After a mapping, every address of the page is translated to the mapped object.\<close>

lemma map_access:
  assumes "pinv p" "proom p" "ptr_ok ptr b" "obj_addr z os ptr = Some ppn"
    and "pvpn p (lineAddr req) = pvpn p a" "type_of req \<noteq> SETDIRTY"
  shows "\<exists>lat m p' req' p'' os'. pmap z p a ptr b = Inr (lat, m, p') \<and>
    paccess z p' os req = Inr (ppn, req', p'', os') \<and> pabs p'' = pabs p'"
proof -
  obtain lat m p' where m: "pmap z p a ptr b = Inr (lat, m, p')" "pinv p'" "pvpn p' = pvpn p"
    "pabs p' = (pabs p)(pvpn p a \<mapsto> ptr)"
    using map_law [OF assms(1-3)] by blast
  then have "pabs p' (pvpn p' (lineAddr req)) = Some ptr"
    using assms(5) by simp
  from hit_law [OF m(2) this assms(4,6)] m(1) show ?thesis by blast
qed

text \<open>A mapping does not change what the addresses of other pages are translated to.\<close>

lemma map_access_other:
  assumes "pinv p" "proom p" "ptr_ok ptr b" "pvpn p (lineAddr req) \<noteq> pvpn p a"
    and "pmap z p a ptr b = Inr (lat, m, p')" and "type_of req \<noteq> SETDIRTY"
    and "\<And>q. pabs p (pvpn p (lineAddr req)) = Some q \<Longrightarrow> obj_addr z os q \<noteq> None"
  shows "map_sum id fst (paccess z p' os req) = map_sum id fst (paccess z p os req)"
proof -
  have p': "pinv p'" "pvpn p' = pvpn p" "pabs p' = (pabs p)(pvpn p a \<mapsto> ptr)"
    using map_law [OF assms(1-3), of z a] assms(5) by auto
  then have same: "pabs p' (pvpn p' (lineAddr req)) = pabs p (pvpn p (lineAddr req))"
    using assms(4) by simp
  show ?thesis
  proof (cases "pabs p (pvpn p (lineAddr req))")
    case None
    then show ?thesis
      using miss_law [OF assms(1) None, of z os] miss_law [OF p'(1), of req z os] same by auto
  next
    case (Some q)
    then obtain ppn where "obj_addr z os q = Some ppn" using assms(7) by auto
    then show ?thesis
      using hit_law [OF assms(1) Some _ assms(6), of z os ppn]
        hit_law [OF p'(1), of req q z os ppn] same Some assms(6) by auto
  qed
qed

end

end
