(* ===== verification/LongMode_Paging.thy ===== *)
theory LongMode_Paging
  imports Paging_Interface
begin

text \<open>
  \<open>class LongModePaging\<close> of \<open>page-table/page_table.cpp\<close>: the four-level tables of the
  64-bit modes with 4KB, 2MB and 1GB pages. The definitions follow the methods of the
  class; a \<open>PageTable*\<close> result is a \<^typ>\<open>void_ptr\<close>, and the reference parameters
  \<open>alloc_time\<close> and \<open>mapped_entry\<close> are results.
\<close>

section \<open>The class\<close>

record LongModePaging =
  lm_heap :: table_heap
  lm_pml4 :: "nat option"
  lm_mode :: PagingStyle
  lm_cur_pdp_num :: u32
  lm_cur_pd_num :: u32
  lm_cur_pt_num :: u32
  lm_buffer_table_entry_num :: u32
  lm_buffer_table_shift :: u32

text \<open>The constructor also sets the page size of the global configuration.\<close>

definition LongModePaging_new :: "GlobSimInfo \<Rightarrow> PagingStyle \<Rightarrow> (LongModePaging \<times> GlobSimInfo) res" where
  "LongModePaging_new z select =
     bindE (PageTable_new 512 empty_heap) (\<lambda>(pml4, hp).
     bindE (if select = LongMode_Normal then
              bindE (loopE (power_rec 2 10)) (\<lambda>kb. Inr (z\<lparr>page_size := 4 * kb, page_shift := 12\<rparr>))
            else if select = LongMode_Middle then
              bindE (loopE (power_rec 2 20)) (\<lambda>mb. Inr (z\<lparr>page_size := 2 * mb, page_shift := 21\<rparr>))
            else if select = LongMode_Huge then
              bindE (loopE (power_rec 2 30)) (\<lambda>gb. Inr (z\<lparr>page_size := gb, page_shift := 30\<rparr>))
            else Inr z) (\<lambda>z.
     bindE (divE (page_size z) (ucast (block_size z))) (\<lambda>num.
     Inr (\<lparr>lm_heap = hp, lm_pml4 = Some pml4, lm_mode = select,
           lm_cur_pdp_num = 0, lm_cur_pd_num = 0, lm_cur_pt_num = 0,
           lm_buffer_table_entry_num = ucast num,
           lm_buffer_table_shift = of_nat (page_shift z) - of_nat (block_shift z)\<rparr>, z))))"

section \<open>Allocation of tables\<close>

definition lm_allocate_page_directory_pointer ::
  "LongModePaging \<Rightarrow> u32 \<Rightarrow> (void_ptr \<times> u32 \<times> LongModePaging) res" where
  "lm_allocate_page_directory_pointer p pml4_entry_id =
     bindE (assertE (pml4_entry_id < 512 \<and> lm_cur_pdp_num p < 512)) (\<lambda>_.
     bindE (derefE (lm_pml4 p)) (\<lambda>pml4.
     bindE (is_present (lm_heap p) pml4 pml4_entry_id) (\<lambda>present.
     if \<not> present then
       bindE (PageTable_new 512 (lm_heap p)) (\<lambda>(table, hp).
       bindE (validate_entry hp pml4 pml4_entry_id (TablePtr table) False) (\<lambda>hp.
       Inr (TablePtr table, 1, p\<lparr>lm_heap := hp, lm_cur_pdp_num := lm_cur_pdp_num p + 1\<rparr>)))
     else
       bindE (get_next_level_address (lm_heap p) pml4 pml4_entry_id) (\<lambda>pg_dir_p.
       Inr (pg_dir_p, 0, p)))))"

definition lm_allocate_page_directory ::
  "LongModePaging \<Rightarrow> u32 \<Rightarrow> u32 \<Rightarrow> (void_ptr \<times> u32 \<times> LongModePaging) res" where
  "lm_allocate_page_directory p pml4_entry_id pdpt_entry_id =
     bindE (derefE (lm_pml4 p)) (\<lambda>pml4.
     bindE (get_next_level_address (lm_heap p) pml4 pml4_entry_id) (\<lambda>pdp_table.
     if pdp_table \<noteq> NullPtr then
       bindE (as_table pdp_table) (\<lambda>pdp_table.
       bindE (is_present (lm_heap p) pdp_table pdpt_entry_id) (\<lambda>present.
       if \<not> present then
         bindE (PageTable_new 512 (lm_heap p)) (\<lambda>(pd_table, hp).
         bindE (validate_entry hp pdp_table pdpt_entry_id (TablePtr pd_table) False) (\<lambda>hp.
         Inr (TablePtr pd_table, 1, p\<lparr>lm_heap := hp, lm_cur_pd_num := lm_cur_pd_num p + 1\<rparr>)))
       else
         bindE (get_next_level_address (lm_heap p) pdp_table pdpt_entry_id) (\<lambda>table.
         Inr (table, 0, p))))
     else
       bindE (lm_allocate_page_directory_pointer p pml4_entry_id) (\<lambda>(pdp, alloc_time, p).
       if pdp \<noteq> NullPtr then
         bindE (get_next_level_address (lm_heap p) pml4 pml4_entry_id) (\<lambda>pdpt_table.
         bindE (PageTable_new 512 (lm_heap p)) (\<lambda>(pd_table, hp).
         bindE (as_table pdpt_table) (\<lambda>pdpt_table.
         bindE (validate_entry hp pdpt_table pdpt_entry_id (TablePtr pd_table) False) (\<lambda>hp.
         Inr (TablePtr pd_table, alloc_time + 1,
              p\<lparr>lm_heap := hp, lm_cur_pd_num := lm_cur_pd_num p + 1\<rparr>)))))
       else Inr (NullPtr, alloc_time, p))))"

definition lm_allocate_page_table ::
  "LongModePaging \<Rightarrow> u32 \<Rightarrow> u32 \<Rightarrow> u32 \<Rightarrow> (void_ptr \<times> u32 \<times> LongModePaging) res" where
  "lm_allocate_page_table p pml4_entry_id pdpt_entry_id pdt_entry_id =
     bindE (assertE (lm_mode p = LongMode_Normal)) (\<lambda>_.
     bindE (derefE (lm_pml4 p)) (\<lambda>pml4.
     bindE (get_next_level_address (lm_heap p) pml4 pml4_entry_id) (\<lambda>pdp_table.
     if pdp_table \<noteq> NullPtr then
       bindE (as_table pdp_table) (\<lambda>pdp_table.
       bindE (get_next_level_address (lm_heap p) pdp_table pdpt_entry_id) (\<lambda>pd_table.
       if pd_table \<noteq> NullPtr then
         bindE (as_table pd_table) (\<lambda>pd_table.
         bindE (is_present (lm_heap p) pd_table pdt_entry_id) (\<lambda>present.
         if present then
           bindE (get_next_level_address (lm_heap p) pd_table pdt_entry_id) (\<lambda>table.
           Inr (table, 0, p))
         else
           bindE (PageTable_new 512 (lm_heap p)) (\<lambda>(table, hp).
           bindE (validate_entry hp pd_table pdt_entry_id (TablePtr table) False) (\<lambda>hp.
           Inr (TablePtr table, 1, p\<lparr>lm_heap := hp, lm_cur_pt_num := lm_cur_pt_num p + 1\<rparr>)))))
       else
         bindE (lm_allocate_page_directory p pml4_entry_id pdpt_entry_id) (\<lambda>(pd, alloc_time, p).
         if pd \<noteq> NullPtr then
           bindE (get_next_level_address (lm_heap p) pdp_table pdpt_entry_id) (\<lambda>page_dir.
           bindE (PageTable_new 512 (lm_heap p)) (\<lambda>(pg_table, hp).
           bindE (as_table page_dir) (\<lambda>page_dir.
           bindE (validate_entry hp page_dir pdt_entry_id (TablePtr pg_table) False) (\<lambda>hp.
           Inr (TablePtr pg_table, alloc_time + 1,
                p\<lparr>lm_heap := hp, lm_cur_pt_num := lm_cur_pt_num p + 1\<rparr>)))))
         else Inr (NullPtr, alloc_time, p))))
     else
       bindE (PageTable_new 512 (lm_heap p)) (\<lambda>(pdp_table, hp).
       bindE (validate_entry hp pml4 pml4_entry_id (TablePtr pdp_table) False) (\<lambda>hp.
       bindE (PageTable_new 512 hp) (\<lambda>(pd_table, hp).
       bindE (validate_entry hp pdp_table pdpt_entry_id (TablePtr pd_table) False) (\<lambda>hp.
       bindE (PageTable_new 512 hp) (\<lambda>(pg_table, hp).
       bindE (validate_entry hp pd_table pdt_entry_id (TablePtr pg_table) False) (\<lambda>hp.
       Inr (TablePtr pg_table, 3,
            p\<lparr>lm_heap := hp, lm_cur_pdp_num := lm_cur_pdp_num p + 1,
              lm_cur_pd_num := lm_cur_pd_num p + 1, lm_cur_pt_num := lm_cur_pt_num p + 1\<rparr>)))))))))) "

text \<open>The versions for lists of entries and for an address range.\<close>

definition lm_allocate_page_directory_pointers ::
  "LongModePaging \<Rightarrow> u32 list \<Rightarrow> (bool \<times> LongModePaging) res" where
  "lm_allocate_page_directory_pointers p pml4_entry =
     foldE (\<lambda>it (succeed, p).
       bindE (lm_allocate_page_directory_pointer p it) (\<lambda>(table, _, p).
       Inr (succeed \<and> table \<noteq> NullPtr, p))) pml4_entry (True, p)"

definition lm_allocate_page_directories ::
  "LongModePaging \<Rightarrow> (u32 \<times> u32) list \<Rightarrow> (bool \<times> LongModePaging) res" where
  "lm_allocate_page_directories p high_level_entry =
     foldE (\<lambda>(a, b) (succeed, p).
       bindE (lm_allocate_page_directory p a b) (\<lambda>(table, _, p).
       Inr (succeed \<and> table \<noteq> NullPtr, p))) high_level_entry (True, p)"

definition lm_allocate_page_tables ::
  "LongModePaging \<Rightarrow> (u32 \<times> u32 \<times> u32) list \<Rightarrow> (bool \<times> LongModePaging) res" where
  "lm_allocate_page_tables p high_level_entry =
     foldE (\<lambda>(a, b, c) (succeed, p).
       bindE (lm_allocate_page_table p a b c) (\<lambda>(table, _, p).
       Inr (succeed \<and> table \<noteq> NullPtr, p))) high_level_entry (True, p)"

definition lm_allocate_page_table_range ::
  "LongModePaging \<Rightarrow> address \<Rightarrow> address \<Rightarrow> (bool \<times> LongModePaging) res" where
  "lm_allocate_page_table_range p addr sz =
     bindE (assertE (lm_mode p = LongMode_Normal)) (\<lambda>_.
     let succeed = (addr AND 0x1fffff = 0);
         pml4_entry = get_pml4_off addr (lm_mode p);
         pdp_entry = get_page_directory_pointer_off addr (lm_mode p);
         pd_entry = get_page_directory_off addr (lm_mode p);
         page_table_num = ucast (drop_bit 21 (sz + 0x1fffff)) :: u32
     in foldE (\<lambda>i (succeed, p).
          bindE (lm_allocate_page_table p pml4_entry pdp_entry (pd_entry + i)) (\<lambda>(table, _, p).
          Inr (succeed \<and> table \<noteq> NullPtr, p))) (upto_u32 page_table_num) (succeed, p))"

section \<open>Mapping, unmapping and access\<close>

definition lm_map_leaf ::
  "GlobSimInfo \<Rightarrow> void_ptr \<Rightarrow> bool \<Rightarrow> u32 \<Rightarrow> void_ptr \<times> u32 \<times> LongModePaging \<Rightarrow>
   (u32 \<times> (nat \<times> u32) option \<times> LongModePaging) res" where
  "lm_map_leaf z pg_ptr pbuffer i r =
     (case r of (table, alloc_time, p) \<Rightarrow>
       if table = NullPtr then Inr (0, None, p)
       else
         bindE (as_table table) (\<lambda>t.
         bindE (map_entry (lm_heap p) t i pg_ptr pbuffer) (\<lambda>(mapped_entry, hp).
         Inr (mem_access_time z * (1 + alloc_time), mapped_entry, p\<lparr>lm_heap := hp\<rparr>))))"

definition lm_map_page_table ::
  "GlobSimInfo \<Rightarrow> LongModePaging \<Rightarrow> address \<Rightarrow> void_ptr \<Rightarrow> bool \<Rightarrow>
   (u32 \<times> (nat \<times> u32) option \<times> LongModePaging) res" where
  "lm_map_page_table z p addr pg_ptr pbuffer =
     (case get_domains addr (lm_mode p) of (pml4, pdp, pd, pt) \<Rightarrow>
     bindE (assertE (pml4 \<noteq> -1 \<and> pdp \<noteq> -1)) (\<lambda>_.
     if lm_mode p = LongMode_Normal then
       bindE (assertE (pd \<noteq> -1 \<and> pt \<noteq> -1)) (\<lambda>_.
       bindE (lm_allocate_page_table p pml4 pdp pd) (lm_map_leaf z pg_ptr pbuffer pt))
     else if lm_mode p = LongMode_Middle then
       bindE (lm_allocate_page_directory p pml4 pdp) (lm_map_leaf z pg_ptr pbuffer pd)
     else if lm_mode p = LongMode_Huge then
       bindE (lm_allocate_page_directory_pointer p pml4) (lm_map_leaf z pg_ptr pbuffer pdp)
     else Inr (mem_access_time z * (1 + 0), None, p)))"

fun get_tables_loop :: "table_heap \<Rightarrow> void_ptr \<Rightarrow> u32 list \<Rightarrow> void_ptr res" where
  "get_tables_loop hp table [] = Inr table"
| "get_tables_loop hp table (i # entry_ids) =
     bindE (as_table table) (\<lambda>t.
     bindE (get_next_level_address hp t i) (\<lambda>table.
     if table = NullPtr then Inr NullPtr else get_tables_loop hp table entry_ids))"

definition lm_get_tables :: "LongModePaging \<Rightarrow> nat \<Rightarrow> u32 list \<Rightarrow> void_ptr res" where
  "lm_get_tables p level entry_id_list =
     bindE (assertE (1 \<le> level)) (\<lambda>_.
     bindE (derefE (lm_pml4 p)) (\<lambda>pml4.
     bindE (nthE entry_id_list 0) (\<lambda>i.
     bindE (get_next_level_address (lm_heap p) pml4 i) (\<lambda>table.
     get_tables_loop (lm_heap p) table (take (level - 1) (drop 1 entry_id_list))))))"

definition lm_unmap_page_table :: "LongModePaging \<Rightarrow> address \<Rightarrow> (bool \<times> LongModePaging) res" where
  "lm_unmap_page_table p addr =
     (case get_domains addr (lm_mode p) of (pml4_id, pdp_id, pd_id, pt_id) \<Rightarrow>
     let ids = [pml4_id, pdp_id, pd_id, 0];
         drop_page = (\<lambda>level i.
           bindE (lm_get_tables p level ids) (\<lambda>table.
           if table = NullPtr then Inr (False, p)
           else
             bindE (as_table table) (\<lambda>t.
             bindE (invalidate_page (lm_heap p) t i) (\<lambda>hp.
             Inr (False, p\<lparr>lm_heap := hp\<rparr>)))))
     in if lm_mode p = LongMode_Normal then drop_page 3 pt_id
        else if lm_mode p = LongMode_Middle then drop_page 2 pd_id
        else if lm_mode p = LongMode_Huge then drop_page 1 pdp_id
        else Inr (False, p))"

definition lm_access_tables ::
  "GlobSimInfo \<Rightarrow> LongModePaging \<Rightarrow> mem_objs \<Rightarrow> MemReq \<Rightarrow>
   (address \<times> MemReq \<times> table_heap \<times> mem_objs) res" where
  "lm_access_tables z p os req =
     (case get_domains (lineAddr req) (lm_mode p) of (pml4_id, pdp_id, pd_id, pt_id) \<Rightarrow>
     let hp = lm_heap p; fault = (\<lambda>req. Inr (PAGE_FAULT_SIG, req, hp, os)) in
     bindE (derefE (lm_pml4 p)) (\<lambda>pml4.
     bindE (get_next_level_address hp pml4 pml4_id) (\<lambda>pdp_ptr.
     if pdp_ptr = NullPtr then fault req
     else
       bindE (as_table pdp_ptr) (\<lambda>pdp.
       bindE (if lm_mode p = LongMode_Huge then
                bindE (point_to_buffer_table hp pdp pdp_id) (\<lambda>pbuffer.
                Inr (pbuffer, add_cycles req (mem_access_time z * 4)))
              else Inr (False, req)) (\<lambda>(pbuffer, req).
       bindE (get_next_level_address hp pdp pdp_id) (\<lambda>ptr.
       if ptr = NullPtr then fault req
       else if lm_mode p = LongMode_Middle then
         bindE (assertE (pd_id \<noteq> -1)) (\<lambda>_.
         bindE (as_table ptr) (\<lambda>pgt.
         bindE (point_to_buffer_table hp pgt pd_id) (\<lambda>pbuffer.
         bindE (get_next_level_address hp pgt pd_id) (\<lambda>ptr.
         let req = add_cycles req (mem_access_time z * 5) in
         if ptr = NullPtr then fault req
         else finish_access z os hp req (Some pgt) ptr pd_id pbuffer))))
       else if lm_mode p = LongMode_Normal then
         bindE (assertE (pd_id \<noteq> -1)) (\<lambda>_.
         bindE (assertE (pt_id \<noteq> -1)) (\<lambda>_.
         bindE (as_table ptr) (\<lambda>pd.
         bindE (get_next_level_address hp pd pd_id) (\<lambda>ptr.
         let req = add_cycles req (mem_access_time z * 6) in
         if ptr = NullPtr then fault req
         else
           bindE (as_table ptr) (\<lambda>pgt.
           bindE (point_to_buffer_table hp pgt pt_id) (\<lambda>pbuffer.
           bindE (get_next_level_address hp pgt pt_id) (\<lambda>ptr.
           if ptr = NullPtr then fault req
           else finish_access z os hp req (Some pgt) ptr pt_id pbuffer)))))))
       else if lm_mode p = LongMode_Huge then
         finish_access z os hp req (Some pdp) ptr pdp_id pbuffer
       else finish_access z os hp req None ptr pt_id pbuffer))))))"

definition lm_access ::
  "GlobSimInfo \<Rightarrow> LongModePaging \<Rightarrow> mem_objs \<Rightarrow> MemReq \<Rightarrow>
   (address \<times> MemReq \<times> LongModePaging \<times> mem_objs) res" where
  "lm_access z p os req =
     bindE (lm_access_tables z p os req) (\<lambda>(addr, req, hp, os).
     Inr (addr, req, p\<lparr>lm_heap := hp\<rparr>, os))"

section \<open>Removal of tables\<close>

definition lm_remove_page_table ::
  "LongModePaging \<Rightarrow> u32 \<Rightarrow> u32 \<Rightarrow> u32 \<Rightarrow> (bool \<times> LongModePaging) res" where
  "lm_remove_page_table p pml4_entry_id pdp_entry_id pd_entry_id =
     bindE (assertE (lm_mode p = LongMode_Normal)) (\<lambda>_.
     bindE (derefE (lm_pml4 p)) (\<lambda>pml4.
     bindE (get_next_level_address (lm_heap p) pml4 pml4_entry_id) (\<lambda>pdp_table.
     if pdp_table = NullPtr then Inr (True, p)
     else
       bindE (as_table pdp_table) (\<lambda>pdp_table.
       bindE (get_next_level_address (lm_heap p) pdp_table pdp_entry_id) (\<lambda>pd_table.
       if pd_table = NullPtr then Inr (True, p)
       else
         bindE (as_table pd_table) (\<lambda>pd_table.
         bindE (get_next_level_address (lm_heap p) pd_table pd_entry_id) (\<lambda>pg_table.
         if pg_table = NullPtr then Inr (True, p)
         else
           bindE (invalidate_entry (lm_heap p) pd_table pd_entry_id) (\<lambda>hp.
           Inr (True, p\<lparr>lm_heap := hp, lm_cur_pt_num := lm_cur_pt_num p - 1\<rparr>)))))))))"

definition lm_remove_page_directory ::
  "LongModePaging \<Rightarrow> u32 \<Rightarrow> u32 \<Rightarrow> (bool \<times> LongModePaging) res" where
  "lm_remove_page_directory p pml4_entry_id pdp_entry_id =
     bindE (assertE (lm_mode p \<noteq> LongMode_Huge \<and> pml4_entry_id < 512 \<and> pdp_entry_id < 512)) (\<lambda>_.
     bindE (derefE (lm_pml4 p)) (\<lambda>pml4.
     bindE (get_next_level_address (lm_heap p) pml4 pml4_entry_id) (\<lambda>pdp_table.
     if pdp_table = NullPtr then Inr (True, p)
     else
       bindE (as_table pdp_table) (\<lambda>pdp_table.
       bindE (get_next_level_address (lm_heap p) pdp_table pdp_entry_id) (\<lambda>pd_table.
       if pd_table = NullPtr then Inr (True, p)
       else
         bindE (if lm_mode p = LongMode_Normal then
                  bindE (as_table pd_table) (\<lambda>pd_table.
                  foldE (\<lambda>i p.
                    bindE (is_present (lm_heap p) pd_table i) (\<lambda>present.
                    if present then
                      bindE (lm_remove_page_table p pml4_entry_id pdp_entry_id i) (\<lambda>(_, p). Inr p)
                    else Inr p)) (upto_u32 512) p)
                else Inr p) (\<lambda>p.
         bindE (invalidate_entry (lm_heap p) pdp_table pdp_entry_id) (\<lambda>hp.
         Inr (True, p\<lparr>lm_heap := hp, lm_cur_pd_num := lm_cur_pd_num p - 1\<rparr>))))))))"

definition lm_remove_page_directory_pointer ::
  "LongModePaging \<Rightarrow> u32 \<Rightarrow> (bool \<times> LongModePaging) res" where
  "lm_remove_page_directory_pointer p pml4_entry_id =
     bindE (derefE (lm_pml4 p)) (\<lambda>pml4.
     bindE (get_next_level_address (lm_heap p) pml4 pml4_entry_id) (\<lambda>pdp_table.
     if pdp_table = NullPtr then Inr (True, p)
     else
       bindE (if lm_mode p \<noteq> LongMode_Huge then
                bindE (as_table pdp_table) (\<lambda>pdp_table.
                foldE (\<lambda>i (succeed, p).
                  bindE (is_present (lm_heap p) pdp_table i) (\<lambda>present.
                  if present then
                    bindE (lm_remove_page_directory p pml4_entry_id i) (\<lambda>(r, p).
                    Inr (succeed \<and> r, p))
                  else Inr (succeed, p))) (upto_u32 512) (True, p))
              else Inr (True, p)) (\<lambda>(succeed, p).
       bindE (invalidate_entry (lm_heap p) pml4 pml4_entry_id) (\<lambda>hp.
       Inr (succeed, p\<lparr>lm_heap := hp, lm_cur_pdp_num := lm_cur_pdp_num p - 1\<rparr>)))))"

definition lm_remove_root_directory :: "LongModePaging \<Rightarrow> LongModePaging res" where
  "lm_remove_root_directory p =
     (case lm_pml4 p of
        None \<Rightarrow> Inr p
      | Some pml4 \<Rightarrow>
          bindE (foldE (\<lambda>i p.
            bindE (is_present (lm_heap p) pml4 i) (\<lambda>present.
            if present then
              bindE (lm_remove_page_directory_pointer p i) (\<lambda>(_, p). Inr p)
            else Inr p)) (upto_u32 512) p) (\<lambda>p.
          Inr (p\<lparr>lm_heap := (lm_heap p)\<lparr>tables := (tables (lm_heap p))(pml4 := None)\<rparr>,
                 lm_pml4 := None\<rparr>)))"

definition lm_remove_page_directory_pointers ::
  "LongModePaging \<Rightarrow> u32 list \<Rightarrow> (bool \<times> LongModePaging) res" where
  "lm_remove_page_directory_pointers p pml4_entry =
     foldE (\<lambda>it (succeed, p).
       bindE (lm_remove_page_directory_pointer p it) (\<lambda>(r, p).
       Inr (if r then False else succeed, p))) pml4_entry (True, p)"

definition lm_remove_page_directories ::
  "LongModePaging \<Rightarrow> (u32 \<times> u32) list \<Rightarrow> (bool \<times> LongModePaging) res" where
  "lm_remove_page_directories p high_level_entry =
     bindE (foldE (\<lambda>(a, b) p. bindE (lm_remove_page_directory p a b) (\<lambda>(_, p). Inr p))
       high_level_entry p) (\<lambda>p. Inr (True, p))"

definition lm_remove_page_table_range ::
  "LongModePaging \<Rightarrow> address \<Rightarrow> address \<Rightarrow> (bool \<times> LongModePaging) res" where
  "lm_remove_page_table_range p addr sz =
     bindE (assertE (lm_mode p = LongMode_Normal)) (\<lambda>_.
     if addr AND 0x1fffff \<noteq> 0 then Inr (False, p)
     else (case get_domains addr (lm_mode p) of (pml4_entry, pdp_entry, pd_entry, pt_entry) \<Rightarrow>
       bindE (foldE (\<lambda>i p.
           bindE (lm_remove_page_table p pml4_entry pdp_entry (pd_entry + i)) (\<lambda>(_, p). Inr p))
         (upto_u32 (ucast (drop_bit 21 (sz + 0x1fffff)))) p) (\<lambda>p. Inr (True, p))))"

definition lm_remove_page_tables ::
  "LongModePaging \<Rightarrow> (u32 \<times> u32 \<times> u32) list \<Rightarrow> (bool \<times> LongModePaging) res" where
  "lm_remove_page_tables p high_level_entry =
     bindE (foldE (\<lambda>(a, b, c) p. bindE (lm_remove_page_table p a b c) (\<lambda>(_, p). Inr p))
       high_level_entry p) (\<lambda>p. Inr (True, p))"

section \<open>Invariant and abstraction\<close>

definition lm_levels :: "PagingStyle \<Rightarrow> nat" where
  "lm_levels mode =
     (case mode of LongMode_Normal \<Rightarrow> 3 | LongMode_Middle \<Rightarrow> 2 | LongMode_Huge \<Rightarrow> 1 | _ \<Rightarrow> 0)"

definition lm_shift :: "PagingStyle \<Rightarrow> nat" where
  "lm_shift mode =
     (case mode of LongMode_Normal \<Rightarrow> 12 | LongMode_Middle \<Rightarrow> 21 | LongMode_Huge \<Rightarrow> 30 | _ \<Rightarrow> 0)"

definition lm_szs :: "PagingStyle \<Rightarrow> nat list" where
  "lm_szs mode = replicate (Suc (lm_levels mode)) 512"

definition lm_counts :: "nat \<Rightarrow> LongModePaging \<Rightarrow> bool" where
  "lm_counts root p \<longleftrightarrow>
     lm_cur_pdp_num p = of_nat (num_tables (lm_heap p) root 1) \<and>
     lm_cur_pd_num p = of_nat (num_tables (lm_heap p) root 2) \<and>
     lm_cur_pt_num p = of_nat (num_tables (lm_heap p) root 3)"

text \<open>
  The invariant of the class: a 64-bit mode, a well-formed tree below the root, no other table
  in the store, and the three counters equal to the number of tables of their level.
\<close>

definition lm_inv :: "LongModePaging \<Rightarrow> bool" where
  "lm_inv p \<longleftrightarrow>
     lm_levels (lm_mode p) > 0 \<and>
     (case lm_pml4 p of
        None \<Rightarrow> False
      | Some root \<Rightarrow> wf_tree (lm_szs (lm_mode p)) (lm_heap p) root \<and> no_garbage (lm_heap p) root \<and>
          lm_counts root p)"

text \<open>The virtual page number of an address: its bits 12, 21 or 30 to 47.\<close>

definition lm_vpn :: "PagingStyle \<Rightarrow> address \<Rightarrow> nat" where
  "lm_vpn mode addr = unat addr div 2 ^ lm_shift mode mod 512 ^ Suc (lm_levels mode)"

definition lm_path :: "PagingStyle \<Rightarrow> nat \<Rightarrow> nat list \<times> nat" where
  "lm_path mode vpn = (digits 512 (lm_levels mode) (vpn div 512), vpn mod 512)"

text \<open>The abstraction of the tables: the partial map from page numbers to objects.\<close>

definition lm_abs :: "LongModePaging \<Rightarrow> nat \<Rightarrow> void_ptr option" where
  "lm_abs p vpn =
     (if vpn < 512 ^ Suc (lm_levels (lm_mode p))
      then map_option next_level_ptr
        (mapped (lm_heap p) (the (lm_pml4 p)) (lm_path (lm_mode p) vpn))
      else None)"

lemma lm_mode_cases:
  assumes "0 < lm_levels mode"
  obtains "mode = LongMode_Normal" | "mode = LongMode_Middle" | "mode = LongMode_Huge"
  using assms by (cases mode) (simp_all add: lm_levels_def)

lemma lm_invE:
  assumes "lm_inv p"
  obtains root where "lm_pml4 p = Some root" "wf_tree (lm_szs (lm_mode p)) (lm_heap p) root"
    "lm_counts root p" "0 < lm_levels (lm_mode p)" "no_garbage (lm_heap p) root"
  using assms by (auto simp: lm_inv_def split: option.splits)

lemma lm_szs_nth [simp]: "k < Suc (lm_levels mode) \<Longrightarrow> lm_szs mode ! k = 512"
  unfolding lm_szs_def by (rule nth_replicate)

lemma length_lm_szs [simp]: "length (lm_szs mode) = Suc (lm_levels mode)"
  by (simp add: lm_szs_def)

text \<open>The offsets that \<open>get_domains\<close> cuts out of an address are the digits of its page number.\<close>

lemma unat_offset:
  "e = s + 8 \<Longrightarrow> unat (get_bit_value addr s e) = unat addr div 2 ^ s mod 512"
  using unat_get_bit_value [of s e addr] by simp

lemma offset_facts:
  assumes "e = s + 8"
  shows "unat (get_bit_value addr s e) < 512" "get_bit_value addr s e < 512"
    "get_bit_value addr s e \<noteq> -1"
proof -
  show less: "unat (get_bit_value addr s e) < 512"
    using unat_offset [OF assms] by simp
  then show "get_bit_value addr s e < 512"
    by (simp add: word_less_nat_alt)
  show "get_bit_value addr s e \<noteq> -1"
  proof
    assume "get_bit_value addr s e = -1"
    then have "unat (-1 :: u32) < 512" using less by simp
    then show False unfolding unsigned_minus_1_eq_mask by (simp add: mask_eq_exp_minus_1)
  qed
qed

lemma offset_simps [simp]:
  "get_bit_value addr 12 20 \<noteq> -1" "get_bit_value addr 21 29 \<noteq> -1"
  "get_bit_value addr 30 38 \<noteq> -1" "get_bit_value addr 39 47 \<noteq> -1"
  "unat (get_bit_value addr 12 20) < 512" "unat (get_bit_value addr 21 29) < 512"
  "unat (get_bit_value addr 30 38) < 512" "unat (get_bit_value addr 39 47) < 512"
  by (rule offset_facts; simp)+

lemma lm_path_vpn:
  "lm_path mode (lm_vpn mode addr) =
     (digits 512 (lm_levels mode) (unat addr div 2 ^ lm_shift mode div 512),
      unat addr div 2 ^ lm_shift mode mod 512)"
proof -
  have "n mod (512 * m) div 512 = n div 512 mod m" "n mod (512 * m) mod 512 = n mod 512" for n m :: nat
    by (simp_all add: mod_mult2_eq)
  then show ?thesis
    by (simp add: lm_path_def lm_vpn_def digits_eq_iff)
qed

lemma lm_path_domains:
  "lm_path LongMode_Normal (lm_vpn LongMode_Normal addr) =
     ([unat (get_bit_value addr 39 47), unat (get_bit_value addr 30 38),
       unat (get_bit_value addr 21 29)], unat (get_bit_value addr 12 20))"
  "lm_path LongMode_Middle (lm_vpn LongMode_Middle addr) =
     ([unat (get_bit_value addr 39 47), unat (get_bit_value addr 30 38)],
       unat (get_bit_value addr 21 29))"
  "lm_path LongMode_Huge (lm_vpn LongMode_Huge addr) =
     ([unat (get_bit_value addr 39 47)], unat (get_bit_value addr 30 38))"
  unfolding lm_path_vpn
  by (simp_all add: lm_levels_def lm_shift_def unat_offset digits_numerals [simplified]
      div_mult2_eq [symmetric])

lemma lm_path_eq_iff:
  assumes "v < 512 ^ Suc (lm_levels mode)" "w < 512 ^ Suc (lm_levels mode)"
  shows "lm_path mode v = lm_path mode w \<longleftrightarrow> v = w"
proof -
  have "v div 512 < 512 ^ lm_levels mode" "w div 512 < 512 ^ lm_levels mode"
    using assms by (simp_all add: less_mult_imp_div_less)
  then have "lm_path mode v = lm_path mode w \<longleftrightarrow> v div 512 = w div 512 \<and> v mod 512 = w mod 512"
    by (simp add: lm_path_def digits_eq_iff)
  also have "\<dots> \<longleftrightarrow> v = w"
    by (metis div_mult_mod_eq)
  finally show ?thesis .
qed


section \<open>Allocation keeps the invariant\<close>

text \<open>One allocation step: link a table and count it at its level.\<close>

definition lm_link :: "LongModePaging \<Rightarrow> nat list \<Rightarrow> nat \<Rightarrow> u32 \<Rightarrow> LongModePaging" where
  "lm_link p q t i =
     p\<lparr>lm_heap := link_new (lm_szs (lm_mode p)) (lm_heap p) q t i,
       lm_cur_pdp_num := lm_cur_pdp_num p + (if length q = 0 then 1 else 0),
       lm_cur_pd_num := lm_cur_pd_num p + (if length q = 1 then 1 else 0),
       lm_cur_pt_num := lm_cur_pt_num p + (if length q = 2 then 1 else 0)\<rparr>"

text \<open>What a successful allocation of the table at path \<open>q\<close> returns.\<close>

definition lm_ensured ::
  "LongModePaging \<Rightarrow> nat list \<Rightarrow> (void_ptr \<times> u32 \<times> LongModePaging) res \<Rightarrow> bool" where
  "lm_ensured p q r \<longleftrightarrow>
     (\<exists>root t p'. lm_pml4 p = Some root \<and>
        r = Inr (TablePtr t, of_nat (missing (lm_heap p) root q), p') \<and>
        lm_inv p' \<and> lm_mode p' = lm_mode p \<and> lm_pml4 p' = Some root \<and>
        extends (lm_szs (lm_mode p)) root (lm_heap p) (lm_heap p') \<and>
        tbl_at (lm_heap p') root q = Some t)"

lemma lm_link_facts:
  assumes inv: "lm_inv p" and root: "lm_pml4 p = Some root"
    and at: "tbl_at (lm_heap p) root q = Some t" and len: "length q < lm_levels (lm_mode p)"
    and i: "unat i < 512" and free: "child (lm_heap p) t (unat i) = None"
  shows "lm_inv (lm_link p q t i)"
    and "extends (lm_szs (lm_mode p)) root (lm_heap p) (lm_heap (lm_link p q t i))"
    and "tbl_at (lm_heap (lm_link p q t i)) root (q @ [unat i]) = Some (next_table (lm_heap p))"
proof -
  have wf: "wf_tree (lm_szs (lm_mode p)) (lm_heap p) root" and counts: "lm_counts root p"
    and pos: "0 < lm_levels (lm_mode p)" and ng: "no_garbage (lm_heap p) root"
    using inv root by (auto elim: lm_invE)
  have pre: "Suc (length q) < length (lm_szs (lm_mode p))" "unat i < lm_szs (lm_mode p) ! length q"
    using len i by simp_all
  note link = wf at pre free
  have "lm_counts root (lm_link p q t i)"
    using counts by (simp add: lm_counts_def lm_link_def num_tables_link [OF link])
  then show "lm_inv (lm_link p q t i)"
    using link_new_facts(1) [OF link] no_garbage_link [OF link ng] pos root
    by (simp add: lm_inv_def lm_link_def)
  show "extends (lm_szs (lm_mode p)) root (lm_heap p) (lm_heap (lm_link p q t i))"
    using extends_link [OF link] by (simp add: lm_link_def)
  show "tbl_at (lm_heap (lm_link p q t i)) root (q @ [unat i]) = Some (next_table (lm_heap p))"
    using link_new_facts(2) [OF link] by (simp add: lm_link_def)
qed

lemma lm_link_simps [simp]:
  "lm_mode (lm_link p q t i) = lm_mode p" "lm_pml4 (lm_link p q t i) = lm_pml4 p"
  "lm_heap (lm_link p q t i) = link_new (lm_szs (lm_mode p)) (lm_heap p) q t i"
  by (simp_all add: lm_link_def)

text \<open>The code of one allocation step.\<close>

lemma lm_link_code:
  assumes "lm_inv p" "lm_pml4 p = Some root" "tbl_at (lm_heap p) root q = Some t"
    and "length q < lm_levels (lm_mode p)" "unat i < 512"
  shows "validate_entry (new_table 512 (lm_heap p)) t i (TablePtr (next_table (lm_heap p))) False =
    Inr (link_new (lm_szs (lm_mode p)) (lm_heap p) q t i)"
proof -
  have "wf_tree (lm_szs (lm_mode p)) (lm_heap p) root"
    using assms(1,2) by (auto elim: lm_invE)
  from link_new_code [OF this assms(3), of i] assms(4,5) show ?thesis by simp
qed

lemma lm_inner_next:
  assumes "lm_inv p" "lm_pml4 p = Some root" "tbl_at (lm_heap p) root q = Some t"
    and "length q < lm_levels (lm_mode p)" "unat i < 512"
  obtains e where "entry_of (lm_heap p) t (unat i) = Some e" "child (lm_heap p) t (unat i) = None"
      "next_level_ptr e = NullPtr" "\<not> pte_is_present e"
    | e c where "entry_of (lm_heap p) t (unat i) = Some e" "child (lm_heap p) t (unat i) = Some c"
      "next_level_ptr e = TablePtr c" "pte_is_present e" "tbl_at (lm_heap p) root (q @ [unat i]) = Some c"
proof -
  have "wf_tree (lm_szs (lm_mode p)) (lm_heap p) root"
    using assms(1,2) by (auto elim: lm_invE)
  from inner_next [OF this assms(3), of "unat i"] assms(4,5) that show thesis by auto
qed

lemma lm_root_free:
  assumes "lm_inv p" "lm_pml4 p = Some root" "unat i < 512" "child (lm_heap p) root (unat i) = None"
  shows "lm_cur_pdp_num p < 512"
proof -
  have wf: "wf_tree (lm_szs (lm_mode p)) (lm_heap p) root" and "lm_counts root p"
    using assms(1,2) by (auto elim: lm_invE)
  moreover have "num_tables (lm_heap p) root 1 < 512"
    using num_tables_1(2) [OF wf, of "unat i"] assms(3,4) by simp
  ultimately show ?thesis
    by (simp add: lm_counts_def word_less_nat_alt unsigned_of_nat take_bit_nat_eq_self)
qed

lemma lm_ensuredI:
  assumes "r = Inr (TablePtr t, of_nat (missing (lm_heap p) root q), p')"
    and "lm_pml4 p = Some root" "lm_inv p'" "lm_mode p' = lm_mode p" "lm_pml4 p' = Some root"
    and "extends (lm_szs (lm_mode p)) root (lm_heap p) (lm_heap p')"
    and "tbl_at (lm_heap p') root q = Some t"
  shows "lm_ensured p q r"
  using assms unfolding lm_ensured_def by blast

lemma allocate_pdp_ensured:
  assumes inv: "lm_inv p" and i: "i < 512" and room: "lm_cur_pdp_num p < 512"
  shows "lm_ensured p [unat i] (lm_allocate_page_directory_pointer p i)"
proof -
  obtain root where root: "lm_pml4 p = Some root" and pos: "0 < lm_levels (lm_mode p)"
    and wf: "wf_tree (lm_szs (lm_mode p)) (lm_heap p) root"
    using inv by (elim lm_invE)
  have i': "unat i < 512"
    using i by (simp add: word_less_nat_alt)
  note at = tbl_at.simps(1) [of "lm_heap p" root]
  show ?thesis
  proof (rule lm_inner_next [OF inv root at _ i'])
    show "length [] < lm_levels (lm_mode p)" using pos by simp
  next
    fix e assume e: "entry_of (lm_heap p) root (unat i) = Some e" "\<not> pte_is_present e"
      "child (lm_heap p) root (unat i) = None"
    have "lm_allocate_page_directory_pointer p i =
        Inr (TablePtr (next_table (lm_heap p)), of_nat (missing (lm_heap p) root [unat i]),
             lm_link p [] root i)"
      using e i room root lm_link_code [OF inv root at _ i'] pos
      by (simp add: lm_allocate_page_directory_pointer_def lm_link_def)
    then show ?thesis
      by (rule lm_ensuredI) (use lm_link_facts [OF inv root at _ i' e(3)] pos root in simp_all)
  next
    fix e c assume e: "entry_of (lm_heap p) root (unat i) = Some e" "pte_is_present e"
      "next_level_ptr e = TablePtr c" "child (lm_heap p) root (unat i) = Some c"
    then have "lm_allocate_page_directory_pointer p i =
        Inr (TablePtr c, of_nat (missing (lm_heap p) root [unat i]), p)"
      using i room root by (simp add: lm_allocate_page_directory_pointer_def)
    then show ?thesis
      by (rule lm_ensuredI) (use inv root e extends_refl [OF wf] in simp_all)
  qed
qed


text \<open>
  Allocating below a table that has just been allocated: its entries are free, so the step
  always links a new table.
\<close>

lemma lm_link_link:
  assumes inv: "lm_inv p" and root: "lm_pml4 p = Some root"
    and at: "tbl_at (lm_heap p) root q = Some t" and len: "Suc (length q) < lm_levels (lm_mode p)"
    and i: "unat i < 512" and free: "child (lm_heap p) t (unat i) = None" and j: "unat j < 512"
  defines "p' \<equiv> lm_link p q t i" and "c \<equiv> next_table (lm_heap p)"
  shows "lm_inv p'" "lm_pml4 p' = Some root" "tbl_at (lm_heap p') root (q @ [unat i]) = Some c"
    and "child (lm_heap p') c (unat j) = None"
    and "validate_entry (new_table 512 (lm_heap p')) c j (TablePtr (next_table (lm_heap p'))) False =
      Inr (link_new (lm_szs (lm_mode p)) (lm_heap p') (q @ [unat i]) c j)"
proof -
  have wf: "wf_tree (lm_szs (lm_mode p)) (lm_heap p) root"
    using inv root by (auto elim: lm_invE)
  have len': "length q < lm_levels (lm_mode p)" using len by simp
  show inv': "lm_inv p'" and at': "tbl_at (lm_heap p') root (q @ [unat i]) = Some c"
    unfolding p'_def c_def by (rule lm_link_facts(1,3) [OF inv root at len' i free])+
  show root': "lm_pml4 p' = Some root"
    by (simp add: p'_def root)
  show "child (lm_heap p') c (unat j) = None"
    using child_link_new(2) [OF wf at _ _ free] len i by (simp add: p'_def c_def)
  show "validate_entry (new_table 512 (lm_heap p')) c j (TablePtr (next_table (lm_heap p'))) False =
      Inr (link_new (lm_szs (lm_mode p)) (lm_heap p') (q @ [unat i]) c j)"
    using lm_link_code [OF inv' root' at' _ j] len by (simp add: p'_def)
qed

text \<open>The entry that was linked last points to the new table.\<close>

lemma lm_linked_entry:
  assumes inv: "lm_inv p" and root: "lm_pml4 p = Some root"
    and at: "tbl_at (lm_heap p) root q = Some t" and len: "length q < lm_levels (lm_mode p)"
    and i: "unat i < 512" and free: "child (lm_heap p) t (unat i) = None"
  obtains e where "entry_of (lm_heap (lm_link p q t i)) t (unat i) = Some e"
    "next_level_ptr e = TablePtr (next_table (lm_heap p))"
proof -
  have wf: "wf_tree (lm_szs (lm_mode p)) (lm_heap p) root"
    using inv root by (auto elim: lm_invE)
  have "child (lm_heap (lm_link p q t i)) t (unat i) = Some (next_table (lm_heap p))"
    using child_link_new(1) [OF wf at _ _ free] len i by simp
  then obtain e where "entry_of (lm_heap (lm_link p q t i)) t (unat i) = Some e"
      "table_of (next_level_ptr e) = Some (next_table (lm_heap p))"
    by (auto simp: child_def bind_eq_Some_conv)
  then show thesis
    using that by (cases "next_level_ptr e") auto
qed

lemma allocate_pd_new_root:
  assumes inv: "lm_inv p" and root: "lm_pml4 p = Some root" and lev: "1 < lm_levels (lm_mode p)"
    and a: "unat a < 512" and b: "unat b < 512"
    and e: "entry_of (lm_heap p) root (unat a) = Some e" "\<not> pte_is_present e"
      "child (lm_heap p) root (unat a) = None" "next_level_ptr e = NullPtr"
  shows "lm_ensured p [unat a, unat b] (lm_allocate_page_directory p a b)"
proof -
  note at = tbl_at.simps(1) [of "lm_heap p" root]
  have l0: "length [] < lm_levels (lm_mode p)" and l1: "Suc (length []) < lm_levels (lm_mode p)"
    using lev by simp_all
  let ?p = "lm_link p [] root a" and ?c = "next_table (lm_heap p)"
  note sub = lm_link_link [OF inv root at l1 a e(3) b]
  have first: "lm_allocate_page_directory_pointer p a = Inr (TablePtr ?c, 1, ?p)"
    using e a root lm_link_code [OF inv root at l0 a] lm_root_free [OF inv root a e(3)]
    by (simp add: lm_allocate_page_directory_pointer_def lm_link_def word_less_nat_alt)
  obtain f where f: "entry_of (lm_heap ?p) root (unat a) = Some f" "next_level_ptr f = TablePtr ?c"
    by (rule lm_linked_entry [OF inv root at l0 a e(3)])
  have "lm_allocate_page_directory p a b =
      Inr (TablePtr (next_table (lm_heap ?p)), of_nat (missing (lm_heap p) root [unat a, unat b]),
           lm_link ?p [unat a] ?c b)"
    using e root first f sub(5)
    by (simp add: lm_allocate_page_directory_def as_table_def) (simp add: lm_link_def)
  then show ?thesis
    by (rule lm_ensuredI)
      (use lm_link_facts [OF sub(1,2,3) _ b sub(4)] lm_link_facts(2) [OF inv root at l0 a e(3)]
        lev root in \<open>auto intro: extends_trans\<close>)
qed

lemma allocate_pd_ensured:
  assumes inv: "lm_inv p" and a: "unat a < 512" and b: "unat b < 512"
    and lev: "1 < lm_levels (lm_mode p)"
  shows "lm_ensured p [unat a, unat b] (lm_allocate_page_directory p a b)"
proof -
  obtain root where root: "lm_pml4 p = Some root"
    and wf: "wf_tree (lm_szs (lm_mode p)) (lm_heap p) root"
    using inv by (elim lm_invE)
  have l0: "length [] < lm_levels (lm_mode p)" and l1: "length ([] @ [unat a]) < lm_levels (lm_mode p)"
    using lev by simp_all
  show ?thesis
  proof (rule lm_inner_next [OF inv root tbl_at.simps(1) l0 a])
    show "lm_ensured p [unat a, unat b] (lm_allocate_page_directory p a b)"
      if "entry_of (lm_heap p) root (unat a) = Some e" "\<not> pte_is_present e"
        "child (lm_heap p) root (unat a) = None" "next_level_ptr e = NullPtr" for e
      by (rule allocate_pd_new_root [OF inv root lev a b that])
  next
    fix e c assume e: "entry_of (lm_heap p) root (unat a) = Some e" "pte_is_present e"
      "next_level_ptr e = TablePtr c" "child (lm_heap p) root (unat a) = Some c"
      "tbl_at (lm_heap p) root ([] @ [unat a]) = Some c"
    show ?thesis
    proof (rule lm_inner_next [OF inv root e(5) l1 b])
      fix f assume f: "entry_of (lm_heap p) c (unat b) = Some f" "\<not> pte_is_present f"
        "child (lm_heap p) c (unat b) = None"
      have "lm_allocate_page_directory p a b =
          Inr (TablePtr (next_table (lm_heap p)), of_nat (missing (lm_heap p) root [unat a, unat b]),
               lm_link p [unat a] c b)"
        using e f root lm_link_code [OF inv root e(5) l1 b]
        by (simp add: lm_allocate_page_directory_def as_table_def lm_link_def)
      then show ?thesis
        by (rule lm_ensuredI) (use lm_link_facts [OF inv root e(5) l1 b f(3)] root in simp_all)
    next
      fix f d assume f: "entry_of (lm_heap p) c (unat b) = Some f" "pte_is_present f"
        "next_level_ptr f = TablePtr d" "child (lm_heap p) c (unat b) = Some d"
      have "lm_allocate_page_directory p a b =
          Inr (TablePtr d, of_nat (missing (lm_heap p) root [unat a, unat b]), p)"
        using e f root by (simp add: lm_allocate_page_directory_def as_table_def)
      then show ?thesis
        by (rule lm_ensuredI) (use inv root e f extends_refl [OF wf] in simp_all)
    qed
  qed
qed

lemma allocate_pt_new_root:
  assumes inv: "lm_inv p" and root: "lm_pml4 p = Some root" and mode: "lm_mode p = LongMode_Normal"
    and a: "unat a < 512" and b: "unat b < 512" and c: "unat c < 512"
    and e: "entry_of (lm_heap p) root (unat a) = Some e"
      "child (lm_heap p) root (unat a) = None" "next_level_ptr e = NullPtr"
  shows "lm_ensured p [unat a, unat b, unat c] (lm_allocate_page_table p a b c)"
proof -
  note at = tbl_at.simps(1) [of "lm_heap p" root]
  have lev: "lm_levels (lm_mode p) = 3" by (simp add: mode lm_levels_def)
  let ?p = "lm_link p [] root a" and ?t = "next_table (lm_heap p)"
  let ?q = "lm_link ?p [unat a] ?t b" and ?u = "next_table (lm_heap ?p)"
  have l: "length [] < lm_levels (lm_mode p)" "Suc (length []) < lm_levels (lm_mode p)"
    "length ([] @ [unat a]) < lm_levels (lm_mode ?p)" "Suc (length ([] @ [unat a])) < lm_levels (lm_mode ?p)"
    "length (([] @ [unat a]) @ [unat b]) < lm_levels (lm_mode ?q)"
    using lev by simp_all
  note one = lm_link_link [OF inv root at l(2) a e(2) b]
  note two = lm_link_link [OF one(1-3) l(4) b one(4) c]
  have "lm_allocate_page_table p a b c =
      Inr (TablePtr (next_table (lm_heap ?q)),
           of_nat (missing (lm_heap p) root [unat a, unat b, unat c]), lm_link ?q [unat a, unat b] ?u c)"
    using e root mode lm_link_code [OF inv root at l(1) a] one(5) two(5)
    by (simp add: lm_allocate_page_table_def) (simp add: lm_link_def)
  then show ?thesis
  proof (rule lm_ensuredI)
    have two3: "tbl_at (lm_heap ?q) root ([unat a, unat b]) = Some ?u"
      using two(3) by simp
    have l': "length [unat a, unat b] < lm_levels (lm_mode ?q)" using l(5) by simp
    have two1: "lm_inv ?q" "lm_pml4 ?q = Some root" "child (lm_heap ?q) ?u (unat c) = None"
      using two(1,2,4) by simp_all
    note last = lm_link_facts [OF two1(1,2) two3 l' c two1(3)]
    show "lm_inv (lm_link ?q [unat a, unat b] ?u c)" by (rule last(1))
    show "tbl_at (lm_heap (lm_link ?q [unat a, unat b] ?u c)) root [unat a, unat b, unat c] =
        Some (next_table (lm_heap ?q))" using last(3) by simp
    show "extends (lm_szs (lm_mode p)) root (lm_heap p) (lm_heap (lm_link ?q [unat a, unat b] ?u c))"
      using lm_link_facts(2) [OF inv root at l(1) a e(2)]
        lm_link_facts(2) [OF one(1-3) l(3) b one(4)] last(2)
      by (auto intro: extends_trans)
  qed (simp_all add: root)
qed


lemma allocate_pt_new_pd:
  assumes inv: "lm_inv p" and root: "lm_pml4 p = Some root" and mode: "lm_mode p = LongMode_Normal"
    and a: "unat a < 512" and b: "unat b < 512" and c: "unat c < 512"
    and e: "entry_of (lm_heap p) root (unat a) = Some e" "child (lm_heap p) root (unat a) = Some t"
      "next_level_ptr e = TablePtr t"
    and f: "entry_of (lm_heap p) t (unat b) = Some f" "child (lm_heap p) t (unat b) = None"
      "next_level_ptr f = NullPtr" "\<not> pte_is_present f"
  shows "lm_ensured p [unat a, unat b, unat c] (lm_allocate_page_table p a b c)"
proof -
  have at: "tbl_at (lm_heap p) root [unat a] = Some t"
    using e(2) by simp
  have l: "length [unat a] < lm_levels (lm_mode p)" "Suc (length [unat a]) < lm_levels (lm_mode p)"
    by (simp_all add: mode lm_levels_def)
  let ?p = "lm_link p [unat a] t b" and ?u = "next_table (lm_heap p)"
  note one = lm_link_link [OF inv root at l(2) b f(2) c]
  have pd: "lm_allocate_page_directory p a b = Inr (TablePtr ?u, 1, ?p)"
    using e f root lm_link_code [OF inv root at l(1) b]
    by (simp add: lm_allocate_page_directory_def as_table_def lm_link_def)
  obtain g where g: "entry_of (lm_heap ?p) t (unat b) = Some g" "next_level_ptr g = TablePtr ?u"
    by (rule lm_linked_entry [OF inv root at l(1) b f(2)])
  have "lm_allocate_page_table p a b c =
      Inr (TablePtr (next_table (lm_heap ?p)),
           of_nat (missing (lm_heap p) root [unat a, unat b, unat c]), lm_link ?p [unat a, unat b] ?u c)"
    using e f g root mode pd one(5)
    by (simp add: lm_allocate_page_table_def as_table_def) (simp add: lm_link_def)
  then show ?thesis
  proof (rule lm_ensuredI)
    have l': "length ([unat a] @ [unat b]) < lm_levels (lm_mode ?p)"
      by (simp add: mode lm_levels_def)
    note last = lm_link_facts [OF one(1-3) l' c one(4)]
    show "lm_inv (lm_link ?p [unat a, unat b] ?u c)"
      "tbl_at (lm_heap (lm_link ?p [unat a, unat b] ?u c)) root [unat a, unat b, unat c] =
        Some (next_table (lm_heap ?p))"
      using last(1,3) by simp_all
    show "extends (lm_szs (lm_mode p)) root (lm_heap p) (lm_heap (lm_link ?p [unat a, unat b] ?u c))"
      using lm_link_facts(2) [OF inv root at l(1) b f(2)] last(2) by (auto intro: extends_trans)
  qed (simp_all add: root)
qed

lemma allocate_pt_old_pd:
  assumes inv: "lm_inv p" and root: "lm_pml4 p = Some root" and mode: "lm_mode p = LongMode_Normal"
    and c: "unat c < 512"
    and e: "entry_of (lm_heap p) root (unat a) = Some e" "child (lm_heap p) root (unat a) = Some t"
      "next_level_ptr e = TablePtr t"
    and f: "entry_of (lm_heap p) t (unat b) = Some f" "child (lm_heap p) t (unat b) = Some u"
      "next_level_ptr f = TablePtr u"
  shows "lm_ensured p [unat a, unat b, unat c] (lm_allocate_page_table p a b c)"
proof -
  have at: "tbl_at (lm_heap p) root [unat a, unat b] = Some u"
    using e(2) f(2) by simp
  have l: "length [unat a, unat b] < lm_levels (lm_mode p)"
    by (simp add: mode lm_levels_def)
  have wf: "wf_tree (lm_szs (lm_mode p)) (lm_heap p) root"
    using inv root by (auto elim: lm_invE)
  show ?thesis
  proof (rule lm_inner_next [OF inv root at l c])
    fix g assume g: "entry_of (lm_heap p) u (unat c) = Some g" "\<not> pte_is_present g"
      "child (lm_heap p) u (unat c) = None"
    have "lm_allocate_page_table p a b c =
        Inr (TablePtr (next_table (lm_heap p)),
             of_nat (missing (lm_heap p) root [unat a, unat b, unat c]), lm_link p [unat a, unat b] u c)"
      using e f g root mode lm_link_code [OF inv root at l c]
      by (simp add: lm_allocate_page_table_def as_table_def lm_link_def)
    then show ?thesis
      by (rule lm_ensuredI) (use lm_link_facts [OF inv root at l c g(3)] root in simp_all)
  next
    fix g d assume g: "entry_of (lm_heap p) u (unat c) = Some g" "pte_is_present g"
      "next_level_ptr g = TablePtr d" "child (lm_heap p) u (unat c) = Some d"
    have "lm_allocate_page_table p a b c =
        Inr (TablePtr d, of_nat (missing (lm_heap p) root [unat a, unat b, unat c]), p)"
      using e f g root mode by (simp add: lm_allocate_page_table_def as_table_def)
    then show ?thesis
      by (rule lm_ensuredI) (use inv root e f g extends_refl [OF wf] in simp_all)
  qed
qed

lemma allocate_pt_ensured:
  assumes inv: "lm_inv p" and mode: "lm_mode p = LongMode_Normal"
    and a: "unat a < 512" and b: "unat b < 512" and c: "unat c < 512"
  shows "lm_ensured p [unat a, unat b, unat c] (lm_allocate_page_table p a b c)"
proof -
  obtain root where root: "lm_pml4 p = Some root"
    using inv by (elim lm_invE)
  have l: "length [] < lm_levels (lm_mode p)" "length ([] @ [unat a]) < lm_levels (lm_mode p)"
    by (simp_all add: mode lm_levels_def)
  show ?thesis
  proof (rule lm_inner_next [OF inv root tbl_at.simps(1) l(1) a])
    show ?thesis
      if "entry_of (lm_heap p) root (unat a) = Some e" "child (lm_heap p) root (unat a) = None"
        "next_level_ptr e = NullPtr" for e
      by (rule allocate_pt_new_root [OF inv root mode a b c that])
    show ?thesis
      if e: "entry_of (lm_heap p) root (unat a) = Some e" "child (lm_heap p) root (unat a) = Some t"
        "next_level_ptr e = TablePtr t" "tbl_at (lm_heap p) root ([] @ [unat a]) = Some t" for e t
      by (rule lm_inner_next [OF inv root e(4) l(2) b])
        (rule allocate_pt_new_pd [OF inv root mode a b c e(1-3)]
              allocate_pt_old_pd [OF inv root mode c e(1-3)]; assumption)+
  qed
qed


section \<open>Mapping a page\<close>

definition lm_root :: "LongModePaging \<Rightarrow> nat" where
  "lm_root p = the (lm_pml4 p)"

lemma lm_abs_alt:
  assumes "lm_pml4 p = Some root" "v < 512 ^ Suc (lm_levels (lm_mode p))"
  shows "lm_abs p v = map_option next_level_ptr (mapped (lm_heap p) root (lm_path (lm_mode p) v))"
  using assms by (simp add: lm_abs_def)

text \<open>Writing a leaf entry, seen through the abstraction.\<close>

lemma lm_put_leaf:
  assumes inv: "lm_inv p" and root: "lm_pml4 p = Some root" and v: "v < 512 ^ Suc (lm_levels (lm_mode p))"
    and path: "lm_path (lm_mode p) v = (q, i)" and at: "tbl_at (lm_heap p) root q = Some t"
    and e: "entry_ok False e"
  defines "p' \<equiv> p\<lparr>lm_heap := put_entry (lm_heap p) t i e\<rparr>"
  shows "lm_inv p'"
    and "lm_abs p' = (lm_abs p)(v := if pte_is_present e then Some (next_level_ptr e) else None)"
proof -
  have wf: "wf_tree (lm_szs (lm_mode p)) (lm_heap p) root" and counts: "lm_counts root p"
    and pos: "0 < lm_levels (lm_mode p)" and ng: "no_garbage (lm_heap p) root"
    using inv root by (auto elim: lm_invE)
  have q: "Suc (length q) = length (lm_szs (lm_mode p))" and i: "i < lm_szs (lm_mode p) ! length q"
    using path by (auto simp: lm_path_def)
  show "lm_inv p'"
    using put_leaf(1) [OF wf at q e] num_tables_put_leaf [OF wf at q e] counts pos root
      no_garbage_put_entry [OF ng put_leaf(2) [OF wf at q e]]
    by (simp add: lm_inv_def p'_def lm_counts_def)
  show "lm_abs p' = (lm_abs p)(v := if pte_is_present e then Some (next_level_ptr e) else None)"
  proof
    fix w
    show "lm_abs p' w = ((lm_abs p)(v := if pte_is_present e then Some (next_level_ptr e) else None)) w"
    proof (cases "w < 512 ^ Suc (lm_levels (lm_mode p))")
      case True
      obtain q' j where w: "lm_path (lm_mode p) w = (q', j)" by fastforce
      have "q' = q \<and> j = i \<longleftrightarrow> w = v"
        using lm_path_eq_iff [OF True v] path w by auto
      then show ?thesis
        using True root w by (simp add: lm_abs_def p'_def mapped_put_leaf [OF wf at q e i])
    next
      case False
      then show ?thesis using v by (auto simp: lm_abs_def p'_def)
    qed
  qed
qed

lemma lm_vpn_less: "lm_vpn mode addr < 512 ^ Suc (lm_levels mode)"
  by (simp add: lm_vpn_def)

lemma extends_abs:
  assumes "extends (lm_szs (lm_mode p)) root (lm_heap p) (lm_heap p')"
    and "lm_mode p' = lm_mode p" "lm_pml4 p = Some root" "lm_pml4 p' = Some root"
  shows "lm_abs p' = lm_abs p"
proof
  fix v
  obtain q j where "lm_path (lm_mode p) v = (q, j)" "Suc (length q) = length (lm_szs (lm_mode p))"
    by (simp add: lm_path_def)
  then show "lm_abs p' v = lm_abs p v"
    using assms by (simp add: lm_abs_def extends_def)
qed

lemma lm_map_leaf_ok:
  assumes ens: "lm_ensured p q r" and root: "lm_pml4 p = Some root" and ptr: "ptr_ok ptr b"
    and path: "lm_path (lm_mode p) v = (q, unat i)" and v: "v < 512 ^ Suc (lm_levels (lm_mode p))"
  obtains m p' where
    "bindE r (lm_map_leaf z ptr b i) =
       Inr (mem_access_time z * (1 + of_nat (missing (lm_heap p) root q)), m, p')"
    "lm_inv p'" "lm_mode p' = lm_mode p" "lm_pml4 p' = Some root" "lm_abs p' = (lm_abs p)(v \<mapsto> ptr)"
    "m = None \<longleftrightarrow> lm_abs p v \<noteq> None"
proof -
  obtain t p1 where r: "r = Inr (TablePtr t, of_nat (missing (lm_heap p) root q), p1)"
    and p1: "lm_inv p1" "lm_mode p1 = lm_mode p" "lm_pml4 p1 = Some root"
    and ext: "extends (lm_szs (lm_mode p)) root (lm_heap p) (lm_heap p1)"
    and at: "tbl_at (lm_heap p1) root q = Some t"
    using ens root by (auto simp: lm_ensured_def)
  have "wf_tree (lm_szs (lm_mode p)) (lm_heap p1) root"
    using ext by (simp add: extends_def)
  moreover have "unat i < lm_szs (lm_mode p) ! length q"
    using path by (auto simp: lm_path_def)
  ultimately obtain e where e: "entry_of (lm_heap p1) t (unat i) = Some e"
    using at by (elim wf_tree_entry)
  have abs: "lm_abs p v \<noteq> None \<longleftrightarrow> pte_is_present e"
    using extends_abs [OF ext p1(2) root p1(3)] lm_abs_alt [OF p1(3), of v] path v e at p1(2)
    by (simp add: mapped_def leaf_at_def split: if_splits)
  let ?p' = "p1\<lparr>lm_heap := put_entry (lm_heap p1) t (unat i) (validate ptr b e)\<rparr>"
  note put = lm_put_leaf [OF p1(1,3) _ _ at entry_ok_validate [OF ptr], of v "unat i" e]
  show thesis
  proof (rule that)
    show "bindE r (lm_map_leaf z ptr b i) =
        Inr (mem_access_time z * (1 + of_nat (missing (lm_heap p) root q)),
             if pte_is_present e then None else Some (t, i), ?p')"
      using e by (simp add: r lm_map_leaf_def as_table_def map_entry_def)
    show "lm_inv ?p'" "lm_abs ?p' = (lm_abs p)(v \<mapsto> ptr)"
      using put p1(2) v path extends_abs [OF ext p1(2) root p1(3)] by simp_all
  qed (use p1 abs in simp_all)
qed

text \<open>The assertion of \<open>allocate_page_directory_pointer\<close> bounds the 1GB mode.\<close>

definition lm_room :: "LongModePaging \<Rightarrow> bool" where
  "lm_room p \<longleftrightarrow> lm_mode p = LongMode_Huge \<longrightarrow> lm_cur_pdp_num p < 512"

lemma lm_map_ok:
  assumes inv: "lm_inv p" and root: "lm_pml4 p = Some root" and ptr: "ptr_ok ptr b"
    and room: "lm_room p"
    and v_def: "v = lm_vpn (lm_mode p) addr"
  obtains m p' where
    "lm_map_page_table z p addr ptr b =
       Inr (mem_access_time z * (1 + of_nat (missing (lm_heap p) root (fst (lm_path (lm_mode p) v)))), m, p')"
    "lm_inv p'" "lm_mode p' = lm_mode p" "lm_pml4 p' = Some root" "lm_abs p' = (lm_abs p)(v \<mapsto> ptr)"
    "m = None \<longleftrightarrow> lm_abs p v \<noteq> None"
proof -
  have pos: "0 < lm_levels (lm_mode p)"
    using inv by (auto elim: lm_invE)
  have v: "v < 512 ^ Suc (lm_levels (lm_mode p))"
    unfolding v_def by (rule lm_vpn_less)
  from pos show thesis
  proof (cases rule: lm_mode_cases)
    case 1
    note ens = allocate_pt_ensured [OF inv 1 offset_simps(8,7,6)]
    show thesis
      by (rule lm_map_leaf_ok [OF ens root ptr _ v, where i = "get_bit_value addr 12 20" and z = z])
        (use that 1 in
          \<open>simp_all add: v_def lm_path_domains lm_map_page_table_def get_domains_def\<close>)
  next
    case 2
    note ens = allocate_pd_ensured [OF inv offset_simps(8,7)]
    have lev: "1 < lm_levels (lm_mode p)" by (simp add: 2 lm_levels_def)
    show thesis
      by (rule lm_map_leaf_ok [OF ens [OF lev] root ptr _ v, where i = "get_bit_value addr 21 29" and z = z])
        (use that 2 in
          \<open>simp_all add: v_def lm_path_domains lm_map_page_table_def get_domains_def\<close>)
  next
    case 3
    note ens = allocate_pdp_ensured [OF inv offset_facts(2), of 47 39 addr, simplified]
    show thesis
      by (rule lm_map_leaf_ok [OF ens root ptr _ v, where i = "get_bit_value addr 30 38" and z = z])
        (use that 3 room [unfolded lm_room_def] in
          \<open>simp_all add: v_def lm_path_domains lm_map_page_table_def get_domains_def\<close>)
  qed
qed


section \<open>Access\<close>

text \<open>The walk of \<open>access\<close> reaches the leaf entry of the page.\<close>

lemma lm_walk_eq:
  assumes root: "lm_pml4 p = Some root" and pos: "0 < lm_levels (lm_mode p)"
    and path: "lm_path (lm_mode p) (lm_vpn (lm_mode p) (lineAddr req)) = (q, unat i)"
    and at: "tbl_at (lm_heap p) root q = Some t"
    and e: "entry_of (lm_heap p) t (unat i) = Some e"
  shows "lm_access_tables z p os req =
      (if next_level_ptr e = NullPtr
       then Inr (PAGE_FAULT_SIG,
         add_cycles req (mem_access_time z * (3 + of_nat (lm_levels (lm_mode p)))), lm_heap p, os)
       else finish_access z os (lm_heap p)
         (add_cycles req (mem_access_time z * (3 + of_nat (lm_levels (lm_mode p)))))
         (Some t) (next_level_ptr e) i (point_buffer_page e))"
proof -
  let ?a = "get_bit_value (lineAddr req) 39 47" and ?b = "get_bit_value (lineAddr req) 30 38"
  let ?c = "get_bit_value (lineAddr req) 21 29" and ?d = "get_bit_value (lineAddr req) 12 20"
  from pos show ?thesis
  proof (cases rule: lm_mode_cases)
    case 1
    then have q: "q = [unat ?a, unat ?b, unat ?c]" and i: "i = ?d"
      using path by (auto simp: lm_path_domains word_unat_eq_iff)
    obtain u w where c: "child (lm_heap p) root (unat ?a) = Some u"
      "child (lm_heap p) u (unat ?b) = Some w" "child (lm_heap p) w (unat ?c) = Some t"
      using at by (auto simp: q bind_eq_Some_conv)
    show ?thesis
      by (rule child_entry [OF c(1)], rule child_entry [OF c(2)], rule child_entry [OF c(3)])
        (use root 1 e in \<open>simp add: lm_access_tables_def get_domains_def as_table_def lm_levels_def i Let_def\<close>)
  next
    case 2
    then have q: "q = [unat ?a, unat ?b]" and i: "i = ?c"
      using path by (auto simp: lm_path_domains word_unat_eq_iff)
    obtain u where c: "child (lm_heap p) root (unat ?a) = Some u" "child (lm_heap p) u (unat ?b) = Some t"
      using at by (auto simp: q bind_eq_Some_conv)
    show ?thesis
      by (rule child_entry [OF c(1)], rule child_entry [OF c(2)])
        (use root 2 e in \<open>simp add: lm_access_tables_def get_domains_def as_table_def lm_levels_def i Let_def\<close>)
  next
    case 3
    then have q: "q = [unat ?a]" and i: "i = ?b"
      using path by (auto simp: lm_path_domains word_unat_eq_iff)
    have c: "child (lm_heap p) root (unat ?a) = Some t"
      using at by (auto simp: q bind_eq_Some_conv)
    show ?thesis
      by (rule child_entry [OF c])
        (use root 3 e in \<open>simp add: lm_access_tables_def get_domains_def as_table_def lm_levels_def i Let_def\<close>)
  qed
qed

lemma lm_walk_stops:
  assumes inv: "lm_inv p" and root: "lm_pml4 p = Some root"
    and path: "lm_path (lm_mode p) (lm_vpn (lm_mode p) (lineAddr req)) = (q, j)"
    and at: "tbl_at (lm_heap p) root q = None"
  shows "\<exists>lat. lm_access_tables z p os req = Inr (PAGE_FAULT_SIG, add_cycles req lat, lm_heap p, os)"
proof -
  let ?a = "get_bit_value (lineAddr req) 39 47" and ?b = "get_bit_value (lineAddr req) 30 38"
  let ?c = "get_bit_value (lineAddr req) 21 29"
  note defs = lm_access_tables_def get_domains_def as_table_def Let_def
  have less: "unat ?a < 512" "unat ?b < 512" "unat ?c < 512"
    by simp_all
  have pos: "0 < lm_levels (lm_mode p)"
    using inv by (auto elim: lm_invE)
  have l0: "length [] < lm_levels (lm_mode p)" using pos by simp
  have stop: "\<exists>lat. Inr (PAGE_FAULT_SIG, req, lm_heap p, os) =
      Inr (PAGE_FAULT_SIG, add_cycles req lat, lm_heap p, os)"
    by (rule exI [of _ 0]) (simp add: add_cycles_0)
  show ?thesis
  proof (rule lm_inner_next [OF inv root tbl_at.simps(1) l0 less(1)])
    fix e assume e: "entry_of (lm_heap p) root (unat ?a) = Some e" "next_level_ptr e = NullPtr"
    from pos show ?thesis
      using e stop root by (cases rule: lm_mode_cases) (simp_all add: defs)
  next
    fix e u assume e: "entry_of (lm_heap p) root (unat ?a) = Some e" "next_level_ptr e = TablePtr u"
      "tbl_at (lm_heap p) root ([] @ [unat ?a]) = Some u" "child (lm_heap p) root (unat ?a) = Some u"
    from pos have l1: "length ([] @ [unat ?a]) < lm_levels (lm_mode p)"
      using at path e by (cases rule: lm_mode_cases) (simp_all add: lm_path_domains lm_levels_def)
    show ?thesis
    proof (rule lm_inner_next [OF inv root e(3) l1 less(2)])
      fix f assume f: "entry_of (lm_heap p) u (unat ?b) = Some f" "next_level_ptr f = NullPtr"
      from pos show ?thesis
        using e f l1 stop root by (cases rule: lm_mode_cases) (simp_all add: defs lm_levels_def)
    next
      fix f w assume f: "entry_of (lm_heap p) u (unat ?b) = Some f" "next_level_ptr f = TablePtr w"
        "tbl_at (lm_heap p) root (([] @ [unat ?a]) @ [unat ?b]) = Some w"
        "child (lm_heap p) u (unat ?b) = Some w"
      have mode: "lm_mode p = LongMode_Normal"
        using pos at path e(4) f(4) l1
        by (cases rule: lm_mode_cases) (auto simp: lm_path_domains lm_levels_def)
      then have l2: "length (([] @ [unat ?a]) @ [unat ?b]) < lm_levels (lm_mode p)"
        by (simp add: lm_levels_def)
      show ?thesis
      proof (rule lm_inner_next [OF inv root f(3) l2 less(3)])
        fix g assume "entry_of (lm_heap p) w (unat ?c) = Some g" "next_level_ptr g = NullPtr"
        with e f show ?thesis
          using root by (auto simp: defs mode)
      next
        fix g t assume "child (lm_heap p) w (unat ?c) = Some t"
        with e f at path show ?thesis by (auto simp: mode lm_path_domains)
      qed
    qed
  qed
qed


lemma lm_path_snd:
  assumes "lm_path mode v = (q, j)"
  obtains i :: u32 where "j = unat i" "unat i < 512" "length q = lm_levels mode"
proof (rule that)
  show "j = unat (of_nat j :: u32)" "unat (of_nat j :: u32) < 512" "length q = lm_levels mode"
    using assms by (auto simp: lm_path_def unsigned_of_nat take_bit_nat_eq_self)
qed

lemma lm_access_miss:
  assumes inv: "lm_inv p" and v: "v = lm_vpn (lm_mode p) (lineAddr req)" and none: "lm_abs p v = None"
  shows "\<exists>lat. lm_access z p os req = Inr (PAGE_FAULT_SIG, add_cycles req lat, p, os)"
proof -
  obtain root where root: "lm_pml4 p = Some root"
    and wf: "wf_tree (lm_szs (lm_mode p)) (lm_heap p) root" and pos: "0 < lm_levels (lm_mode p)"
    using inv by (elim lm_invE)
  obtain q j where path: "lm_path (lm_mode p) v = (q, j)" by fastforce
  obtain i :: u32 where i: "j = unat i" "unat i < 512" "length q = lm_levels (lm_mode p)"
    using path by (rule lm_path_snd)
  have "\<exists>lat. lm_access_tables z p os req = Inr (PAGE_FAULT_SIG, add_cycles req lat, lm_heap p, os)"
  proof (cases "tbl_at (lm_heap p) root q")
    case None
    then show ?thesis using lm_walk_stops [OF inv root] path v by simp
  next
    case (Some t)
    obtain e where e: "entry_of (lm_heap p) t (unat i) = Some e" "entry_ok False e"
      using wf_tree_entry [OF wf Some, of "unat i"] i by auto
    have "next_level_ptr e = NullPtr"
      using none lm_abs_alt [OF root, of v] v lm_vpn_less path Some e i(1)
      by (auto simp: mapped_def leaf_at_def entry_ok_def split: if_splits)
    then show ?thesis
      using lm_walk_eq [OF root pos _ Some e(1)] path v i(1) by auto
  qed
  then show ?thesis by (auto simp: lm_access_def)
qed

lemma lm_access_hit:
  assumes inv: "lm_inv p" and v: "v = lm_vpn (lm_mode p) (lineAddr req)"
    and some: "lm_abs p v = Some ptr" and obj: "obj_addr z os ptr = Some ppn"
  obtains req' p' os' where "lm_access z p os req = Inr (ppn, req', p', os')"
    "lm_inv p'" "lm_mode p' = lm_mode p" "lm_pml4 p' = lm_pml4 p" "lm_abs p' = lm_abs p"
    "obj_addr z os' = obj_addr z os" "lineAddr req' = lineAddr req"
    "cycle req' = cycle req + ucast (mem_access_time z * (3 + of_nat (lm_levels (lm_mode p))))"
proof -
  obtain root where root: "lm_pml4 p = Some root"
    and wf: "wf_tree (lm_szs (lm_mode p)) (lm_heap p) root" and pos: "0 < lm_levels (lm_mode p)"
    using inv by (elim lm_invE)
  obtain q j where path: "lm_path (lm_mode p) v = (q, j)" by fastforce
  obtain i :: u32 where i: "j = unat i" "unat i < 512" "length q = lm_levels (lm_mode p)"
    using path by (rule lm_path_snd)
  have v': "v < 512 ^ Suc (lm_levels (lm_mode p))"
    unfolding v by (rule lm_vpn_less)
  then obtain t e where at: "tbl_at (lm_heap p) root q = Some t"
    and e: "entry_of (lm_heap p) t (unat i) = Some e" "pte_is_present e" "ptr = next_level_ptr e"
    using some lm_abs_alt [OF root v'] path i(1)
    by (auto simp: mapped_def leaf_at_def bind_eq_Some_conv split: option.splits if_splits)
  have ok: "entry_ok False e"
    using wf_tree_entry_range(2) [OF wf at e(1)] i(3) by simp
  then have nonnull: "next_level_ptr e \<noteq> NullPtr"
    using e(2) by (simp add: entry_ok_def)
  let ?req = "add_cycles req (mem_access_time z * (3 + of_nat (lm_levels (lm_mode p))))"
  obtain req' e' os' where fin:
    "finish_access z os (lm_heap p) ?req (Some t) (next_level_ptr e) i (point_buffer_page e) =
       Inr (ppn, req', put_entry (lm_heap p) t (unat i) e', os')"
    and e': "e' = e \<or> e' = pte_set_dirty e" and os': "obj_addr z os' = obj_addr z os"
    and req': "lineAddr req' = lineAddr ?req" "cycle req' = cycle ?req"
    using obj e(3) by (auto intro: finish_access_ok [OF e(1) ok, where req = ?req] simp del: add_cycles_simps)
  have "lm_access z p os req = Inr (ppn, req', p\<lparr>lm_heap := put_entry (lm_heap p) t (unat i) e'\<rparr>, os')"
    using lm_walk_eq [OF root pos _ at e(1), of req] path v i(1) nonnull fin by (simp add: lm_access_def)
  moreover have "entry_ok False e'" and "pte_is_present e'" "next_level_ptr e' = ptr"
    using ok e e' by auto
  moreover have "(lm_abs p)(v \<mapsto> ptr) = lm_abs p"
    using some by (simp add: fun_upd_idem)
  ultimately show thesis
    using that lm_put_leaf [OF inv root v' _ at, of "unat i" e'] path i(1) os' req' root
    by (auto simp: add_cycles_def)
qed


section \<open>Unmapping\<close>

lemma lm_unmap_walk:
  assumes root: "lm_pml4 p = Some root" and pos: "0 < lm_levels (lm_mode p)"
    and path: "lm_path (lm_mode p) (lm_vpn (lm_mode p) addr) = (q, unat (i :: u32))"
    and at: "tbl_at (lm_heap p) root q = Some t" and e: "entry_of (lm_heap p) t (unat i) = Some e"
  shows "lm_unmap_page_table p addr =
    Inr (False, p\<lparr>lm_heap := if pte_is_present e
      then put_entry (lm_heap p) t (unat i) BasePDTEntry_new else lm_heap p\<rparr>)"
proof -
  let ?a = "get_bit_value addr 39 47" and ?b = "get_bit_value addr 30 38"
  let ?c = "get_bit_value addr 21 29" and ?d = "get_bit_value addr 12 20"
  note defs = lm_unmap_page_table_def lm_get_tables_def get_domains_def as_table_def Let_def
  from pos show ?thesis
  proof (cases rule: lm_mode_cases)
    case 1
    then have q: "q = [unat ?a, unat ?b, unat ?c]" and i: "i = ?d"
      using path by (auto simp: lm_path_domains word_unat_eq_iff)
    obtain u w where c: "child (lm_heap p) root (unat ?a) = Some u"
      "child (lm_heap p) u (unat ?b) = Some w" "child (lm_heap p) w (unat ?c) = Some t"
      using at by (auto simp: q bind_eq_Some_conv)
    show ?thesis
      by (rule child_entry [OF c(1)], rule child_entry [OF c(2)], rule child_entry [OF c(3)])
        (use root 1 e in \<open>simp add: defs i\<close>)
  next
    case 2
    then have q: "q = [unat ?a, unat ?b]" and i: "i = ?c"
      using path by (auto simp: lm_path_domains word_unat_eq_iff)
    obtain u where c: "child (lm_heap p) root (unat ?a) = Some u" "child (lm_heap p) u (unat ?b) = Some t"
      using at by (auto simp: q bind_eq_Some_conv)
    show ?thesis
      by (rule child_entry [OF c(1)], rule child_entry [OF c(2)]) (use root 2 e in \<open>simp add: defs i\<close>)
  next
    case 3
    then have q: "q = [unat ?a]" and i: "i = ?b"
      using path by (auto simp: lm_path_domains word_unat_eq_iff)
    have c: "child (lm_heap p) root (unat ?a) = Some t"
      using at by (auto simp: q bind_eq_Some_conv)
    show ?thesis
      by (rule child_entry [OF c]) (use root 3 e in \<open>simp add: defs i\<close>)
  qed
qed

lemma lm_unmap_ok:
  assumes inv: "lm_inv p" and v: "v = lm_vpn (lm_mode p) addr" and some: "lm_abs p v = Some ptr"
  obtains p' where "lm_unmap_page_table p addr = Inr (False, p')" "lm_inv p'" "lm_mode p' = lm_mode p"
    "lm_pml4 p' = lm_pml4 p" "lm_abs p' = (lm_abs p)(v := None)"
proof -
  obtain root where root: "lm_pml4 p = Some root" and pos: "0 < lm_levels (lm_mode p)"
    using inv by (elim lm_invE)
  obtain q j where path: "lm_path (lm_mode p) v = (q, j)" by fastforce
  obtain i :: u32 where i: "j = unat i"
    using path by (rule lm_path_snd)
  have v': "v < 512 ^ Suc (lm_levels (lm_mode p))"
    unfolding v by (rule lm_vpn_less)
  then obtain t e where at: "tbl_at (lm_heap p) root q = Some t"
    and e: "entry_of (lm_heap p) t (unat i) = Some e" "pte_is_present e"
    using some lm_abs_alt [OF root v'] path i
    by (auto simp: mapped_def leaf_at_def bind_eq_Some_conv split: option.splits if_splits)
  let ?p' = "p\<lparr>lm_heap := put_entry (lm_heap p) t (unat i) BasePDTEntry_new\<rparr>"
  have "lm_unmap_page_table p addr = Inr (False, ?p')"
    using lm_unmap_walk [OF root pos _ at e(1)] path v i e(2) by simp
  then show thesis
    using that lm_put_leaf [OF inv root v' _ at, of "unat i" BasePDTEntry_new] path i by auto
qed

text \<open>
  \<open>get_tables\<close> does not test the first pointer: with 4KB and 2MB pages, unmapping an address
  below a pml4 entry that is not present dereferences a null pointer.
\<close>

lemma lm_unmap_null:
  assumes inv: "lm_inv p" and root: "lm_pml4 p = Some root" and mode: "lm_mode p \<noteq> LongMode_Huge"
    and none: "child (lm_heap p) root (unat (get_bit_value addr 39 47)) = None"
  shows "lm_unmap_page_table p addr = Inl Null_deref"
proof -
  have pos: "0 < lm_levels (lm_mode p)" and l0: "length [] < lm_levels (lm_mode p)"
    using inv by (auto elim: lm_invE)
  show ?thesis
  proof (rule lm_inner_next [OF inv root tbl_at.simps(1) l0 offset_simps(8)])
    fix e assume e: "entry_of (lm_heap p) root (unat (get_bit_value addr 39 47)) = Some e"
      "next_level_ptr e = NullPtr"
    from pos show ?thesis
      using e mode root
      by (cases rule: lm_mode_cases)
        (simp_all add: lm_unmap_page_table_def lm_get_tables_def get_domains_def as_table_def Let_def
          numeral_2_eq_2 numeral_3_eq_3)
  qed (use none in simp)
qed

section \<open>A new paging object\<close>

lemma LongModePaging_new_ok:
  assumes "block_size z \<noteq> 0" and lev: "0 < lm_levels mode"
  obtains p z' where "LongModePaging_new z mode = Inr (p, z')" "lm_inv p" "lm_mode p = mode"
    "lm_abs p = (\<lambda>_. None)" "\<And>i. child (lm_heap p) (lm_root p) i = None" "page_size z' = 2 ^ lm_shift mode" "page_shift z' = lm_shift mode"
    "block_size z' = block_size z" "block_shift z' = block_shift z"
proof -
  obtain root hp where new: "PageTable_new 512 empty_heap = Inr (root, hp)"
    by simp
  have pow: "power_rec 2 10 = Some (2 ^ 10)" "power_rec 2 20 = Some (2 ^ 20)" "power_rec 2 30 = Some (2 ^ 30)"
    using power_rec_pos [of 10 2] power_rec_pos [of 20 2] power_rec_pos [of 30 2] by simp_all
  let ?z = "z\<lparr>page_size := 2 ^ lm_shift mode, page_shift := lm_shift mode\<rparr>"
  have bs: "(ucast (block_size z) :: u64) \<noteq> 0"
    using assms(1) by simp
  obtain p where p: "LongModePaging_new z mode = Inr (p, ?z)"
    "lm_heap p = hp" "lm_pml4 p = Some root" "lm_mode p = mode"
    "lm_cur_pdp_num p = 0" "lm_cur_pd_num p = 0" "lm_cur_pt_num p = 0"
    using lev bs new
    by (cases rule: lm_mode_cases) (simp_all add: LongModePaging_new_def pow divE_def lm_shift_def del: PageTable_new_eq)
  have wf: "wf_tree (lm_szs mode) hp root"
    by (rule wf_tree_single(1) [OF new]) (simp_all add: lm_szs_def)
  then have "lm_inv p"
    using p lev num_tables_single [OF new] wf_tree_single(4) [OF new, of "[512]"]
    by (simp add: lm_inv_def lm_counts_def)
  moreover have "lm_abs p = (\<lambda>_. None)"
    using wf_tree_single(3) [OF new, of "[512]"] p by (intro ext) (simp add: lm_abs_def lm_path_def)
  moreover have "child (lm_heap p) (lm_root p) i = None" for i
    using wf_tree_single(2) [OF new, of "[512]" "[i]"] p by (simp add: lm_root_def split: bind_splits)
  ultimately show thesis
    using that p by simp
qed

section \<open>Removing tables\<close>

text \<open>\<open>p'\<close> is \<open>p\<close> without the subtrees at the paths \<open>Q\<close>.\<close>

definition lm_pruned :: "nat list set \<Rightarrow> LongModePaging \<Rightarrow> LongModePaging \<Rightarrow> bool" where
  "lm_pruned Q p p' \<longleftrightarrow>
     lm_inv p' \<and> lm_mode p' = lm_mode p \<and> lm_pml4 p' = lm_pml4 p \<and>
     (\<forall>r. tbl_at (lm_heap p') (lm_root p) r =
        (if \<exists>s\<in>Q. prefix s r then None else tbl_at (lm_heap p) (lm_root p) r)) \<and>
     (\<forall>r j. length r = lm_levels (lm_mode p) \<longrightarrow> mapped (lm_heap p') (lm_root p) (r, j) =
        (if \<exists>s\<in>Q. prefix s r then None else mapped (lm_heap p) (lm_root p) (r, j)))"

lemma lm_root_eq [simp]: "lm_pml4 p = Some root \<Longrightarrow> lm_root p = root"
  by (simp add: lm_root_def)

lemma lm_prunedD:
  assumes "lm_pruned Q p p'"
  shows "lm_inv p'" "lm_mode p' = lm_mode p" "lm_pml4 p' = lm_pml4 p" "lm_root p' = lm_root p"
    and "tbl_at (lm_heap p') (lm_root p) r =
      (if \<exists>s\<in>Q. prefix s r then None else tbl_at (lm_heap p) (lm_root p) r)"
  using assms by (simp_all add: lm_pruned_def lm_root_def)

lemma lm_pruned_trans: "lm_pruned Q p p' \<Longrightarrow> lm_pruned R p' p'' \<Longrightarrow> lm_pruned (Q \<union> R) p p''"
  unfolding lm_pruned_def by (auto simp: lm_root_def)

lemma lm_pruned_absorb:
  assumes "lm_pruned (Q \<union> {s}) p p'" and "\<And>r. r \<in> Q \<Longrightarrow> prefix s r"
  shows "lm_pruned {s} p p'"
proof -
  have "(\<exists>r \<in> Q \<union> {s}. prefix r x) \<longleftrightarrow> prefix s x" for x
    using assms(2) prefix_order.trans by blast
  then show ?thesis
    using assms(1) unfolding lm_pruned_def by simp
qed

text \<open>Removing a subtree that is not there.\<close>

lemma lm_pruned_absent:
  assumes "lm_inv p" "tbl_at (lm_heap p) (lm_root p) s = None"
  shows "lm_pruned {s} p p"
proof -
  have "mapped (lm_heap p) (lm_root p) (r, j) = None" if "prefix s r" for r j
    using tbl_at_prefix_None [OF assms(2) that] by (simp add: mapped_def leaf_at_def)
  then show ?thesis
    using assms tbl_at_prefix_None by (simp add: lm_pruned_def)
qed

lemma lm_pruned_empty: "lm_inv p \<Longrightarrow> lm_pruned {} p p"
  by (simp add: lm_pruned_def)

text \<open>Removing a table without children.\<close>

definition lm_cut :: "LongModePaging \<Rightarrow> nat list \<Rightarrow> nat \<Rightarrow> nat \<Rightarrow> nat \<Rightarrow> LongModePaging" where
  "lm_cut p q t i c =
     p\<lparr>lm_heap := cut_table (lm_heap p) t i c,
       lm_cur_pdp_num := lm_cur_pdp_num p - (if length q = 0 then 1 else 0),
       lm_cur_pd_num := lm_cur_pd_num p - (if length q = 1 then 1 else 0),
       lm_cur_pt_num := lm_cur_pt_num p - (if length q = 2 then 1 else 0)\<rparr>"

lemma lm_cut_inv:
  assumes inv: "lm_inv p" and root: "lm_pml4 p = Some root"
    and at: "tbl_at (lm_heap p) root q = Some t" and c: "child (lm_heap p) t i = Some c"
    and leaf: "\<And>j. child (lm_heap p) c j = None"
  shows "lm_inv (lm_cut p q t i c)"
proof -
  have wf: "wf_tree (lm_szs (lm_mode p)) (lm_heap p) root" and counts: "lm_counts root p"
    and pos: "0 < lm_levels (lm_mode p)" and ng: "no_garbage (lm_heap p) root"
    using inv root by (auto elim: lm_invE)
  have n: "0 < num_tables (lm_heap p) root (Suc (length q))"
    using num_tables_pos [OF wf cut_table_distinct(2) [OF wf at c]] by simp
  have minus: "(of_nat (m - Suc 0) :: u32) = of_nat m - 1" if "0 < m" for m
    using that by (simp add: of_nat_diff)
  have "lm_counts root (lm_cut p q t i c)"
    using counts n
    by (auto simp: lm_counts_def lm_cut_def num_tables_cut [OF wf at c leaf] minus numeral_2_eq_2 numeral_3_eq_3)
  then show ?thesis
    using wf_cut [OF wf at c] no_garbage_cut [OF wf at c leaf ng] pos root
    by (simp add: lm_inv_def lm_cut_def)
qed

lemma lm_cut_pruned:
  assumes inv: "lm_inv p" and root: "lm_pml4 p = Some root"
    and at: "tbl_at (lm_heap p) root q = Some t" and c: "child (lm_heap p) t i = Some c"
    and leaf: "\<And>j. child (lm_heap p) c j = None"
  shows "lm_pruned {q @ [i]} p (lm_cut p q t i c)"
proof -
  have wf: "wf_tree (lm_szs (lm_mode p)) (lm_heap p) root"
    using inv root by (auto elim: lm_invE)
  have "mapped (lm_heap (lm_cut p q t i c)) root (r, j) =
      (if prefix (q @ [i]) r then None else mapped (lm_heap p) root (r, j))"
    if "length r = lm_levels (lm_mode p)" for r j
    using leaf_cut [OF wf at c, of r j] that by (simp add: mapped_def lm_cut_def)
  then show ?thesis
    using lm_cut_inv [OF assms] tbl_at_cut [OF wf at c] root
    by (simp add: lm_pruned_def) (simp add: lm_cut_def)
qed

lemma lm_cut_code:
  assumes inv: "lm_inv p" and root: "lm_pml4 p = Some root"
    and at: "tbl_at (lm_heap p) root q = Some t" and c: "child (lm_heap p) t (unat i) = Some c"
  shows "invalidate_entry (lm_heap p) t i = Inr (cut_table (lm_heap p) t (unat i) c)"
proof -
  have wf: "wf_tree (lm_szs (lm_mode p)) (lm_heap p) root"
    using inv root by (auto elim: lm_invE)
  obtain e where e: "entry_of (lm_heap p) t (unat i) = Some e" "next_level_ptr e = TablePtr c"
    by (rule child_entry [OF c])
  moreover have "pte_is_present e"
    using wf_tree_entry_range(2) [OF wf at e(1)] e(2) by (simp add: entry_ok_def)
  ultimately show ?thesis
    using cut_table_distinct(1) [OF wf at c] by simp
qed


lemma leaf_table_childless:
  assumes inv: "lm_inv p" and root: "lm_pml4 p = Some root"
    and at: "tbl_at (lm_heap p) root q = Some c" and len: "length q = lm_levels (lm_mode p)"
  shows "child (lm_heap p) c j = None"
proof (rule ccontr)
  have wf: "wf_tree (lm_szs (lm_mode p)) (lm_heap p) root"
    using inv root by (auto elim: lm_invE)
  assume "child (lm_heap p) c j \<noteq> None"
  then obtain d where "tbl_at (lm_heap p) root (q @ [j]) = Some d"
    using at by (auto simp: tbl_at_snoc)
  from wf_tree_level [OF wf this] len show False by simp
qed

lemma remove_page_table_ok:
  assumes inv: "lm_inv p" and mode: "lm_mode p = LongMode_Normal"
    and a: "unat a < 512" and b: "unat b < 512" and c: "unat c < 512"
  obtains p' where "lm_remove_page_table p a b c = Inr (True, p')"
    "lm_pruned {[unat a, unat b, unat c]} p p'"
proof -
  obtain root where root: "lm_pml4 p = Some root"
    using inv by (elim lm_invE)
  have lev: "lm_levels (lm_mode p) = 3"
    by (simp add: mode lm_levels_def)
  have l: "length [] < lm_levels (lm_mode p)" "length ([] @ [unat a]) < lm_levels (lm_mode p)"
    "length (([] @ [unat a]) @ [unat b]) < lm_levels (lm_mode p)"
    using lev by simp_all
  note defs = lm_remove_page_table_def as_table_def and result = that
  have absent: thesis
    if "lm_remove_page_table p a b c = Inr (True, p)"
      "tbl_at (lm_heap p) root [unat a, unat b, unat c] = None"
    using that by (intro result [of p]) (simp_all add: lm_pruned_absent inv root)
  show thesis
  proof (rule lm_inner_next [OF inv root tbl_at.simps(1) l(1) a])
    fix e assume "entry_of (lm_heap p) root (unat a) = Some e" "next_level_ptr e = NullPtr"
      "child (lm_heap p) root (unat a) = None"
    then show thesis by (intro absent) (simp_all add: defs mode root)
  next
    fix e t assume e: "entry_of (lm_heap p) root (unat a) = Some e" "next_level_ptr e = TablePtr t"
      "child (lm_heap p) root (unat a) = Some t" "tbl_at (lm_heap p) root ([] @ [unat a]) = Some t"
    show thesis
    proof (rule lm_inner_next [OF inv root e(4) l(2) b])
      fix f assume "entry_of (lm_heap p) t (unat b) = Some f" "next_level_ptr f = NullPtr"
        "child (lm_heap p) t (unat b) = None"
      with e show thesis by (intro absent) (simp_all add: defs mode root)
    next
      fix f u assume f: "entry_of (lm_heap p) t (unat b) = Some f" "next_level_ptr f = TablePtr u"
        "child (lm_heap p) t (unat b) = Some u" "tbl_at (lm_heap p) root (([] @ [unat a]) @ [unat b]) = Some u"
      show thesis
      proof (rule lm_inner_next [OF inv root f(4) l(3) c])
        fix g assume "entry_of (lm_heap p) u (unat c) = Some g" "next_level_ptr g = NullPtr"
          "child (lm_heap p) u (unat c) = None"
        with e f show thesis by (intro absent) (simp_all add: defs mode root)
      next
        fix g w assume g: "entry_of (lm_heap p) u (unat c) = Some g" "next_level_ptr g = TablePtr w"
          "child (lm_heap p) u (unat c) = Some w"
          "tbl_at (lm_heap p) root ((([] @ [unat a]) @ [unat b]) @ [unat c]) = Some w"
        have "lm_remove_page_table p a b c = Inr (True, lm_cut p [unat a, unat b] u (unat c) w)"
          using e f g lm_cut_code [OF inv root f(4) g(3)] by (simp add: defs mode root lm_cut_def)
        moreover have "child (lm_heap p) w j = None" for j
          by (rule leaf_table_childless [OF inv root g(4)]) (simp add: lev)
        ultimately show thesis
          using that lm_cut_pruned [OF inv root f(4) g(3)] by simp
      qed
    qed
  qed
qed

text \<open>The loop that removes all children of a table.\<close>

lemma some_index: "(\<forall>i. \<not> i < (512 :: nat)) \<longleftrightarrow> False"
  by (auto intro: exI [of _ 0])

lemma prune_loop:
  assumes inv: "lm_inv p" and root: "lm_pml4 p = Some root"
    and at: "tbl_at (lm_heap p) root q = Some t"
    and step: "\<And>p' i. \<lbrakk>lm_inv p'; lm_mode p' = lm_mode p; lm_pml4 p' = Some root;
      tbl_at (lm_heap p') root q = Some t; unat i < 512\<rbrakk> \<Longrightarrow>
      \<exists>p''. body i (w p') = Inr (w p'') \<and> lm_pruned {q @ [unat i]} p' p''"
  obtains p' where "foldE body (upto_u32 512) (w p) = Inr (w p')"
    "lm_pruned {q @ [i] | i. i < 512} p p'"
proof -
  let ?I = "\<lambda>seen s. \<exists>p'. s = w p' \<and> lm_pruned ((\<lambda>i. q @ [unat i]) ` set seen) p p'"
  have "\<exists>s'. foldE body (upto_u32 512) (w p) = Inr s' \<and> ?I (upto_u32 512) s'"
  proof (rule foldE_invariant [where A = "{i. i < 512}"])
    show "?I [] (w p)"
      using lm_pruned_empty [OF inv] by auto
    show "set (upto_u32 512) \<subseteq> {i. i < 512}"
      by (simp add: set_upto_u32)
    fix i :: u32 and seen :: "u32 list" and s
    assume i: "i \<in> {i. i < 512}" and "?I seen s"
    then obtain p' where s: "s = w p'" and pr: "lm_pruned ((\<lambda>i. q @ [unat i]) ` set seen) p p'"
      by blast
    have "\<not> (\<exists>r \<in> (\<lambda>i. q @ [unat i]) ` set seen. prefix r q)"
      by (auto dest: prefix_length_le)
    then have "tbl_at (lm_heap p') root q = Some t"
      using lm_prunedD(5) [OF pr, of q] root at by simp
    moreover have "unat i < 512"
      using i by (simp add: word_less_nat_alt)
    ultimately obtain p'' where p'': "body i (w p') = Inr (w p'')" "lm_pruned {q @ [unat i]} p' p''"
      using step [of p' i] lm_prunedD(1-3) [OF pr] root by auto
    have "lm_pruned ((\<lambda>i. q @ [unat i]) ` set (seen @ [i])) p p''"
      using lm_pruned_trans [OF pr p''(2)] by simp
    then show "\<exists>s'. body i s = Inr s' \<and> ?I (seen @ [i]) s'"
      using p''(1) s by blast
  qed
  moreover have "(\<lambda>i. q @ [unat i]) ` set (upto_u32 512) = {q @ [i] | i. i < 512}"
  proof -
    have "\<exists>j :: u32. unat j = i \<and> j < 512" if "i < 512" for i
      using that by (intro exI [of _ "of_nat i"])
        (simp add: word_less_nat_alt unsigned_of_nat take_bit_nat_eq_self)
    then show ?thesis
      by (auto simp: set_upto_u32 word_less_nat_alt image_iff)
  qed
  ultimately show thesis
    using that by auto
qed

lemma child_present:
  assumes "lm_inv p" "lm_pml4 p = Some root" "tbl_at (lm_heap p) root q = Some t"
    and "length q < lm_levels (lm_mode p)" "unat i < 512"
  shows "is_present (lm_heap p) t i = Inr (child (lm_heap p) t (unat i) \<noteq> None)"
  by (rule lm_inner_next [OF assms]) simp_all

lemma pruned_children:
  assumes pr: "lm_pruned {q @ [i] | i. i < 512} p p'" and root: "lm_pml4 p = Some root"
    and at: "tbl_at (lm_heap p) root q = Some t"
  shows "tbl_at (lm_heap p') root q = Some t" "child (lm_heap p') t j = None"
proof -
  have "\<not> (\<exists>r \<in> {q @ [i] | i. i < 512}. prefix r q)"
    by (auto dest: prefix_length_le)
  then show at': "tbl_at (lm_heap p') root q = Some t"
    using lm_prunedD(5) [OF pr, of q] root at by simp
  have inv: "lm_inv p'" and root': "lm_pml4 p' = Some root" and mode: "lm_mode p' = lm_mode p"
    using lm_prunedD [OF pr] root by simp_all
  have wf: "wf_tree (lm_szs (lm_mode p')) (lm_heap p') root"
    using inv root' by (auto elim: lm_invE)
  show "child (lm_heap p') t j = None"
  proof (cases "j < 512")
    case True
    then have "tbl_at (lm_heap p') root (q @ [j]) = None"
      using lm_prunedD(5) [OF pr, of "q @ [j]"] root by auto
    then show ?thesis using at' by (simp add: tbl_at_snoc)
  next
    case False
    then have "entry_of (lm_heap p') t j = None"
      using wf_tree_entry_range(1) [OF wf at', of j] wf_tree_level [OF wf at'] by fastforce
    then show ?thesis by (simp add: child_def)
  qed
qed


text \<open>
  Removing a table: its children first, where the mode has them, then the table itself.
\<close>

lemma cut_after_prune:
  assumes inv: "lm_inv p" and root: "lm_pml4 p = Some root"
    and at: "tbl_at (lm_heap p) root q = Some t" and c: "child (lm_heap p) t (unat i) = Some c"
    and pr: "lm_pruned Q p p'" and Q: "Q = {} \<or> Q = {(q @ [unat i]) @ [j] | j. j < 512}"
    and leaf: "Q = {} \<Longrightarrow> Suc (length q) = lm_levels (lm_mode p)"
  shows "invalidate_entry (lm_heap p') t i = Inr (cut_table (lm_heap p') t (unat i) c)"
    and "lm_pruned {q @ [unat i]} p (lm_cut p' q t (unat i) c)"
proof -
  have sub: "tbl_at (lm_heap p) root (q @ [unat i]) = Some c"
    using at c by (simp add: tbl_at_snoc)
  have no: "\<not> (\<exists>r \<in> Q. prefix r q)" "\<not> (\<exists>r \<in> Q. prefix r (q @ [unat i]))"
    using Q by (auto dest: prefix_length_le)
  have p': "lm_inv p'" "lm_pml4 p' = Some root" "lm_mode p' = lm_mode p"
    using lm_prunedD [OF pr] root by simp_all
  have at': "tbl_at (lm_heap p') root q = Some t" and sub': "tbl_at (lm_heap p') root (q @ [unat i]) = Some c"
    using lm_prunedD(5) [OF pr, of q] lm_prunedD(5) [OF pr, of "q @ [unat i]"] no root at sub by simp_all
  then have c': "child (lm_heap p') t (unat i) = Some c"
    by (simp add: tbl_at_snoc)
  have childless: "child (lm_heap p') c j = None" for j
  proof (cases "Q = {}")
    case True
    then show ?thesis
      using leaf leaf_table_childless [OF p'(1,2) sub'] p'(3) by simp
  next
    case False
    then have "lm_pruned {(q @ [unat i]) @ [j] | j. j < 512} p p'"
      using pr Q by simp
    then show ?thesis
      by (rule pruned_children(2) [OF _ root sub])
  qed
  show "invalidate_entry (lm_heap p') t i = Inr (cut_table (lm_heap p') t (unat i) c)"
    by (rule lm_cut_code [OF p'(1,2) at' c'])
  have "lm_pruned (Q \<union> {q @ [unat i]}) p (lm_cut p' q t (unat i) c)"
    by (rule lm_pruned_trans [OF pr lm_cut_pruned [OF p'(1,2) at' c' childless]])
  then show "lm_pruned {q @ [unat i]} p (lm_cut p' q t (unat i) c)"
    by (rule lm_pruned_absorb) (use Q in auto)
qed

text \<open>One round of such a loop, for a removal that is called on present entries only.\<close>

lemma prune_step:
  assumes inv: "lm_inv p" and root: "lm_pml4 p = Some root"
    and at: "tbl_at (lm_heap p) root q = Some t" and len: "length q < lm_levels (lm_mode p)"
    and i: "unat i < 512" and remove: "f p = Inr (True, p')" "lm_pruned {q @ [unat i]} p p'"
  shows "\<exists>p''. bindE (is_present (lm_heap p) t i) (\<lambda>present. if present then f p else Inr (True, p)) =
    Inr (True, p'') \<and> lm_pruned {q @ [unat i]} p p''"
proof (cases "child (lm_heap p) t (unat i)")
  case None
  then have "tbl_at (lm_heap p) (lm_root p) (q @ [unat i]) = None"
    using at root by (simp add: tbl_at_snoc)
  then show ?thesis
    using None lm_pruned_absent [OF inv] child_present [OF inv root at len i] by auto
next
  case (Some c)
  then show ?thesis
    using remove child_present [OF inv root at len i] by auto
qed

lemma remove_page_tables_loop:
  assumes inv: "lm_inv p" and root: "lm_pml4 p = Some root" and mode: "lm_mode p = LongMode_Normal"
    and at: "tbl_at (lm_heap p) root [unat a, unat b] = Some t" and a: "unat a < 512" and b: "unat b < 512"
  obtains p' where "foldE (\<lambda>i p. bindE (is_present (lm_heap p) t i) (\<lambda>present.
      if present then bindE (lm_remove_page_table p a b i) (\<lambda>(_, p). Inr p) else Inr p))
      (upto_u32 512) p = Inr p'"
    "lm_pruned {[unat a, unat b] @ [i] | i. i < 512} p p'"
proof (rule prune_loop [OF inv root at, where w = "\<lambda>p. p"])
  fix p' and i :: u32
  assume p': "lm_inv p'" "lm_mode p' = lm_mode p" "lm_pml4 p' = Some root"
    "tbl_at (lm_heap p') root [unat a, unat b] = Some t" and i: "unat i < 512"
  obtain p'' where r: "lm_remove_page_table p' a b i = Inr (True, p'')" "lm_pruned {[unat a, unat b, unat i]} p' p''"
    using p' mode by (auto intro: remove_page_table_ok [OF p'(1) _ a b i])
  have "length [unat a, unat b] < lm_levels (lm_mode p')"
    using p'(2) mode by (simp add: lm_levels_def)
  from prune_step [OF p'(1,3,4) this i, where f = "\<lambda>p. lm_remove_page_table p a b i"] r
  show "\<exists>p''. bindE (is_present (lm_heap p') t i) (\<lambda>present.
      if present then bindE (lm_remove_page_table p' a b i) (\<lambda>(_, p). Inr p) else Inr p') = Inr p'' \<and>
      lm_pruned {[unat a, unat b] @ [unat i]} p' p''"
    by (auto simp: child_present [OF p'(1,3,4) \<open>length [unat a, unat b] < lm_levels (lm_mode p')\<close> i] split: if_splits)
qed (use that in auto)

lemma remove_page_directory_ok:
  assumes inv: "lm_inv p" and lev: "1 < lm_levels (lm_mode p)" and a: "unat a < 512" and b: "unat b < 512"
  obtains p' where "lm_remove_page_directory p a b = Inr (True, p')" "lm_pruned {[unat a, unat b]} p p'"
proof -
  obtain root where root: "lm_pml4 p = Some root" and pos: "0 < lm_levels (lm_mode p)"
    using inv by (elim lm_invE)
  have l: "length [] < lm_levels (lm_mode p)" "length ([] @ [unat a]) < lm_levels (lm_mode p)"
    using lev by simp_all
  have guard: "lm_mode p \<noteq> LongMode_Huge" "a < 512" "b < 512"
    using lev a b by (auto simp: lm_levels_def word_less_nat_alt)
  note defs = lm_remove_page_directory_def as_table_def and result = that
  have absent: thesis
    if "lm_remove_page_directory p a b = Inr (True, p)" "tbl_at (lm_heap p) root [unat a, unat b] = None"
    using that by (intro result [of p]) (simp_all add: lm_pruned_absent inv root)
  show thesis
  proof (rule lm_inner_next [OF inv root tbl_at.simps(1) l(1) a])
    fix e assume "entry_of (lm_heap p) root (unat a) = Some e" "next_level_ptr e = NullPtr"
      "child (lm_heap p) root (unat a) = None"
    then show thesis by (intro absent) (simp_all add: defs guard root)
  next
    fix e t assume e: "entry_of (lm_heap p) root (unat a) = Some e" "next_level_ptr e = TablePtr t"
      "child (lm_heap p) root (unat a) = Some t" "tbl_at (lm_heap p) root ([] @ [unat a]) = Some t"
    show thesis
    proof (rule lm_inner_next [OF inv root e(4) l(2) b])
      fix f assume "entry_of (lm_heap p) t (unat b) = Some f" "next_level_ptr f = NullPtr"
        "child (lm_heap p) t (unat b) = None"
      with e show thesis by (intro absent) (simp_all add: defs guard root)
    next
      fix f u assume f: "entry_of (lm_heap p) t (unat b) = Some f" "next_level_ptr f = TablePtr u"
        "child (lm_heap p) t (unat b) = Some u" "tbl_at (lm_heap p) root (([] @ [unat a]) @ [unat b]) = Some u"
      let ?body = "\<lambda>i p. bindE (is_present (lm_heap p) u i) (\<lambda>present.
        if present then bindE (lm_remove_page_table p a b i) (\<lambda>(_, p). Inr p) else Inr p)"
      obtain Q p' where lp: "(if lm_mode p = LongMode_Normal then foldE ?body (upto_u32 512) p
          else Inr p) = Inr p'" "lm_pruned Q p p'"
        "Q = {} \<or> Q = {(([] @ [unat a]) @ [unat b]) @ [j] | j. j < 512}"
        "Q = {} \<Longrightarrow> Suc (length ([] @ [unat a])) = lm_levels (lm_mode p)"
      proof (cases "lm_mode p = LongMode_Normal")
        case True
        have "tbl_at (lm_heap p) root [unat a, unat b] = Some u" using f(4) by simp
        then show ?thesis
          by (rule remove_page_tables_loop [OF inv root True _ a b]) (rule that, use True in \<open>auto simp: some_index\<close>)
      next
        case False
        then have "lm_levels (lm_mode p) = 2"
          using lev pos by (elim lm_mode_cases) (simp_all add: lm_levels_def)
        then show ?thesis
          using that [of p "{}"] lm_pruned_empty [OF inv] False by simp
      qed
      note cut = cut_after_prune [OF inv root e(4) f(3) lp(2-4)]
      have "lm_remove_page_directory p a b = Inr (True, lm_cut p' ([] @ [unat a]) t (unat b) u)"
        using e f lp(1) cut(1) by (simp add: defs guard root lm_cut_def split: if_splits)
      then show thesis
        using that cut(2) by simp
    qed
  qed
qed


lemma remove_page_directories_loop:
  assumes inv: "lm_inv p" and root: "lm_pml4 p = Some root" and lev: "1 < lm_levels (lm_mode p)"
    and at: "tbl_at (lm_heap p) root [unat a] = Some t" and a: "unat a < 512"
  obtains p' where "foldE (\<lambda>i (succeed, p). bindE (is_present (lm_heap p) t i) (\<lambda>present.
      if present then bindE (lm_remove_page_directory p a i) (\<lambda>(r, p). Inr (succeed \<and> r, p))
      else Inr (succeed, p))) (upto_u32 512) (True, p) = Inr (True, p')"
    "lm_pruned {[unat a] @ [i] | i. i < 512} p p'"
proof (rule prune_loop [OF inv root at, where w = "\<lambda>p. (True, p)"])
  fix p' and i :: u32
  assume p': "lm_inv p'" "lm_mode p' = lm_mode p" "lm_pml4 p' = Some root"
    "tbl_at (lm_heap p') root [unat a] = Some t" and i: "unat i < 512"
  obtain p'' where r: "lm_remove_page_directory p' a i = Inr (True, p'')" "lm_pruned {[unat a, unat i]} p' p''"
    using p' lev by (auto intro: remove_page_directory_ok [OF p'(1) _ a i])
  have l: "length [unat a] < lm_levels (lm_mode p')"
    using p'(2) lev by simp
  from prune_step [OF p'(1,3,4) l i, where f = "\<lambda>p. lm_remove_page_directory p a i"] r
  show "\<exists>p''. (case (True, p') of (succeed, p) \<Rightarrow> bindE (is_present (lm_heap p) t i) (\<lambda>present.
      if present then bindE (lm_remove_page_directory p a i) (\<lambda>(r, p). Inr (succeed \<and> r, p))
      else Inr (succeed, p))) = Inr (True, p'') \<and> lm_pruned {[unat a] @ [unat i]} p' p''"
    by (auto simp: child_present [OF p'(1,3,4) l i] split: if_splits)
qed (use that in auto)

lemma remove_page_directory_pointer_ok:
  assumes inv: "lm_inv p" and a: "unat a < 512"
  obtains p' where "lm_remove_page_directory_pointer p a = Inr (True, p')" "lm_pruned {[unat a]} p p'"
proof -
  obtain root where root: "lm_pml4 p = Some root" and pos: "0 < lm_levels (lm_mode p)"
    using inv by (elim lm_invE)
  have l: "length [] < lm_levels (lm_mode p)"
    using pos by simp
  note defs = lm_remove_page_directory_pointer_def as_table_def
  show thesis
  proof (rule lm_inner_next [OF inv root tbl_at.simps(1) l a])
    fix e assume "entry_of (lm_heap p) root (unat a) = Some e" "next_level_ptr e = NullPtr"
      "child (lm_heap p) root (unat a) = None"
    then show thesis
      by (intro that [of p]) (simp_all add: defs root lm_pruned_absent inv)
  next
    fix e t assume e: "entry_of (lm_heap p) root (unat a) = Some e" "next_level_ptr e = TablePtr t"
      "child (lm_heap p) root (unat a) = Some t" "tbl_at (lm_heap p) root ([] @ [unat a]) = Some t"
    let ?body = "\<lambda>i (succeed, p). bindE (is_present (lm_heap p) t i) (\<lambda>present.
      if present then bindE (lm_remove_page_directory p a i) (\<lambda>(r, p). Inr (succeed \<and> r, p))
      else Inr (succeed, p))"
    obtain Q p' where lp: "(if lm_mode p \<noteq> LongMode_Huge then foldE ?body (upto_u32 512) (True, p)
        else Inr (True, p)) = Inr (True, p')" "lm_pruned Q p p'"
      "Q = {} \<or> Q = {([] @ [unat a]) @ [j] | j. j < 512}"
      "Q = {} \<Longrightarrow> Suc (length ([] :: nat list)) = lm_levels (lm_mode p)"
    proof (cases "lm_mode p = LongMode_Huge")
      case True
      then show ?thesis
        using that [of p "{}"] lm_pruned_empty [OF inv] by (simp add: lm_levels_def)
    next
      case False
      then have lev: "1 < lm_levels (lm_mode p)"
        using pos by (elim lm_mode_cases) (simp_all add: lm_levels_def)
      have "tbl_at (lm_heap p) root [unat a] = Some t" using e(4) by simp
      then show ?thesis
        by (rule remove_page_directories_loop [OF inv root lev _ a])
          (rule that, use False in \<open>auto simp: some_index\<close>)
    qed
    note cut = cut_after_prune [OF inv root tbl_at.simps(1) e(3) lp(2-4)]
    have "lm_remove_page_directory_pointer p a = Inr (True, lm_cut p' [] root (unat a) t)"
      using e lp(1) cut(1) by (simp add: defs root lm_cut_def split: if_splits)
    then show thesis
      using that cut(2) by simp
  qed
qed

text \<open>
  The destructor calls \<open>delete\<close> on every table that is reachable, and so on all of them. What \<open>delete\<close>
  makes of memory that came from \<open>gm_memalign\<close> is outside the model.
\<close>

lemma remove_root_directory_ok:
  assumes inv: "lm_inv p"
  obtains p' where "lm_remove_root_directory p = Inr p'" "lm_pml4 p' = None"
    "tables (lm_heap p') = (\<lambda>_. None)"
proof -
  obtain root where root: "lm_pml4 p = Some root" and pos: "0 < lm_levels (lm_mode p)"
    using inv by (elim lm_invE)
  let ?body = "\<lambda>i p. bindE (is_present (lm_heap p) root i) (\<lambda>present.
    if present then bindE (lm_remove_page_directory_pointer p i) (\<lambda>(_, p). Inr p) else Inr p)"
  obtain p' where loop: "foldE ?body (upto_u32 512) p = Inr p'" and pr: "lm_pruned {[] @ [i] | i. i < 512} p p'"
  proof (rule prune_loop [OF inv root tbl_at.simps(1), where w = "\<lambda>p. p"])
    fix p' and i :: u32
    assume p': "lm_inv p'" "lm_mode p' = lm_mode p" "lm_pml4 p' = Some root"
      "tbl_at (lm_heap p') root [] = Some root" and i: "unat i < 512"
    obtain p'' where r: "lm_remove_page_directory_pointer p' i = Inr (True, p'')" "lm_pruned {[unat i]} p' p''"
      by (rule remove_page_directory_pointer_ok [OF p'(1) i])
    have l: "length [] < lm_levels (lm_mode p')"
      using p'(2) pos by simp
    from prune_step [OF p'(1,3,4) l i, where f = "\<lambda>p. lm_remove_page_directory_pointer p i"] r
    show "\<exists>p''. ?body i p' = Inr p'' \<and> lm_pruned {[] @ [unat i]} p' p''"
      by (auto simp: child_present [OF p'(1,3,4) l i] split: if_splits)
  qed
  have "no_garbage (lm_heap p') root"
    using lm_prunedD [OF pr] root by (auto elim: lm_invE)
  moreover have "tbl_at (lm_heap p') root r = None" if "r \<noteq> []" for r
    using pruned_children(2) [OF pr root tbl_at.simps(1)] that by (cases r) simp_all
  ultimately have "tables (lm_heap p') t = None" if "t \<noteq> root" for t
    using that unfolding no_garbage_def by (metis option.distinct(1) option.inject tbl_at.simps(1))
  then have "(tables (lm_heap p'))(root := None) = (\<lambda>_. None)"
    by auto
  then show thesis
    using that loop root by (simp add: lm_remove_root_directory_def)
qed


section \<open>The class implements the paging contract\<close>

interpretation long_mode: base_paging lm_inv lm_room "\<lambda>p. lm_vpn (lm_mode p)" lm_abs
  lm_map_page_table lm_access
proof
  fix p z a ptr b
  assume inv: "lm_inv p" and room: "lm_room p" and ptr: "ptr_ok ptr b"
  obtain root where root: "lm_pml4 p = Some root"
    using inv by (elim lm_invE)
  show "\<exists>lat m p'. lm_map_page_table z p a ptr b = Inr (lat, m, p') \<and> lm_inv p' \<and>
      lm_vpn (lm_mode p') = lm_vpn (lm_mode p) \<and> lm_abs p' = (lm_abs p)(lm_vpn (lm_mode p) a \<mapsto> ptr) \<and>
      (m = None \<longleftrightarrow> lm_abs p (lm_vpn (lm_mode p) a) \<noteq> None)"
    by (rule lm_map_ok [OF inv root ptr room refl, where addr = a and z = z]) auto
next
  fix p z os ptr ppn and req :: MemReq
  assume "lm_inv p" "lm_abs p (lm_vpn (lm_mode p) (lineAddr req)) = Some ptr" "obj_addr z os ptr = Some ppn"
  from lm_access_hit [OF this(1) refl this(2,3)]
  show "\<exists>req' p' os'. lm_access z p os req = Inr (ppn, req', p', os') \<and> lm_inv p' \<and>
      lm_vpn (lm_mode p') = lm_vpn (lm_mode p) \<and> lm_abs p' = lm_abs p \<and>
      obj_addr z os' = obj_addr z os \<and> lineAddr req' = lineAddr req"
    by metis
next
  fix p z os and req :: MemReq
  assume "lm_inv p" "lm_abs p (lm_vpn (lm_mode p) (lineAddr req)) = None"
  from lm_access_miss [OF this(1) refl this(2), of z os]
  show "\<exists>req'. lm_access z p os req = Inr (PAGE_FAULT_SIG, req', p, os) \<and> lineAddr req' = lineAddr req"
    by (auto simp: add_cycles_def)
qed

section \<open>Properties\<close>

text \<open>
  C4. Mapping a page in any of the three 64-bit modes keeps the invariant, changes the translation of
  exactly the page of the address, costs one memory access plus one for every table that had to be
  allocated on the way, and reports the entry iff the page was not mapped before. It succeeds in the
  4 KB and 2 MB modes always, and in the 1 GB mode while fewer than 512 of the tables of the second
  level exist: \<open>allocate_page_directory_pointer\<close> asserts that before it looks whether the table of the
  address is present, so once all 512 exist every mapping aborts, also one that needs no new table.
\<close>

theorem lm_map_refines:
  assumes "lm_inv p" "ptr_ok ptr b"
  shows "if lm_mode p = LongMode_Huge \<and> 512 \<le> lm_cur_pdp_num p
    then lm_map_page_table z p addr ptr b = Inl Assert_failed
    else \<exists>m p'. lm_map_page_table z p addr ptr b =
        Inr (mem_access_time z *
          (1 + of_nat (missing (lm_heap p) (lm_root p) (fst (lm_path (lm_mode p) (lm_vpn (lm_mode p) addr))))), m, p') \<and>
      lm_inv p' \<and> lm_mode p' = lm_mode p \<and>
      lm_abs p' = (lm_abs p)(lm_vpn (lm_mode p) addr \<mapsto> ptr) \<and>
      (m = None \<longleftrightarrow> lm_abs p (lm_vpn (lm_mode p) addr) \<noteq> None)"
proof (cases "lm_mode p = LongMode_Huge \<and> 512 \<le> lm_cur_pdp_num p")
  case True
  then have "\<not> lm_cur_pdp_num p < 512" by (simp add: not_less)
  with True have "lm_map_page_table z p addr ptr b = Inl Assert_failed"
    by (simp add: lm_map_page_table_def get_domains_def lm_allocate_page_directory_pointer_def)
  with True show ?thesis by simp
next
  case False
  obtain root where root: "lm_pml4 p = Some root"
    using assms(1) by (elim lm_invE)
  have room: "lm_room p" using False by (auto simp: lm_room_def)
  show ?thesis
    unfolding if_not_P [OF False]
    by (rule lm_map_ok [OF assms(1) root assms(2) room refl, where addr = addr and z = z])
      (use root in auto)
qed

lemma example_new:
  obtains p where "LongModePaging_new example_zinfo LongMode_Normal = Inr (p, example_zinfo)"
    "lm_inv p" "lm_mode p = LongMode_Normal" "lm_abs p = (\<lambda>_. None)"
    "\<And>i. child (lm_heap p) (lm_root p) i = None"
proof -
  have "block_size example_zinfo \<noteq> 0" "0 < lm_levels LongMode_Normal"
    by (simp_all add: example_zinfo_def lm_levels_def)
  from LongModePaging_new_ok [OF this] obtain p z' where p:
    "LongModePaging_new example_zinfo LongMode_Normal = Inr (p, z')" "lm_inv p"
    "lm_mode p = LongMode_Normal" "lm_abs p = (\<lambda>_. None)"
    "\<And>i. child (lm_heap p) (lm_root p) i = None" by metis
  moreover have "z' = example_zinfo"
    using p(1) power_rec_pos [of 10 2]
    by (auto simp: LongModePaging_new_def example_zinfo_def divE_def)
  ultimately show thesis using that by blast
qed

theorem lm_map_refines_witness:
  "\<exists>p m p'. LongModePaging_new example_zinfo LongMode_Normal = Inr (p, example_zinfo) \<and>
     lm_map_page_table example_zinfo p 0x7fff12345678 (PagePtr 42) False = Inr (117 * 4, m, p') \<and>
     lm_abs p' 0x7fff12345 = Some (PagePtr 42)"
proof -
  obtain p where p: "LongModePaging_new example_zinfo LongMode_Normal = Inr (p, example_zinfo)"
    "lm_inv p" "lm_mode p = LongMode_Normal" "lm_abs p = (\<lambda>_. None)"
    "\<And>i. child (lm_heap p) (lm_root p) i = None"
    by (rule example_new) blast
  have room: "\<not> (lm_mode p = LongMode_Huge \<and> 512 \<le> lm_cur_pdp_num p)" and ptr: "ptr_ok (PagePtr 42) False"
    using p(3) by (simp_all add: ptr_ok_def)
  have vpn: "lm_vpn LongMode_Normal 0x7fff12345678 = 0x7fff12345"
    by (simp add: lm_vpn_def lm_shift_def lm_levels_def)
  have "missing (lm_heap p) (lm_root p) (fst (lm_path LongMode_Normal 0x7fff12345)) = 3"
    using p(5) by (simp add: missing_new lm_path_def lm_levels_def)
  with lm_map_refines [OF p(2) ptr, of example_zinfo "0x7fff12345678", unfolded if_not_P [OF room]] p vpn
  show ?thesis
    by (auto simp: example_zinfo_def)
qed


text \<open>
  C8. A walk of the tables is a lookup of the page of the address: it returns the number of the
  mapped page or cache block after one memory access per level and three more, or the page fault
  signal, and changes no translation.
\<close>

theorem lm_access_refines:
  assumes "lm_inv p" and v: "v = lm_vpn (lm_mode p) (lineAddr req)"
    and objs: "\<And>ptr. lm_abs p v = Some ptr \<Longrightarrow> obj_addr z os ptr \<noteq> None"
  shows "\<exists>req' p' os'. lm_access z p os req =
      Inr (case lm_abs p v of None \<Rightarrow> PAGE_FAULT_SIG | Some ptr \<Rightarrow> the (obj_addr z os ptr), req', p', os') \<and>
    lm_inv p' \<and> lm_abs p' = lm_abs p \<and> obj_addr z os' = obj_addr z os \<and>
    (lm_abs p v \<noteq> None \<longrightarrow>
      cycle req' = cycle req + ucast (mem_access_time z * (3 + of_nat (lm_levels (lm_mode p)))))"
proof (cases "lm_abs p v")
  case None
  then show ?thesis using lm_access_miss [OF assms(1) v None, of z os] assms(1) by auto
next
  case (Some ptr)
  then obtain ppn where ppn: "obj_addr z os ptr = Some ppn" using objs by auto
  show ?thesis
    by (rule lm_access_hit [OF assms(1) v Some ppn]) (use Some ppn in auto)
qed

theorem lm_access_refines_witness:
  "\<exists>p req' p' os' lat m p1 req1 p2 os2. LongModePaging_new example_zinfo LongMode_Normal = Inr (p, example_zinfo) \<and>
     lm_access example_zinfo p example_objs (example_req 0x1000) = Inr (PAGE_FAULT_SIG, req', p', os') \<and>
     lm_map_page_table example_zinfo p 0x1000 (PagePtr 42) False = Inr (lat, m, p1) \<and>
     lm_access example_zinfo p1 example_objs (example_req 0x1000) = Inr (42, req1, p2, os2)"
proof -
  obtain p where p: "LongModePaging_new example_zinfo LongMode_Normal = Inr (p, example_zinfo)"
    "lm_inv p" "lm_abs p = (\<lambda>_. None)" "lm_mode p = LongMode_Normal"
    by (rule example_new) blast
  have "lm_room p" "ptr_ok (PagePtr 42) False"
    using p(4) by (simp_all add: lm_room_def ptr_ok_def)
  from long_mode.map_law [OF p(2) this, of example_zinfo "0x1000"] obtain lat m p1 where p1:
    "lm_map_page_table example_zinfo p 0x1000 (PagePtr 42) False = Inr (lat, m, p1)" "lm_inv p1"
    "lm_abs p1 = (lm_abs p)(lm_vpn (lm_mode p) 0x1000 \<mapsto> PagePtr 42)" "lm_vpn (lm_mode p1) = lm_vpn (lm_mode p)"
    by blast
  have hit: "lm_abs p1 (lm_vpn (lm_mode p1) (lineAddr (example_req 0x1000))) = Some (PagePtr 42)"
    "obj_addr example_zinfo example_objs (PagePtr 42) = Some 42"
    using p1(3,4) by (simp_all add: example_req_def obj_addr_def example_objs_def)
  obtain req' p' os' where "lm_access example_zinfo p example_objs (example_req 0x1000) = Inr (PAGE_FAULT_SIG, req', p', os')"
    using lm_access_refines [OF p(2) refl, of "example_req 0x1000" example_zinfo example_objs] p(3) by auto
  moreover obtain req1 p2 os2 where "lm_access example_zinfo p1 example_objs (example_req 0x1000) = Inr (42, req1, p2, os2)"
    using lm_access_refines [OF p1(2) refl, of "example_req 0x1000" example_zinfo example_objs] hit by auto
  ultimately show ?thesis using p(1) p1(1) by blast
qed

text \<open>
  C9. Mapping and access agree: after a page is mapped, an access to any address of that page
  returns the number of the mapped object, and an access to any other page returns what it
  returned before. The access is not a set-dirty request, every object that is mapped exists, and in
  the 1 GB mode fewer than 512 tables of the second level exist before the mapping.
\<close>

theorem lm_map_then_access:
  assumes "lm_inv p" "lm_room p" "ptr_ok ptr b" "obj_addr z os ptr = Some ppn" "type_of req \<noteq> SETDIRTY"
    and "\<And>v q. lm_abs p v = Some q \<Longrightarrow> obj_addr z os q \<noteq> None"
  shows "\<exists>lat m p'. lm_map_page_table z p addr ptr b = Inr (lat, m, p') \<and>
    map_sum id fst (lm_access z p' os req) =
      (if lm_vpn (lm_mode p) (lineAddr req) = lm_vpn (lm_mode p) addr then Inr ppn
       else map_sum id fst (lm_access z p os req))"
proof (cases "lm_vpn (lm_mode p) (lineAddr req) = lm_vpn (lm_mode p) addr")
  case True
  from long_mode.map_access [OF assms(1-4) True assms(5)] True show ?thesis by auto
next
  case False
  obtain lat m p' where m: "lm_map_page_table z p addr ptr b = Inr (lat, m, p')"
    using long_mode.map_law [OF assms(1-3)] by blast
  from long_mode.map_access_other [OF assms(1-3) False m assms(5)] assms(6) m False
  show ?thesis by auto
qed

theorem lm_map_then_access_witness:
  "\<exists>p lat m p'. LongModePaging_new example_zinfo LongMode_Normal = Inr (p, example_zinfo) \<and>
     lm_map_page_table example_zinfo p 0x7fff12345678 (PagePtr 42) False = Inr (lat, m, p') \<and>
     map_sum id fst (lm_access example_zinfo p' example_objs (example_req 0x7fff12345000)) = Inr 42"
proof -
  obtain p where p: "LongModePaging_new example_zinfo LongMode_Normal = Inr (p, example_zinfo)"
    "lm_inv p" "lm_mode p = LongMode_Normal" "lm_abs p = (\<lambda>_. None)"
    by (rule example_new) blast
  have "lm_room p" "ptr_ok (PagePtr 42) False" "obj_addr example_zinfo example_objs (PagePtr 42) = Some 42"
    "type_of (example_req 0x7fff12345000) \<noteq> SETDIRTY"
    using p(3) by (simp_all add: lm_room_def ptr_ok_def obj_addr_def example_objs_def example_req_def)
  from lm_map_then_access [OF p(2) this, of "0x7fff12345678"] p show ?thesis
    by (simp add: lm_vpn_def lm_shift_def lm_levels_def example_req_def)
qed

text \<open>
  C10. Unmapping a mapped page removes exactly its translation, so the next access to it is a page
  fault. The result of \<open>unmap_page_table\<close> is false although the page was unmapped.
\<close>

theorem lm_unmap_removes:
  assumes "lm_inv p" and "lm_abs p (lm_vpn (lm_mode p) addr) = Some ptr"
  shows "\<exists>p'. lm_unmap_page_table p addr = Inr (False, p') \<and> lm_inv p' \<and>
    lm_abs p' = (lm_abs p)(lm_vpn (lm_mode p) addr := None)"
  by (rule lm_unmap_ok [OF assms(1) refl assms(2)]) auto

theorem lm_unmap_removes_witness:
  "\<exists>p lat m p' p''. LongModePaging_new example_zinfo LongMode_Normal = Inr (p, example_zinfo) \<and>
     lm_map_page_table example_zinfo p 0x12345678 (PagePtr 42) False = Inr (lat, m, p') \<and>
     lm_unmap_page_table p' 0x12345678 = Inr (False, p'') \<and> lm_abs p'' = (\<lambda>_. None)"
proof -
  obtain p where p: "LongModePaging_new example_zinfo LongMode_Normal = Inr (p, example_zinfo)"
    "lm_inv p" "lm_mode p = LongMode_Normal" "lm_abs p = (\<lambda>_. None)"
    by (rule example_new) blast
  have "lm_room p" "ptr_ok (PagePtr 42) False"
    using p(3) by (simp_all add: lm_room_def ptr_ok_def)
  from long_mode.map_law [OF p(2) this, of example_zinfo "0x12345678"] obtain lat m p' where p':
    "lm_map_page_table example_zinfo p 0x12345678 (PagePtr 42) False = Inr (lat, m, p')" "lm_inv p'"
    "lm_vpn (lm_mode p') = lm_vpn (lm_mode p)"
    "lm_abs p' = (lm_abs p)(lm_vpn (lm_mode p) 0x12345678 \<mapsto> PagePtr 42)" by blast
  from lm_unmap_removes [OF p'(2), of "0x12345678"] p p' show ?thesis by auto
qed

text \<open>
  C11. With 4KB and 2MB pages, unmapping an address whose pml4 entry is not present dereferences a
  null pointer: \<open>get_tables\<close> tests every pointer of the walk but the first.
\<close>

theorem lm_unmap_null_deref:
  assumes "lm_inv p" "lm_mode p \<noteq> LongMode_Huge"
    and "child (lm_heap p) (lm_root p) (unat (get_bit_value addr 39 47)) = None"
  shows "lm_unmap_page_table p addr = Inl Null_deref"
proof -
  obtain root where "lm_pml4 p = Some root"
    using assms(1) by (elim lm_invE)
  with lm_unmap_null [OF assms(1) this assms(2)] assms(3) show ?thesis by simp
qed

theorem lm_unmap_null_deref_witness:
  "\<exists>p. LongModePaging_new example_zinfo LongMode_Normal = Inr (p, example_zinfo) \<and>
     lm_unmap_page_table p 0x1000 = Inl Null_deref"
proof -
  obtain p where p: "LongModePaging_new example_zinfo LongMode_Normal = Inr (p, example_zinfo)"
    "lm_inv p" "lm_mode p = LongMode_Normal" "\<And>i. child (lm_heap p) (lm_root p) i = None"
    by (rule example_new) blast
  from lm_unmap_null_deref [OF p(2)] p show ?thesis by auto
qed

text \<open>
  C12. A new object maps nothing and satisfies the invariant, and the constructor sets the page
  size and shift of the mode. The invariant counts the tables: the three counters of the class are
  the numbers of tables at their levels.
\<close>

theorem lm_new_establishes:
  assumes "block_size z \<noteq> 0" "0 < lm_levels mode"
  shows "\<exists>p z'. LongModePaging_new z mode = Inr (p, z') \<and> lm_inv p \<and> lm_mode p = mode \<and>
    lm_abs p = (\<lambda>_. None) \<and> page_size z' = 2 ^ lm_shift mode \<and> page_shift z' = lm_shift mode"
  by (rule LongModePaging_new_ok [OF assms]) auto

theorem lm_new_establishes_witness:
  "\<exists>p z'. LongModePaging_new example_zinfo LongMode_Huge = Inr (p, z') \<and> lm_inv p \<and>
     page_size z' = 2 ^ 30 \<and> page_shift z' = 30"
proof -
  have "block_size example_zinfo \<noteq> 0" "0 < lm_levels LongMode_Huge"
    by (simp_all add: example_zinfo_def lm_levels_def)
  from lm_new_establishes [OF this] show ?thesis by (auto simp: lm_shift_def)
qed

end
