(* ===== verification/Legacy_Paging.thy ===== *)
theory Legacy_Paging
  imports Paging_Interface
begin

text \<open>
  \<open>class NormalPaging\<close> of \<open>page-table/page_table.cpp\<close>: the two-level tables of the 32-bit
  mode with 4KB pages, and the single table of 4MB pages.
\<close>

section \<open>The class\<close>

record NormalPaging =
  np_heap :: table_heap
  np_page_directory :: "nat option"
  np_mode :: PagingStyle
  np_cur_page_table_num :: u32
  np_buffer_table_entry_num :: u32
  np_buffer_table_shift :: u32

definition NormalPaging_new :: "GlobSimInfo \<Rightarrow> PagingStyle \<Rightarrow> (NormalPaging \<times> GlobSimInfo) res" where
  "NormalPaging_new z select =
     bindE (if select = Legacy_Normal then
              bindE (loopE (power_rec 2 10)) (\<lambda>kb. Inr (z\<lparr>page_size := 4 * kb, page_shift := 12\<rparr>))
            else if select = Legacy_Huge then
              bindE (loopE (power_rec 2 20)) (\<lambda>mb. Inr (z\<lparr>page_size := 4 * mb, page_shift := 22\<rparr>))
            else Inr z) (\<lambda>z.
     bindE (PageTable_new 1024 empty_heap) (\<lambda>(page_directory, hp).
     bindE (divE (page_size z) (ucast (block_size z))) (\<lambda>num.
     Inr (\<lparr>np_heap = hp, np_page_directory = Some page_directory, np_mode = select,
           np_cur_page_table_num = 0, np_buffer_table_entry_num = ucast num,
           np_buffer_table_shift = of_nat (page_shift z) - of_nat (block_shift z)\<rparr>, z))))"

definition np_allocate_one_pagetable ::
  "NormalPaging \<Rightarrow> u32 \<Rightarrow> (void_ptr \<times> u32 \<times> NormalPaging) res" where
  "np_allocate_one_pagetable p pd_entry_id =
     bindE (derefE (np_page_directory p)) (\<lambda>page_directory.
     bindE (get_next_level_address (np_heap p) page_directory pd_entry_id) (\<lambda>table.
     if table = NullPtr then
       bindE (assertE (np_cur_page_table_num p \<le> 1024 \<and> np_mode p = Legacy_Normal)) (\<lambda>_.
       bindE (PageTable_new 1024 (np_heap p)) (\<lambda>(table, hp).
       bindE (validate_entry hp page_directory pd_entry_id (TablePtr table) False) (\<lambda>hp.
       Inr (TablePtr table, 1,
            p\<lparr>np_heap := hp, np_cur_page_table_num := np_cur_page_table_num p + 1\<rparr>))))
     else Inr (table, 0, p)))"

section \<open>Mapping, unmapping and access\<close>

definition np_map_page_table ::
  "GlobSimInfo \<Rightarrow> NormalPaging \<Rightarrow> address \<Rightarrow> void_ptr \<Rightarrow> bool \<Rightarrow>
   (u32 \<times> (nat \<times> u32) option \<times> NormalPaging) res" where
  "np_map_page_table z p addr pg_ptr is_buffer =
     (let pd_entry_id = get_page_directory_off addr (np_mode p) in
     if np_mode p = Legacy_Normal then
       let pt_entry_id = get_pagetable_off addr (np_mode p) in
       bindE (np_allocate_one_pagetable p pd_entry_id) (\<lambda>(table, allocate_time, p).
       if table = NullPtr then Inr (0, None, p)
       else
         bindE (as_table table) (\<lambda>t.
         bindE (map_entry (np_heap p) t pt_entry_id pg_ptr is_buffer) (\<lambda>(mapped_entry, hp).
         Inr (mem_access_time z * (1 + allocate_time), mapped_entry, p\<lparr>np_heap := hp\<rparr>))))
     else if np_mode p = Legacy_Huge then
       bindE (derefE (np_page_directory p)) (\<lambda>page_directory.
       bindE (map_entry (np_heap p) page_directory pd_entry_id pg_ptr is_buffer) (\<lambda>(mapped_entry, hp).
       Inr (mem_access_time z * (1 + 0), mapped_entry, p\<lparr>np_heap := hp\<rparr>)))
     else Inr (mem_access_time z * (1 + 0), None, p))"

text \<open>
  In the 4KB mode the result of \<open>get_next_level_address\<close> is dropped, so \<open>table\<close> stays null.
\<close>

definition np_unmap_page_table :: "NormalPaging \<Rightarrow> address \<Rightarrow> (bool \<times> NormalPaging) res" where
  "np_unmap_page_table p addr =
     (let pd_entry_id = get_page_directory_off addr (np_mode p) in
     if np_mode p = Legacy_Normal then
       let pt_id = get_pagetable_off addr (np_mode p); table = NullPtr in
       bindE (case np_page_directory p of
                Some page_directory \<Rightarrow> get_next_level_address (np_heap p) page_directory pd_entry_id
              | None \<Rightarrow> Inr NullPtr) (\<lambda>_.
       if table = NullPtr then Inr (False, p)
       else
         bindE (as_table table) (\<lambda>t.
         bindE (invalidate_page (np_heap p) t pt_id) (\<lambda>hp. Inr (True, p\<lparr>np_heap := hp\<rparr>))))
     else if np_mode p = Legacy_Huge then
       bindE (derefE (np_page_directory p)) (\<lambda>page_directory.
       bindE (invalidate_page (np_heap p) page_directory pd_entry_id) (\<lambda>hp.
       Inr (True, p\<lparr>np_heap := hp\<rparr>)))
     else Inr (True, p))"

definition np_access_tables ::
  "GlobSimInfo \<Rightarrow> NormalPaging \<Rightarrow> mem_objs \<Rightarrow> MemReq \<Rightarrow>
   (address \<times> MemReq \<times> table_heap \<times> mem_objs) res" where
  "np_access_tables z p os req =
     (let addr = lineAddr req; hp = np_heap p;
          pg_dir_off = get_page_directory_off addr (np_mode p);
          fault = (\<lambda>req. Inr (PAGE_FAULT_SIG, req, hp, os)) in
     if np_mode p = Legacy_Normal then
       bindE (derefE (np_page_directory p)) (\<lambda>page_directory.
       bindE (table_get_next_level_address hp page_directory pg_dir_off) (\<lambda>ptr.
       if ptr = NullPtr then fault req
       else
         let pg_off = get_pagetable_off addr (np_mode p) in
         bindE (as_table ptr) (\<lambda>pgt.
         bindE (point_to_buffer_table hp pgt pg_off) (\<lambda>pbuffer.
         bindE (get_next_level_address hp pgt pg_off) (\<lambda>ptr.
         let req = add_cycles req (mem_access_time z * 2) in
         if ptr = NullPtr then fault req
         else finish_access z os hp req (Some pgt) ptr pg_off pbuffer)))))
     else if np_mode p = Legacy_Huge then
       bindE (derefE (np_page_directory p)) (\<lambda>pgt.
       bindE (point_to_buffer_table hp pgt pg_dir_off) (\<lambda>pbuffer.
       bindE (get_next_level_address hp pgt pg_dir_off) (\<lambda>ptr.
       let req = add_cycles req (mem_access_time z * 3) in
       if ptr = NullPtr then fault req
       else finish_access z os hp req (Some pgt) ptr pg_dir_off pbuffer)))
     else
       finish_access z os hp req None
         (case np_page_directory p of Some t \<Rightarrow> TablePtr t | None \<Rightarrow> NullPtr) 0 False)"

definition np_access ::
  "GlobSimInfo \<Rightarrow> NormalPaging \<Rightarrow> mem_objs \<Rightarrow> MemReq \<Rightarrow>
   (address \<times> MemReq \<times> NormalPaging \<times> mem_objs) res" where
  "np_access z p os req =
     bindE (np_access_tables z p os req) (\<lambda>(addr, req, hp, os).
     Inr (addr, req, p\<lparr>np_heap := hp\<rparr>, os))"

section \<open>Allocation and removal of tables\<close>

text \<open>The list version stops at the first failure.\<close>

fun np_allocate_page_table :: "NormalPaging \<Rightarrow> u32 list \<Rightarrow> (bool \<times> NormalPaging) res" where
  "np_allocate_page_table p [] = Inr (True, p)"
| "np_allocate_page_table p (it # pd_entry) =
     bindE (np_allocate_one_pagetable p it) (\<lambda>(table, _, p).
     if table = NullPtr then Inr (False, p) else np_allocate_page_table p pd_entry)"

definition np_allocate_page_table_range ::
  "NormalPaging \<Rightarrow> address \<Rightarrow> address \<Rightarrow> (bool \<times> NormalPaging) res" where
  "np_allocate_page_table_range p addr sz =
     bindE (assertE (np_mode p = Legacy_Normal)) (\<lambda>_.
     if addr AND 0x3fffff \<noteq> 0 then Inr (False, p)
     else
       let base_entry_id = get_page_directory_off addr (np_mode p);
           page_num = ucast (drop_bit 22 (sz + 0x3fffff)) :: u32
       in foldE (\<lambda>i (succeed, p).
            bindE (np_allocate_one_pagetable p (base_entry_id + i)) (\<lambda>(table, _, p).
            Inr (succeed \<and> table \<noteq> NullPtr, p))) (upto_u32 page_num) (True, p))"

definition np_remove_root_directory :: "NormalPaging \<Rightarrow> NormalPaging" where
  "np_remove_root_directory p = p\<lparr>np_cur_page_table_num := 0\<rparr>"

definition np_remove_one_page_table :: "NormalPaging \<Rightarrow> u32 \<Rightarrow> (bool \<times> NormalPaging) res" where
  "np_remove_one_page_table p pd_entry_id =
     bindE (assertE (np_mode p = Legacy_Normal)) (\<lambda>_.
     bindE (derefE (np_page_directory p)) (\<lambda>page_directory.
     bindE (is_present (np_heap p) page_directory pd_entry_id) (\<lambda>present.
     if present then
       bindE (invalidate_entry (np_heap p) page_directory pd_entry_id) (\<lambda>hp.
       Inr (True, p\<lparr>np_heap := hp, np_cur_page_table_num := np_cur_page_table_num p - 1\<rparr>))
     else Inr (False, p))))"

definition np_remove_page_table :: "NormalPaging \<Rightarrow> u32 list \<Rightarrow> (bool \<times> NormalPaging) res" where
  "np_remove_page_table p pd_entry =
     bindE (foldE (\<lambda>it p.
       bindE (assertE (it < 1024)) (\<lambda>_.
       bindE (np_remove_one_page_table p it) (\<lambda>(_, p). Inr p))) pd_entry p) (\<lambda>p. Inr (True, p))"

text \<open>
  The range version computes the number of tables from the address, not from the size, and
  removes the same entry in every round.
\<close>

definition np_remove_page_table_range ::
  "NormalPaging \<Rightarrow> address \<Rightarrow> address \<Rightarrow> (bool \<times> NormalPaging) res" where
  "np_remove_page_table_range p addr sz =
     bindE (assertE (np_mode p = Legacy_Normal)) (\<lambda>_.
     if addr AND 0x3fffff \<noteq> 0 then Inr (False, p)
     else
       let base_pageNo = get_page_directory_off addr (np_mode p);
           page_num = ucast (drop_bit 22 (addr + 0x3fffff)) :: u32
       in foldE (\<lambda>i (succeed, p).
            bindE (np_remove_one_page_table p (base_pageNo + page_num)) (\<lambda>(r, p).
            Inr (succeed \<and> r, p))) (upto_u32 page_num) (True, p))"

section \<open>Invariant and abstraction\<close>

definition np_levels :: "PagingStyle \<Rightarrow> nat" where
  "np_levels mode = (if mode = Legacy_Normal then 1 else 0)"

definition np_shift :: "PagingStyle \<Rightarrow> nat" where
  "np_shift mode = (if mode = Legacy_Normal then 12 else 22)"

definition np_szs :: "PagingStyle \<Rightarrow> nat list" where
  "np_szs mode = replicate (Suc (np_levels mode)) 1024"

definition np_inv :: "NormalPaging \<Rightarrow> bool" where
  "np_inv p \<longleftrightarrow>
     (np_mode p = Legacy_Normal \<or> np_mode p = Legacy_Huge) \<and>
     (case np_page_directory p of
        None \<Rightarrow> False
      | Some root \<Rightarrow> wf_tree (np_szs (np_mode p)) (np_heap p) root \<and>
          np_cur_page_table_num p = of_nat (num_tables (np_heap p) root 1))"

definition np_root :: "NormalPaging \<Rightarrow> nat" where
  "np_root p = the (np_page_directory p)"

definition np_vpn :: "PagingStyle \<Rightarrow> address \<Rightarrow> nat" where
  "np_vpn mode addr = unat addr div 2 ^ np_shift mode mod 1024 ^ Suc (np_levels mode)"

definition np_path :: "PagingStyle \<Rightarrow> nat \<Rightarrow> nat list \<times> nat" where
  "np_path mode vpn = (digits 1024 (np_levels mode) (vpn div 1024), vpn mod 1024)"

definition np_abs :: "NormalPaging \<Rightarrow> nat \<Rightarrow> void_ptr option" where
  "np_abs p =
     tree_abs (1024 ^ Suc (np_levels (np_mode p))) (np_path (np_mode p)) (np_heap p) (np_root p)"

lemma np_szs_simps [simp]:
  "length (np_szs mode) = Suc (np_levels mode)" "k \<le> np_levels mode \<Longrightarrow> np_szs mode ! k = 1024"
  using nth_replicate [of k "Suc (np_levels mode)" 1024] by (simp_all add: np_szs_def)

lemma np_path_fun: "path_fun (np_szs mode) (1024 ^ Suc (np_levels mode)) (np_path mode)"
proof -
  have "v = w" if "v < 1024 ^ Suc (np_levels mode)" "w < 1024 ^ Suc (np_levels mode)"
    "np_path mode v = np_path mode w" for v w
  proof -
    have "v div 1024 < 1024 ^ np_levels mode" "w div 1024 < 1024 ^ np_levels mode"
      using that(1,2) by (simp_all add: less_mult_imp_div_less)
    then have "v div 1024 = w div 1024" "v mod 1024 = w mod 1024"
      using that(3) by (simp_all add: np_path_def digits_eq_iff)
    then show ?thesis by (metis div_mult_mod_eq)
  qed
  then show ?thesis
    by (auto simp: path_fun_def inj_on_def np_path_def)
qed

lemma np_invE:
  assumes "np_inv p"
  obtains root where "np_page_directory p = Some root" "np_root p = root"
    "wf_tree (np_szs (np_mode p)) (np_heap p) root"
    "np_cur_page_table_num p = of_nat (num_tables (np_heap p) root 1)"
    "np_mode p = Legacy_Normal \<or> np_mode p = Legacy_Huge"
  using assms by (auto simp: np_inv_def np_root_def split: option.splits)

lemma np_offsets:
  "unat (get_bit_value addr 12 21) = unat addr div 2 ^ 12 mod 1024"
  "unat (get_bit_value addr 22 31) = unat addr div 2 ^ 22 mod 1024"
  using unat_get_bit_value [of 12 21 addr] unat_get_bit_value [of 22 31 addr] by simp_all

lemma np_path_vpn:
  "np_path Legacy_Normal (np_vpn Legacy_Normal addr) =
     ([unat (get_bit_value addr 22 31)], unat (get_bit_value addr 12 21))"
  "np_path Legacy_Huge (np_vpn Legacy_Huge addr) = ([], unat (get_bit_value addr 22 31))"
proof -
  have "n mod (1024 * m) div 1024 = n div 1024 mod m" "n mod (1024 * m) mod 1024 = n mod 1024" for n m :: nat
    by (simp_all add: mod_mult2_eq)
  from this [of "unat addr div 4096" 1024]
  show "np_path Legacy_Normal (np_vpn Legacy_Normal addr) =
      ([unat (get_bit_value addr 22 31)], unat (get_bit_value addr 12 21))"
    by (simp add: np_path_def np_vpn_def np_levels_def np_shift_def np_offsets
        div_mult2_eq [symmetric])
  show "np_path Legacy_Huge (np_vpn Legacy_Huge addr) = ([], unat (get_bit_value addr 22 31))"
    by (simp add: np_path_def np_vpn_def np_levels_def np_shift_def np_offsets)
qed

lemma np_vpn_less: "np_vpn mode addr < 1024 ^ Suc (np_levels mode)"
  by (simp add: np_vpn_def)

section \<open>Allocation and mapping\<close>

lemma np_allocate_ok:
  assumes inv: "np_inv p" and mode: "np_mode p = Legacy_Normal" and i: "unat i < 1024"
  obtains t n p' where "np_allocate_one_pagetable p i = Inr (TablePtr t, n, p')" "np_inv p'"
    "np_mode p' = np_mode p" "np_page_directory p' = np_page_directory p"
    "extends (np_szs (np_mode p)) (np_root p) (np_heap p) (np_heap p')"
    "tbl_at (np_heap p') (np_root p) [unat i] = Some t"
    "n = (if child (np_heap p) (np_root p) (unat i) = None then 1 else 0)"
proof -
  obtain root where root: "np_page_directory p = Some root" "np_root p = root"
    and wf: "wf_tree (np_szs (np_mode p)) (np_heap p) root"
    and num: "np_cur_page_table_num p = of_nat (num_tables (np_heap p) root 1)"
    using inv by (elim np_invE)
  have len: "Suc (length []) < length (np_szs (np_mode p))" "unat i < np_szs (np_mode p) ! length []"
    using i mode by (simp_all add: np_levels_def)
  show thesis
  proof (rule inner_next [OF wf tbl_at.simps(1) len])
    fix e assume e: "entry_of (np_heap p) root (unat i) = Some e" "child (np_heap p) root (unat i) = None"
      "next_level_ptr e = NullPtr"
    let ?hp = "link_new (np_szs (np_mode p)) (np_heap p) [] root i"
    let ?p = "p\<lparr>np_heap := ?hp, np_cur_page_table_num := np_cur_page_table_num p + 1\<rparr>"
    note link = wf tbl_at.simps(1) len e(2)
    have "num_tables (np_heap p) root 1 < 1024"
      using num_tables_1(2) [OF wf, of "unat i"] i e(2) by simp
    then have "np_cur_page_table_num p \<le> 1024"
      by (simp add: num word_le_nat_alt unsigned_of_nat take_bit_nat_eq_self)
    moreover have "validate_entry (new_table 1024 (np_heap p)) root i (TablePtr (next_table (np_heap p))) False = Inr ?hp"
      using link_new_code [OF link(1-4)] mode by (simp add: np_levels_def)
    ultimately have "np_allocate_one_pagetable p i = Inr (TablePtr (next_table (np_heap p)), 1, ?p)"
      using e root mode by (simp add: np_allocate_one_pagetable_def)
    moreover have "np_inv ?p"
      using link_new_facts(1) [OF link] num_tables_link [OF link] root mode num
      by (simp add: np_inv_def np_root_def)
    ultimately show thesis
      using that link_new_facts(2) [OF link, of "[unat i]"] extends_link [OF link] root e(2) by simp
  next
    fix e c assume "entry_of (np_heap p) root (unat i) = Some e" "child (np_heap p) root (unat i) = Some c"
      "next_level_ptr e = TablePtr c" "tbl_at (np_heap p) root ([] @ [unat i]) = Some c"
    then show thesis
      using that [of c 0 p] inv root extends_refl [OF wf] by (simp add: np_allocate_one_pagetable_def)
  qed
qed

lemma np_map_ok:
  assumes inv: "np_inv p" and ptr: "ptr_ok ptr b" and v: "v = np_vpn (np_mode p) addr"
  obtains m p' where "np_map_page_table z p addr ptr b =
      Inr (mem_access_time z * (1 + of_nat (missing (np_heap p) (np_root p) (fst (np_path (np_mode p) v)))), m, p')"
    "np_inv p'" "np_mode p' = np_mode p" "np_abs p' = (np_abs p)(v \<mapsto> ptr)"
    "m = None \<longleftrightarrow> np_abs p v \<noteq> None"
proof -
  obtain root where root: "np_page_directory p = Some root" "np_root p = root"
    and wf: "wf_tree (np_szs (np_mode p)) (np_heap p) root"
    and num: "np_cur_page_table_num p = of_nat (num_tables (np_heap p) root 1)"
    and modes: "np_mode p = Legacy_Normal \<or> np_mode p = Legacy_Huge"
    using inv by (elim np_invE)
  have v': "v < 1024 ^ Suc (np_levels (np_mode p))"
    unfolding v by (rule np_vpn_less)
  let ?a = "get_bit_value addr 22 31" and ?b = "get_bit_value addr 12 21"
  from modes show thesis
  proof
    assume mode: "np_mode p = Legacy_Normal"
    obtain t n p1 where p1: "np_allocate_one_pagetable p ?a = Inr (TablePtr t, n, p1)" "np_inv p1"
      "np_mode p1 = np_mode p" "np_page_directory p1 = np_page_directory p"
      "extends (np_szs (np_mode p)) (np_root p) (np_heap p) (np_heap p1)"
      "tbl_at (np_heap p1) (np_root p) [unat ?a] = Some t"
      "n = (if child (np_heap p) (np_root p) (unat ?a) = None then 1 else 0)"
      by (rule np_allocate_ok [OF inv mode, of ?a]) (simp add: np_offsets)
    have wf1: "wf_tree (np_szs (np_mode p)) (np_heap p1) root"
      using p1(5) root by (simp add: extends_def)
    have at1: "tbl_at (np_heap p1) root [unat ?a] = Some t"
      using p1(6) root by simp
    have path: "np_path (np_mode p) v = ([unat ?a], unat ?b)"
      by (simp add: v mode np_path_vpn)
    obtain m e where e: "map_entry (np_heap p1) t ?b ptr b = Inr (m, put_entry (np_heap p1) t (unat ?b) e)"
      "wf_tree (np_szs (np_mode p)) (put_entry (np_heap p1) t (unat ?b) e) root"
      "num_tables (put_entry (np_heap p1) t (unat ?b) e) root 1 = num_tables (np_heap p1) root 1"
      "tree_abs (1024 ^ Suc (np_levels (np_mode p))) (np_path (np_mode p)) (put_entry (np_heap p1) t (unat ?b) e) root =
        (tree_abs (1024 ^ Suc (np_levels (np_mode p))) (np_path (np_mode p)) (np_heap p1) root)(v \<mapsto> ptr)"
      "m = None \<longleftrightarrow> tree_abs (1024 ^ Suc (np_levels (np_mode p))) (np_path (np_mode p)) (np_heap p1) root v \<noteq> None"
      by (rule map_entry_ok [OF wf1 np_path_fun v' path at1 ptr, where k = 1]) blast
    note same = tree_abs_extends [OF p1(5) np_path_fun, unfolded root(2)]
    have "np_inv (p1\<lparr>np_heap := put_entry (np_heap p1) t (unat ?b) e\<rparr>)"
      using p1(2-4) e(2,3) root mode by (auto simp: np_inv_def)
    then show thesis
      using that [of m "p1\<lparr>np_heap := put_entry (np_heap p1) t (unat ?b) e\<rparr>"] p1 e mode path root same
      by (simp add: np_map_page_table_def as_table_def get_page_directory_off_def get_pagetable_off_def
          np_abs_def np_root_def split: option.splits)
  next
    assume mode: "np_mode p = Legacy_Huge"
    have path: "np_path (np_mode p) v = ([], unat ?a)"
      by (simp add: v mode np_path_vpn)
    show thesis
      by (rule map_entry_ok [OF wf np_path_fun v' path tbl_at.simps(1) ptr, where k = 1])
        (use that mode path root num modes in
          \<open>simp add: np_map_page_table_def get_page_directory_off_def np_abs_def np_root_def np_inv_def\<close>)
  qed
qed


section \<open>Access\<close>

lemma np_access_hit:
  assumes inv: "np_inv p" and v: "v = np_vpn (np_mode p) (lineAddr req)"
    and some: "np_abs p v = Some ptr" and obj: "obj_addr z os ptr = Some ppn"
  obtains req' p' os' where "np_access z p os req = Inr (ppn, req', p', os')" "np_inv p'"
    "np_mode p' = np_mode p" "np_abs p' = np_abs p" "obj_addr z os' = obj_addr z os"
    "lineAddr req' = lineAddr req"
    "cycle req' = cycle req + ucast (mem_access_time z * (if np_mode p = Legacy_Normal then 2 else 3))"
proof -
  obtain root where root: "np_page_directory p = Some root" "np_root p = root"
    and wf: "wf_tree (np_szs (np_mode p)) (np_heap p) root"
    and num: "np_cur_page_table_num p = of_nat (num_tables (np_heap p) root 1)"
    and modes: "np_mode p = Legacy_Normal \<or> np_mode p = Legacy_Huge"
    using inv by (elim np_invE)
  let ?a = "get_bit_value (lineAddr req) 22 31" and ?b = "get_bit_value (lineAddr req) 12 21"
  obtain q i where path: "np_path (np_mode p) v = (q, unat i)"
    and i: "i = (if np_mode p = Legacy_Normal then ?b else ?a)"
    and q: "q = (if np_mode p = Legacy_Normal then [unat ?a] else [])"
    using modes by (auto simp: v np_path_vpn)
  obtain t e where v': "v < 1024 ^ Suc (np_levels (np_mode p))" and at: "tbl_at (np_heap p) root q = Some t"
    and e: "entry_of (np_heap p) t (unat i) = Some e" "pte_is_present e" "next_level_ptr e = ptr"
    using some [unfolded np_abs_def root(2)] path by (rule tree_abs_SomeE)
  let ?req = "add_cycles req (mem_access_time z * (if np_mode p = Legacy_Normal then 2 else 3))"
  obtain req' hp' os' where fin:
    "finish_access z os (np_heap p) ?req (Some t) (next_level_ptr e) i (point_buffer_page e) = Inr (ppn, req', hp', os')"
    "wf_tree (np_szs (np_mode p)) hp' root" "\<And>k. num_tables hp' root k = num_tables (np_heap p) root k"
    "tree_abs (1024 ^ Suc (np_levels (np_mode p))) (np_path (np_mode p)) hp' root = np_abs p"
    "obj_addr z os' = obj_addr z os" "lineAddr req' = lineAddr ?req" "cycle req' = cycle ?req"
    using finish_access_tree [OF wf np_path_fun v' path at e(1,2), of z os ppn ?req] obj e(3) root
    by (metis np_abs_def)
  have nonnull: "next_level_ptr e \<noteq> NullPtr"
    using wf_tree_entry_range(2) [OF wf at e(1)] e(2) by (simp add: entry_ok_def)
  have acc: "np_access z p os req = Inr (ppn, req', p\<lparr>np_heap := hp'\<rparr>, os')"
    using modes
  proof
    assume mode: "np_mode p = Legacy_Normal"
    then obtain f where f: "entry_of (np_heap p) root (unat ?a) = Some f" "next_level_ptr f = TablePtr t"
      using at q by (auto simp: bind_eq_Some_conv elim: child_entry)
    then have "table_get_next_level_address (np_heap p) root ?a = Inr (TablePtr t)"
      by (auto simp: table_get_next_level_address_def table_ref_def entry_of_def split: option.splits if_splits)
    then show ?thesis
      using mode root e(1) nonnull fin(1) i
      by (simp add: np_access_def np_access_tables_def get_page_directory_off_def get_pagetable_off_def
          as_table_def Let_def)
  next
    assume mode: "np_mode p = Legacy_Huge"
    then have "t = root" using at q by simp
    then show ?thesis
      using mode root e(1) nonnull fin(1) i
      by (simp add: np_access_def np_access_tables_def get_page_directory_off_def Let_def)
  qed
  show thesis
    by (rule that [OF acc])
      (use fin root num modes in \<open>simp_all add: np_inv_def np_abs_def np_root_def add_cycles_def\<close>)
qed

lemma np_access_miss:
  assumes inv: "np_inv p" and v: "v = np_vpn (np_mode p) (lineAddr req)" and none: "np_abs p v = None"
  shows "\<exists>lat. np_access z p os req = Inr (PAGE_FAULT_SIG, add_cycles req lat, p, os)"
proof -
  obtain root where root: "np_page_directory p = Some root" "np_root p = root"
    and wf: "wf_tree (np_szs (np_mode p)) (np_heap p) root"
    and modes: "np_mode p = Legacy_Normal \<or> np_mode p = Legacy_Huge"
    using inv by (elim np_invE)
  let ?a = "get_bit_value (lineAddr req) 22 31" and ?b = "get_bit_value (lineAddr req) 12 21"
  have v': "v < 1024 ^ Suc (np_levels (np_mode p))"
    unfolding v by (rule np_vpn_less)
  note defs = np_access_def np_access_tables_def get_page_directory_off_def get_pagetable_off_def
    as_table_def Let_def
  have null: "next_level_ptr e = NullPtr"
    if "np_path (np_mode p) v = (q, i)" "tbl_at (np_heap p) root q = Some t" "entry_of (np_heap p) t i = Some e"
      "length q = np_levels (np_mode p)" for q i t e
    using none tree_abs_table [where path = "np_path (np_mode p)", OF v' that(1-3)] root
      wf_tree_entry_range(2) [OF wf that(2,3)] that(4)
    by (auto simp: np_abs_def entry_ok_def split: if_splits)
  have at0: "tbl_at (np_heap p) root [] = Some root" by simp
  from modes show ?thesis
  proof
    assume mode: "np_mode p = Legacy_Huge"
    have path: "np_path (np_mode p) v = ([], unat ?a)"
      by (simp add: v mode np_path_vpn)
    obtain e where e: "entry_of (np_heap p) root (unat ?a) = Some e"
      using wf_tree_entry [OF wf at0, of "unat ?a"] by (auto simp: np_offsets)
    then show ?thesis
      using null [OF path at0 e] mode root by (auto simp: defs np_levels_def)
  next
    assume mode: "np_mode p = Legacy_Normal"
    have path: "np_path (np_mode p) v = ([unat ?a], unat ?b)"
      by (simp add: v mode np_path_vpn)
    have len: "Suc (length []) < length (np_szs (np_mode p))" "unat ?a < np_szs (np_mode p) ! length []"
      by (simp_all add: mode np_levels_def np_offsets)
    have next_eq: "table_get_next_level_address (np_heap p) root ?a = Inr (next_level_ptr f)"
      if "entry_of (np_heap p) root (unat ?a) = Some f" for f
      using that by (auto simp: table_get_next_level_address_def table_ref_def entry_of_def split: option.splits if_splits)
    show ?thesis
    proof (rule inner_next [OF wf at0 len])
      fix f assume "entry_of (np_heap p) root (unat ?a) = Some f" "next_level_ptr f = NullPtr"
      then show ?thesis
        using mode root next_eq by (intro exI [of _ 0]) (simp add: defs add_cycles_0)
    next
      fix f c assume f: "entry_of (np_heap p) root (unat ?a) = Some f" "next_level_ptr f = TablePtr c"
        "tbl_at (np_heap p) root ([] @ [unat ?a]) = Some c"
      then have c: "tbl_at (np_heap p) root [unat ?a] = Some c" by simp
      obtain e where e: "entry_of (np_heap p) c (unat ?b) = Some e"
        using wf_tree_entry [OF wf c, of "unat ?b"] mode by (auto simp: np_offsets np_levels_def)
      then show ?thesis
        using null [OF path c e] mode root f next_eq by (auto simp: defs np_levels_def)
    qed
  qed
qed

section \<open>The class implements the paging contract\<close>

interpretation legacy: base_paging np_inv "\<lambda>_. True" "\<lambda>p. np_vpn (np_mode p)" np_abs
  np_map_page_table np_access
proof
  fix p z a ptr b
  assume inv: "np_inv p" and ptr: "ptr_ok ptr b"
  show "\<exists>lat m p'. np_map_page_table z p a ptr b = Inr (lat, m, p') \<and> np_inv p' \<and>
      np_vpn (np_mode p') = np_vpn (np_mode p) \<and> np_abs p' = (np_abs p)(np_vpn (np_mode p) a \<mapsto> ptr) \<and>
      (m = None \<longleftrightarrow> np_abs p (np_vpn (np_mode p) a) \<noteq> None)"
    by (rule np_map_ok [OF inv ptr refl, where addr = a and z = z]) auto
next
  fix p z os ptr ppn and req :: MemReq
  assume "np_inv p" "np_abs p (np_vpn (np_mode p) (lineAddr req)) = Some ptr" "obj_addr z os ptr = Some ppn"
  from np_access_hit [OF this(1) refl this(2,3)]
  show "\<exists>req' p' os'. np_access z p os req = Inr (ppn, req', p', os') \<and> np_inv p' \<and>
      np_vpn (np_mode p') = np_vpn (np_mode p) \<and> np_abs p' = np_abs p \<and>
      obj_addr z os' = obj_addr z os \<and> lineAddr req' = lineAddr req"
    by metis
next
  fix p z os and req :: MemReq
  assume "np_inv p" "np_abs p (np_vpn (np_mode p) (lineAddr req)) = None"
  from np_access_miss [OF this(1) refl this(2), of z os]
  show "\<exists>req'. np_access z p os req = Inr (PAGE_FAULT_SIG, req', p, os) \<and> lineAddr req' = lineAddr req"
    by (auto simp: add_cycles_def)
qed

lemma NormalPaging_new_ok:
  assumes "block_size z \<noteq> 0" and mode: "mode = Legacy_Normal \<or> mode = Legacy_Huge"
  obtains p z' where "NormalPaging_new z mode = Inr (p, z')" "np_inv p" "np_mode p = mode"
    "np_abs p = (\<lambda>_. None)" "page_size z' = 2 ^ np_shift mode" "page_shift z' = np_shift mode"
proof -
  obtain root hp where new: "PageTable_new 1024 empty_heap = Inr (root, hp)"
    by simp
  have pow: "power_rec 2 10 = Some (2 ^ 10)" "power_rec 2 20 = Some (2 ^ 20)"
    using power_rec_pos [of 10 2] power_rec_pos [of 20 2] by simp_all
  let ?z = "z\<lparr>page_size := 2 ^ np_shift mode, page_shift := np_shift mode\<rparr>"
  obtain p where p: "NormalPaging_new z mode = Inr (p, ?z)"
    "np_heap p = hp" "np_page_directory p = Some root" "np_mode p = mode" "np_cur_page_table_num p = 0"
    using assms new
    by (auto simp: NormalPaging_new_def pow divE_def np_shift_def simp del: PageTable_new_eq)
  have wf: "wf_tree (np_szs mode) hp root"
    by (rule wf_tree_single(1) [OF new]) (simp_all add: np_szs_def)
  then have "np_inv p"
    using p mode num_tables_single [OF new] by (simp add: np_inv_def)
  moreover have "np_abs p = (\<lambda>_. None)"
    using wf_tree_single(3) [OF new, of "[1024]"] p
    by (intro ext) (simp add: np_abs_def tree_abs_def np_root_def np_path_def)
  ultimately show thesis
    using that p by simp
qed

section \<open>Removing tables\<close>

lemma np_remove_one_ok:
  assumes inv: "np_inv p" and mode: "np_mode p = Legacy_Normal" and i: "unat i < 1024"
  obtains r p' where "np_remove_one_page_table p i = Inr (r, p')" "np_inv p'" "np_mode p' = Legacy_Normal"
    "np_abs p' = (\<lambda>v. if v div 1024 = unat i then None else np_abs p v)"
proof -
  obtain root where root: "np_page_directory p = Some root" "np_root p = root"
    and wf: "wf_tree (np_szs (np_mode p)) (np_heap p) root"
    and num: "np_cur_page_table_num p = of_nat (num_tables (np_heap p) root 1)"
    using inv by (elim np_invE)
  have len: "Suc (length []) < length (np_szs (np_mode p))" "unat i < np_szs (np_mode p) ! length []"
    using i mode by (simp_all add: np_levels_def)
  have path: "np_path Legacy_Normal v = ([v div 1024], v mod 1024)" if "v < 1024 * 1024" for v
    using that by (simp add: np_path_def np_levels_def less_mult_imp_div_less)
  show thesis
  proof (rule inner_next [OF wf tbl_at.simps(1) len])
    fix e assume e: "entry_of (np_heap p) root (unat i) = Some e" "child (np_heap p) root (unat i) = None"
      "\<not> pte_is_present e"
    have run: "np_remove_one_page_table p i = Inr (False, p)"
      using e(1,3) root mode by (simp add: np_remove_one_page_table_def)
    have "np_abs p v = None" if "v div 1024 = unat i" for v
      using that e(2) by (simp add: np_abs_def tree_abs_def root mode path np_levels_def mapped_def leaf_at_def)
    then have "np_abs p = (\<lambda>v. if v div 1024 = unat i then None else np_abs p v)" by auto
    then show thesis by (rule that [OF run inv mode])
  next
    fix e c assume e: "entry_of (np_heap p) root (unat i) = Some e" "child (np_heap p) root (unat i) = Some c"
      "next_level_ptr e = TablePtr c" "tbl_at (np_heap p) root ([] @ [unat i]) = Some c" "pte_is_present e"
    let ?hp = "cut_table (np_heap p) root (unat i) c"
    let ?p = "p\<lparr>np_heap := ?hp, np_cur_page_table_num := np_cur_page_table_num p - 1\<rparr>"
    have ne: "root \<noteq> c" using cut_table_distinct(1) [OF wf tbl_at.simps(1) e(2)] .
    then have run: "np_remove_one_page_table p i = Inr (True, ?p)"
      using e(1,3,5) root mode by (simp add: np_remove_one_page_table_def)
    have leaf: "child (np_heap p) c j = None" for j
    proof (rule ccontr)
      assume "child (np_heap p) c j \<noteq> None"
      then obtain d where "tbl_at (np_heap p) root [unat i, j] = Some d" using e(2) by auto
      then show False using wf_tree_level [OF wf, of "[unat i, j]" d] mode by (simp add: np_levels_def)
    qed
    have pos: "0 < num_tables (np_heap p) root 1"
      using num_tables_pos [OF wf e(4)] by simp
    have "num_tables ?hp root 1 = num_tables (np_heap p) root 1 - 1"
      using num_tables_cut [OF wf tbl_at.simps(1) e(2) leaf, of 1] by simp
    then have "np_inv ?p"
      using wf_cut [OF wf tbl_at.simps(1) e(2)] root mode num pos
      by (simp add: np_inv_def of_nat_diff)
    moreover have "np_abs ?p v = (if v div 1024 = unat i then None else np_abs p v)" for v
      using leaf_cut [OF wf tbl_at.simps(1) e(2), of "[v div 1024]" "v mod 1024"] root mode
      by (cases "v div 1024 = unat i") (simp_all add: np_abs_def tree_abs_def np_root_def path np_levels_def mapped_def)
    ultimately show thesis using that [OF run] mode by auto
  qed
qed

lemma np_remove_rounds_ok:
  assumes "np_inv p" and "np_mode p = Legacy_Normal" and i: "unat i < 1024"
  shows "\<exists>r' p'. foldE (\<lambda>_ (succeed, p).
        bindE (np_remove_one_page_table p i) (\<lambda>(r, p). Inr (succeed \<and> r, p))) xs (r, p) = Inr (r', p') \<and>
      np_inv p' \<and> np_abs p' = (\<lambda>v. if xs \<noteq> [] \<and> v div 1024 = unat i then None else np_abs p v) \<and>
      (xs = [] \<longrightarrow> r' = r \<and> p' = p)"
  using assms(1,2)
proof (induction xs arbitrary: r p)
  case (Cons x xs)
  obtain r1 p1 where p1: "np_remove_one_page_table p i = Inr (r1, p1)" "np_inv p1" "np_mode p1 = Legacy_Normal"
    "np_abs p1 = (\<lambda>v. if v div 1024 = unat i then None else np_abs p v)"
    by (rule np_remove_one_ok [OF Cons.prems i])
  from Cons.IH [OF p1(2,3), of "r \<and> r1"] p1(1,4) show ?case by (auto simp: fun_eq_iff)
qed simp

section \<open>Properties\<close>

text \<open>
  C13. The 32-bit paging class implements the paging contract: after a page is mapped, an access to
  any address of that page returns the number of the mapped object, and an access to any other
  page returns what it returned before. The access is not a set-dirty request, and every object that
  is mapped exists.
\<close>

theorem np_map_then_access:
  assumes "np_inv p" "ptr_ok ptr b" "obj_addr z os ptr = Some ppn" "type_of req \<noteq> SETDIRTY"
    and "\<And>v q. np_abs p v = Some q \<Longrightarrow> obj_addr z os q \<noteq> None"
  shows "\<exists>lat m p'. np_map_page_table z p addr ptr b = Inr (lat, m, p') \<and>
    map_sum id fst (np_access z p' os req) =
      (if np_vpn (np_mode p) (lineAddr req) = np_vpn (np_mode p) addr then Inr ppn
       else map_sum id fst (np_access z p os req))"
proof (cases "np_vpn (np_mode p) (lineAddr req) = np_vpn (np_mode p) addr")
  case True
  from legacy.map_access [OF assms(1) TrueI assms(2,3) True assms(4)] True show ?thesis by auto
next
  case False
  obtain lat m p' where m: "np_map_page_table z p addr ptr b = Inr (lat, m, p')"
    using legacy.map_law [OF assms(1) TrueI assms(2)] by blast
  from legacy.map_access_other [OF assms(1) TrueI assms(2) False m assms(4)] assms(5) m False
  show ?thesis by auto
qed

lemma np_example_new:
  obtains p z' where "NormalPaging_new example_zinfo Legacy_Normal = Inr (p, z')" "np_inv p"
    "np_mode p = Legacy_Normal" "np_abs p = (\<lambda>_. None)"
proof -
  have "block_size example_zinfo \<noteq> 0" "Legacy_Normal = Legacy_Normal \<or> Legacy_Normal = Legacy_Huge"
    by (simp_all add: example_zinfo_def)
  from NormalPaging_new_ok [OF this] that show thesis by metis
qed

theorem np_map_then_access_witness:
  "\<exists>p z' lat m p'. NormalPaging_new example_zinfo Legacy_Normal = Inr (p, z') \<and>
     np_map_page_table example_zinfo p 0x12345678 (PagePtr 42) False = Inr (lat, m, p') \<and>
     map_sum id fst (np_access example_zinfo p' example_objs (example_req 0x12345fff)) = Inr 42"
proof -
  obtain p z' where p: "NormalPaging_new example_zinfo Legacy_Normal = Inr (p, z')" "np_inv p"
    "np_mode p = Legacy_Normal" "np_abs p = (\<lambda>_. None)"
    by (rule np_example_new)
  have "ptr_ok (PagePtr 42) False" "obj_addr example_zinfo example_objs (PagePtr 42) = Some 42"
    "type_of (example_req 0x12345fff) \<noteq> SETDIRTY"
    by (simp_all add: ptr_ok_def obj_addr_def example_objs_def example_req_def)
  from np_map_then_access [OF p(2) this, of "0x12345678"] p show ?thesis
    by (simp add: np_vpn_def np_shift_def np_levels_def example_req_def)
qed

text \<open>
  C14. In the 4KB mode \<open>unmap_page_table\<close> never unmaps: it drops the table it has looked up and
  returns false, so the page stays mapped.
\<close>

theorem np_unmap_keeps_page:
  assumes "np_inv p" "np_mode p = Legacy_Normal"
  shows "np_unmap_page_table p addr = Inr (False, p)"
proof -
  obtain root where root: "np_page_directory p = Some root"
    and wf: "wf_tree (np_szs (np_mode p)) (np_heap p) root"
    using assms(1) by (elim np_invE)
  obtain e where "entry_of (np_heap p) root (unat (get_bit_value addr 22 31)) = Some e"
    using wf_tree_entry [OF wf tbl_at.simps(1), of "unat (get_bit_value addr 22 31)"]
    by (auto simp: np_offsets)
  then show ?thesis
    using root assms(2) by (simp add: np_unmap_page_table_def get_page_directory_off_def)
qed

theorem np_unmap_keeps_page_witness:
  "\<exists>p z' lat m p'. NormalPaging_new example_zinfo Legacy_Normal = Inr (p, z') \<and>
     np_map_page_table example_zinfo p 0x12345678 (PagePtr 42) False = Inr (lat, m, p') \<and>
     np_unmap_page_table p' 0x12345678 = Inr (False, p') \<and>
     np_abs p' (np_vpn Legacy_Normal 0x12345678) = Some (PagePtr 42)"
proof -
  obtain p z' where p: "NormalPaging_new example_zinfo Legacy_Normal = Inr (p, z')" "np_inv p"
    "np_mode p = Legacy_Normal"
    by (rule np_example_new) blast
  have ptr: "ptr_ok (PagePtr 42) False" by (simp add: ptr_ok_def)
  obtain m p' where p': "np_inv p'" "np_mode p' = np_mode p"
    "np_abs p' = (np_abs p)(np_vpn (np_mode p) 0x12345678 \<mapsto> PagePtr 42)"
    "\<exists>lat. np_map_page_table example_zinfo p 0x12345678 (PagePtr 42) False = Inr (lat, m, p')"
    by (rule np_map_ok [OF p(2) ptr refl]) blast
  from np_unmap_keeps_page [OF p'(1)] p p' show ?thesis by auto
qed

text \<open>
  C15. Removing the tables of an address range does not remove the tables of the range: the number of
  tables is computed from the address instead of the size, and every round removes the same entry,
  the sum of the two. For a range that starts at directory entry \<open>d < 512\<close> the call unmaps the pages of
  entry \<open>2 * d\<close>, whatever the size, and no others; at \<open>d = 0\<close> it does nothing.
\<close>

theorem np_remove_range_removes_other_table:
  assumes "np_inv p" "np_mode p = Legacy_Normal" "unat addr = d * 2 ^ 22" "d < 512"
  shows "\<exists>r p'. np_remove_page_table_range p addr sz = Inr (r, p') \<and> np_inv p' \<and>
    np_abs p' = (\<lambda>v. if 0 < d \<and> v div 1024 = 2 * d then None else np_abs p v) \<and> (d = 0 \<longrightarrow> r \<and> p' = p)"
proof -
  define n :: u32 where "n = ucast (drop_bit 22 (addr + 0x3fffff))"
  let ?i = "get_page_directory_off addr Legacy_Normal + n"
  have "take_bit 22 (unat addr) = 0" by (simp add: assms(3) take_bit_eq_mod)
  then have "unat (take_bit 22 addr) = 0" by (simp only: unsigned_take_bit_eq)
  then have al: "addr AND 0x3fffff = 0" by (simp add: unat_eq_zero take_bit_eq_mask mask_eq_exp_minus_1)
  have "unat (addr + 0x3fffff) = d * 2 ^ 22 + (2 ^ 22 - 1)"
    using assms(3,4) by (simp add: unat_word_ariths)
  then have "unat (drop_bit 22 (addr + 0x3fffff)) = (d * 2 ^ 22 + (2 ^ 22 - 1)) div 2 ^ 22"
    by (simp add: unat_drop_bit)
  then have "unat (drop_bit 22 (addr + 0x3fffff)) = d" by simp
  then have n: "unat n = d" using assms(4) by (simp add: n_def unsigned_ucast_eq take_bit_nat_eq_self)
  have i: "unat ?i = 2 * d"
    using n assms(3,4) by (simp add: get_page_directory_off_def unat_word_ariths np_offsets)
  have ne: "upto_u32 n = [] \<longleftrightarrow> d = 0" by (simp add: upto_u32_def n)
  have "np_remove_page_table_range p addr sz = foldE (\<lambda>_ (succeed, p).
      bindE (np_remove_one_page_table p ?i) (\<lambda>(r, p). Inr (succeed \<and> r, p))) (upto_u32 n) (True, p)"
    using al assms(2) by (simp add: np_remove_page_table_range_def n_def Let_def)
  moreover have "unat ?i < 1024" using i assms(4) by simp
  then obtain r p' where "foldE (\<lambda>_ (succeed, p).
      bindE (np_remove_one_page_table p ?i) (\<lambda>(r, p). Inr (succeed \<and> r, p))) (upto_u32 n) (True, p) = Inr (r, p')"
    "np_inv p'" "np_abs p' = (\<lambda>v. if upto_u32 n \<noteq> [] \<and> v div 1024 = unat ?i then None else np_abs p v)"
    "upto_u32 n = [] \<longrightarrow> r = True \<and> p' = p"
    using np_remove_rounds_ok [OF assms(1,2)] by blast
  ultimately show ?thesis
    unfolding i ne by (intro exI [of _ r] exI [of _ p']) simp
qed

theorem np_remove_range_removes_other_table_witness:
  "\<exists>p z' lat m p' r p''. NormalPaging_new example_zinfo Legacy_Normal = Inr (p, z') \<and>
     np_map_page_table example_zinfo p 0x400000 (PagePtr 42) False = Inr (lat, m, p') \<and>
     np_remove_page_table_range p' 0x400000 0x400000 = Inr (r, p'') \<and>
     np_abs p'' (np_vpn Legacy_Normal 0x400000) = Some (PagePtr 42)"
proof -
  obtain p z' where p: "NormalPaging_new example_zinfo Legacy_Normal = Inr (p, z')" "np_inv p"
    "np_mode p = Legacy_Normal"
    by (rule np_example_new) blast
  have ptr: "ptr_ok (PagePtr 42) False" by (simp add: ptr_ok_def)
  obtain m p' where p': "np_inv p'" "np_mode p' = np_mode p"
    "np_abs p' = (np_abs p)(np_vpn (np_mode p) 0x400000 \<mapsto> PagePtr 42)"
    "\<exists>lat. np_map_page_table example_zinfo p 0x400000 (PagePtr 42) False = Inr (lat, m, p')"
    by (rule np_map_ok [OF p(2) ptr refl]) blast
  have "np_vpn Legacy_Normal 0x400000 div 1024 = 1" by (simp add: np_vpn_def np_shift_def np_levels_def)
  then have vpn: "\<not> (0 < (1 :: nat) \<and> np_vpn Legacy_Normal 0x400000 div 1024 = 2 * 1)" by simp
  have addr: "unat (0x400000 :: address) = 1 * 2 ^ 22" "(1 :: nat) < 512" by simp_all
  have "np_mode p' = Legacy_Normal" using p'(2) p(3) by simp
  from np_remove_range_removes_other_table [OF p'(1) this addr, of "0x400000"]
  obtain r p'' where r: "np_remove_page_table_range p' 0x400000 0x400000 = Inr (r, p'')"
    "np_abs p'' = (\<lambda>v. if 0 < (1 :: nat) \<and> v div 1024 = 2 * 1 then None else np_abs p' v)" by blast
  have "np_abs p'' (np_vpn Legacy_Normal 0x400000) = Some (PagePtr 42)"
    using p(3) p'(3) by (simp only: r(2) if_not_P [OF vpn]) simp
  then show ?thesis using p(1) p'(4) r(1) by blast
qed

end
