(* ===== verification/PAE_Paging.thy ===== *)
theory PAE_Paging
  imports Paging_Interface
begin

text \<open>
  \<open>class PAEPaging\<close> of \<open>page-table/page_table.cpp\<close>: a table of four page directories with
  2MB pages, or with page tables of 4KB pages below them.
\<close>

section \<open>The class\<close>

record PAEPaging =
  pae_heap :: table_heap
  pae_mode :: PagingStyle
  page_directory_pointer :: "nat option"
  pae_cur_pdt_num :: u32
  pae_cur_pt_num :: u32
  pae_buffer_table_entry_num :: u32
  pae_buffer_table_shift :: u32

definition PAEPaging_new :: "GlobSimInfo \<Rightarrow> PagingStyle \<Rightarrow> (PAEPaging \<times> GlobSimInfo) res" where
  "PAEPaging_new z select =
     bindE (PageTable_new 4 empty_heap) (\<lambda>(pdp, hp).
     bindE (if select = PAE_Normal then
              bindE (loopE (power_rec 2 10)) (\<lambda>kb. Inr (z\<lparr>page_size := 4 * kb, page_shift := 12\<rparr>))
            else if select = PAE_Huge then
              bindE (loopE (power_rec 2 20)) (\<lambda>mb. Inr (z\<lparr>page_size := 2 * mb, page_shift := 21\<rparr>))
            else Inr z) (\<lambda>z.
     bindE (divE (page_size z) (ucast (block_size z))) (\<lambda>num.
     Inr (\<lparr>pae_heap = hp, pae_mode = select, page_directory_pointer = Some pdp,
           pae_cur_pdt_num = 0, pae_cur_pt_num = 0, pae_buffer_table_entry_num = ucast num,
           pae_buffer_table_shift = of_nat (page_shift z) - of_nat (block_shift z)\<rparr>, z))))"

section \<open>Allocation of tables\<close>

definition pae_allocate_page_table ::
  "PAEPaging \<Rightarrow> u32 \<Rightarrow> u32 \<Rightarrow> (void_ptr \<times> u32 \<times> PAEPaging) res" where
  "pae_allocate_page_table p pdpt_entry_id pd_entry_id =
     bindE (assertE (pae_mode p = PAE_Normal \<and> pae_cur_pt_num p < 512)) (\<lambda>_.
     bindE (derefE (page_directory_pointer p)) (\<lambda>pdp.
     bindE (get_next_level_address (pae_heap p) pdp pdpt_entry_id) (\<lambda>table.
     if table = NullPtr then
       bindE (PageTable_new 512 (pae_heap p)) (\<lambda>(table, hp).
       bindE (validate_entry hp pdp pdpt_entry_id (TablePtr table) False) (\<lambda>hp.
       bindE (PageTable_new 512 hp) (\<lambda>(page, hp).
       bindE (validate_entry hp table pd_entry_id (TablePtr page) False) (\<lambda>hp.
       Inr (TablePtr page, 2,
            p\<lparr>pae_heap := hp, pae_cur_pt_num := pae_cur_pt_num p + 1,
              pae_cur_pdt_num := pae_cur_pdt_num p + 1\<rparr>)))))
     else
       bindE (as_table table) (\<lambda>table.
       bindE (get_next_level_address (pae_heap p) table pd_entry_id) (\<lambda>page.
       if page = NullPtr then
         bindE (PageTable_new 512 (pae_heap p)) (\<lambda>(page, hp).
         bindE (validate_entry hp table pd_entry_id (TablePtr page) False) (\<lambda>hp.
         Inr (TablePtr page, 1, p\<lparr>pae_heap := hp, pae_cur_pt_num := pae_cur_pt_num p + 1\<rparr>)))
       else Inr (page, 0, p))))))"

definition pae_allocate_pdt :: "PAEPaging \<Rightarrow> u32 \<Rightarrow> (void_ptr \<times> u32 \<times> PAEPaging) res" where
  "pae_allocate_pdt p pdpt_entry =
     bindE (assertE (pae_cur_pdt_num p < 4 \<and> pdpt_entry < 4)) (\<lambda>_.
     bindE (derefE (page_directory_pointer p)) (\<lambda>pdp.
     bindE (get_next_level_address (pae_heap p) pdp pdpt_entry) (\<lambda>page_dir.
     if page_dir \<noteq> NullPtr then Inr (page_dir, 0, p)
     else
       bindE (PageTable_new 512 (pae_heap p)) (\<lambda>(page_dir, hp).
       bindE (validate_entry hp pdp pdpt_entry (TablePtr page_dir) False) (\<lambda>hp.
       Inr (TablePtr page_dir, 1, p\<lparr>pae_heap := hp, pae_cur_pt_num := pae_cur_pt_num p + 1\<rparr>))))))"

definition pae_allocate_page_table_range ::
  "PAEPaging \<Rightarrow> address \<Rightarrow> address \<Rightarrow> (bool \<times> PAEPaging) res" where
  "pae_allocate_page_table_range p addr sz =
     (if addr AND 0x1fffff \<noteq> 0 then Inr (False, p)
      else
        let pd_offset = get_page_directory_off addr PAE_Normal;
            pdp_offset = get_page_directory_pointer_off addr PAE_Normal;
            page_num = ucast (drop_bit 21 (sz + 0x1fffff)) :: u32
        in bindE (assertE (page_num + pd_offset < 512)) (\<lambda>_.
           foldE (\<lambda>i (succeed, p).
             bindE (pae_allocate_page_table p pdp_offset (i + pd_offset)) (\<lambda>(page, _, p).
             Inr (succeed \<and> page \<noteq> NullPtr, p))) (upto_u32 page_num) (True, p)))"

text \<open>
  In the version for a list of entry pairs the closing parenthesis is misplaced: the call has two
  arguments, which is the address range version, and the value tested is the comma operand
  \<open>time\<close>, which is 0.
\<close>

definition pae_allocate_page_tables ::
  "PAEPaging \<Rightarrow> (u32 \<times> u32) list \<Rightarrow> (bool \<times> PAEPaging) res" where
  "pae_allocate_page_tables p pdt_entry =
     foldE (\<lambda>(a, b) (succeed, p).
       bindE (pae_allocate_page_table_range p (ucast a) (ucast b)) (\<lambda>(_, p).
       Inr (False, p))) pdt_entry (True, p)"

definition pae_allocate_pdts :: "PAEPaging \<Rightarrow> u32 list \<Rightarrow> (bool \<times> PAEPaging) res" where
  "pae_allocate_pdts p pdpt_entry =
     foldE (\<lambda>it (succeed, p).
       bindE (pae_allocate_pdt p it) (\<lambda>(page_dir, _, p).
       Inr (succeed \<and> page_dir \<noteq> NullPtr, p))) pdpt_entry (True, p)"

definition pae_allocate_pdt_range ::
  "PAEPaging \<Rightarrow> address \<Rightarrow> address \<Rightarrow> (bool \<times> PAEPaging) res" where
  "pae_allocate_pdt_range p addr sz =
     (let succeed = (addr AND 0x7fffffff = 0);
          base_addr = get_page_directory_pointer_off addr (pae_mode p);
          page_dir_num = ucast (drop_bit 30 (sz + 0x7fffffff)) :: u32
      in foldE (\<lambda>i (succeed, p).
           bindE (pae_allocate_pdt p (base_addr + i)) (\<lambda>(page_dir, _, p).
           Inr (succeed \<and> page_dir \<noteq> NullPtr, p))) (upto_u32 page_dir_num) (succeed, p))"

section \<open>Mapping, unmapping and access\<close>

definition pae_map_leaf ::
  "GlobSimInfo \<Rightarrow> void_ptr \<Rightarrow> bool \<Rightarrow> u32 \<Rightarrow> void_ptr \<times> u32 \<times> PAEPaging \<Rightarrow>
   (u32 \<times> (nat \<times> u32) option \<times> PAEPaging) res" where
  "pae_map_leaf z pg_ptr pbuffer i r =
     (case r of (table, allocate_time, p) \<Rightarrow>
       if table = NullPtr then Inr (0, None, p)
       else
         bindE (as_table table) (\<lambda>t.
         bindE (map_entry (pae_heap p) t i pg_ptr pbuffer) (\<lambda>(mapped_entry, hp).
         Inr (mem_access_time z * (1 + allocate_time), mapped_entry, p\<lparr>pae_heap := hp\<rparr>))))"

definition pae_map_page_table ::
  "GlobSimInfo \<Rightarrow> PAEPaging \<Rightarrow> address \<Rightarrow> void_ptr \<Rightarrow> bool \<Rightarrow>
   (u32 \<times> (nat \<times> u32) option \<times> PAEPaging) res" where
  "pae_map_page_table z p addr pg_ptr pbuffer =
     (let pdp_id = get_page_directory_pointer_off addr (pae_mode p);
          pd_id = get_page_directory_off addr (pae_mode p) in
     if pae_mode p = PAE_Normal then
       bindE (pae_allocate_page_table p pdp_id pd_id)
         (pae_map_leaf z pg_ptr pbuffer (get_pagetable_off addr (pae_mode p)))
     else if pae_mode p = PAE_Huge then
       bindE (pae_allocate_pdt p pdp_id) (pae_map_leaf z pg_ptr pbuffer pd_id)
     else Inr (mem_access_time z * (1 + 0), None, p))"

definition pae_unmap_page_table :: "PAEPaging \<Rightarrow> address \<Rightarrow> (bool \<times> PAEPaging) res" where
  "pae_unmap_page_table p addr =
     (let pdp_id = get_page_directory_pointer_off addr (pae_mode p);
          pd_id = get_page_directory_off addr (pae_mode p) in
     bindE (derefE (page_directory_pointer p)) (\<lambda>pdp.
     bindE (get_next_level_address (pae_heap p) pdp pdp_id) (\<lambda>pd_ptr.
     if pd_ptr = NullPtr then Inr (False, p)
     else if pae_mode p = PAE_Normal then
       bindE (as_table pd_ptr) (\<lambda>pd.
       bindE (get_next_level_address (pae_heap p) pd pd_id) (\<lambda>pt_ptr.
       if pt_ptr = NullPtr then Inr (False, p)
       else
         bindE (as_table pt_ptr) (\<lambda>pt.
         bindE (invalidate_page (pae_heap p) pt (get_pagetable_off addr (pae_mode p))) (\<lambda>hp.
         Inr (True, p\<lparr>pae_heap := hp\<rparr>)))))
     else if pae_mode p = PAE_Huge then
       bindE (as_table pd_ptr) (\<lambda>pd.
       bindE (invalidate_page (pae_heap p) pd pd_id) (\<lambda>hp. Inr (True, p\<lparr>pae_heap := hp\<rparr>)))
     else Inr (False, p))))"

text \<open>
  In the 4KB mode the variable \<open>pg_id\<close> that is passed on is not the one that is assigned, so
  its value is the content \<open>raw_pg_id\<close> of uninitialised memory. In the 2MB mode the table that is
  passed on is the page directory pointer table, not the page directory.
\<close>

definition pae_access_tables ::
  "u32 \<Rightarrow> GlobSimInfo \<Rightarrow> PAEPaging \<Rightarrow> mem_objs \<Rightarrow> MemReq \<Rightarrow>
   (address \<times> MemReq \<times> table_heap \<times> mem_objs) res" where
  "pae_access_tables raw_pg_id z p os req =
     (let addr = lineAddr req; hp = pae_heap p;
          pdp_id = get_page_directory_pointer_off addr (pae_mode p);
          pd_id = get_page_directory_off addr (pae_mode p);
          fault = (\<lambda>req. Inr (PAGE_FAULT_SIG, req, hp, os)) in
     bindE (derefE (page_directory_pointer p)) (\<lambda>pdp.
     bindE (get_next_level_address hp pdp pdp_id) (\<lambda>ptr.
     if ptr = NullPtr then fault req
     else
       bindE (as_table ptr) (\<lambda>pd.
       bindE (if pae_mode p = PAE_Huge then
                bindE (point_to_buffer_table hp pd pd_id) (\<lambda>pbuffer.
                Inr (Some pdp, pbuffer, pd_id, add_cycles req (mem_access_time z * 3)))
              else Inr (None, False, raw_pg_id, req)) (\<lambda>(pgt, pbuffer, pg_id, req).
       bindE (get_next_level_address hp pd pd_id) (\<lambda>ptr.
       if ptr = NullPtr then fault req
       else if pae_mode p = PAE_Normal then
         let pt_id = get_pagetable_off addr (pae_mode p) in
         bindE (as_table ptr) (\<lambda>pgt.
         bindE (point_to_buffer_table hp pgt pt_id) (\<lambda>pbuffer.
         bindE (get_next_level_address hp pgt pt_id) (\<lambda>ptr.
         finish_access z os hp (add_cycles req (mem_access_time z * 4)) (Some pgt) ptr pg_id pbuffer)))
       else finish_access z os hp req pgt ptr pg_id pbuffer))))))"

definition pae_access ::
  "u32 \<Rightarrow> GlobSimInfo \<Rightarrow> PAEPaging \<Rightarrow> mem_objs \<Rightarrow> MemReq \<Rightarrow>
   (address \<times> MemReq \<times> PAEPaging \<times> mem_objs) res" where
  "pae_access raw_pg_id z p os req =
     bindE (pae_access_tables raw_pg_id z p os req) (\<lambda>(addr, req, hp, os).
     Inr (addr, req, p\<lparr>pae_heap := hp\<rparr>, os))"

section \<open>Removal of tables\<close>

definition pae_remove_page_table :: "PAEPaging \<Rightarrow> u32 \<Rightarrow> u32 \<Rightarrow> (bool \<times> PAEPaging) res" where
  "pae_remove_page_table p pdpt_num pd_num =
     bindE (assertE (pdpt_num < 4 \<and> pd_num < 512 \<and> pae_mode p = PAE_Normal)) (\<lambda>_.
     bindE (derefE (page_directory_pointer p)) (\<lambda>pdp.
     bindE (get_next_level_address (pae_heap p) pdp pdpt_num) (\<lambda>page_dir.
     if page_dir = NullPtr then Inr (False, p)
     else
       bindE (as_table page_dir) (\<lambda>page_dir.
       bindE (is_present (pae_heap p) page_dir pd_num) (\<lambda>present.
       if present then
         bindE (invalidate_entry (pae_heap p) page_dir pd_num) (\<lambda>hp.
         Inr (True, p\<lparr>pae_heap := hp, pae_cur_pt_num := pae_cur_pt_num p - 1\<rparr>))
       else Inr (False, p))))))"

definition pae_remove_pdt :: "PAEPaging \<Rightarrow> u32 \<Rightarrow> (bool \<times> PAEPaging) res" where
  "pae_remove_pdt p pdp_entry_id =
     bindE (derefE (page_directory_pointer p)) (\<lambda>pdp.
     bindE (get_next_level_address (pae_heap p) pdp pdp_entry_id) (\<lambda>page_dir.
     if page_dir = NullPtr then Inr (False, p)
     else if pae_mode p = PAE_Huge then
       bindE (invalidate_entry (pae_heap p) pdp pdp_entry_id) (\<lambda>hp.
       Inr (True, p\<lparr>pae_heap := hp, pae_cur_pdt_num := pae_cur_pdt_num p - 1\<rparr>))
     else if pae_mode p = PAE_Normal then
       bindE (as_table page_dir) (\<lambda>page_dir.
       bindE (foldE (\<lambda>i p.
           bindE (is_present (pae_heap p) page_dir i) (\<lambda>present.
           if present then bindE (pae_remove_page_table p pdp_entry_id i) (\<lambda>(_, p). Inr p)
           else Inr p)) (upto_u32 512) p) (\<lambda>p.
       Inr (True, p\<lparr>pae_cur_pdt_num := pae_cur_pdt_num p - 1\<rparr>)))
     else Inr (False, p)))"

definition pae_remove_root_directory :: "PAEPaging \<Rightarrow> PAEPaging res" where
  "pae_remove_root_directory p =
     bindE (assertE (page_directory_pointer p \<noteq> None)) (\<lambda>_.
     bindE (derefE (page_directory_pointer p)) (\<lambda>pdp.
     bindE (foldE (\<lambda>i p.
         bindE (is_present (pae_heap p) pdp i) (\<lambda>present.
         if present then bindE (pae_remove_pdt p i) (\<lambda>(_, p). Inr p) else Inr p))
       (upto_u32 4) p) (\<lambda>p.
     Inr (p\<lparr>pae_heap := (pae_heap p)\<lparr>tables := (tables (pae_heap p))(pdp := None)\<rparr>,
            page_directory_pointer := None\<rparr>))))"

definition pae_remove_pdt_range ::
  "PAEPaging \<Rightarrow> address \<Rightarrow> address \<Rightarrow> (bool \<times> PAEPaging) res" where
  "pae_remove_pdt_range p addr sz =
     (let succeed = (addr AND 0x7fffffff = 0);
          page_dir_ptr = get_page_directory_pointer_off addr PAE_Normal;
          dir_num = ucast (drop_bit 30 (sz + 0x7fffffff)) :: u32
      in foldE (\<lambda>i (succeed, p).
           bindE (pae_remove_pdt p (page_dir_ptr + i)) (\<lambda>(r, p).
           Inr (if r then False else succeed, p))) (upto_u32 dir_num) (succeed, p))"

definition pae_remove_pdts :: "PAEPaging \<Rightarrow> u32 list \<Rightarrow> (bool \<times> PAEPaging) res" where
  "pae_remove_pdts p pdpt_entry =
     foldE (\<lambda>it (succeed, p).
       bindE (pae_remove_pdt p it) (\<lambda>(r, p). Inr (succeed \<and> r, p))) pdpt_entry (True, p)"

definition pae_remove_page_table_range ::
  "PAEPaging \<Rightarrow> address \<Rightarrow> address \<Rightarrow> (bool \<times> PAEPaging) res" where
  "pae_remove_page_table_range p addr sz =
     (if addr AND 0x1fffff \<noteq> 0 then Inr (False, p)
      else
        let page_dir_ptr = get_page_directory_pointer_off addr PAE_Normal;
            page_dir = get_page_directory_off addr PAE_Normal;
            page_table_num = ucast (drop_bit 21 (sz + 0x1fffff)) :: u32
        in foldE (\<lambda>i (succeed, p).
             bindE (pae_remove_page_table p page_dir_ptr (page_dir + i)) (\<lambda>(r, p).
             Inr (succeed \<and> r, p))) (upto_u32 page_table_num) (True, p))"

definition pae_remove_page_tables :: "PAEPaging \<Rightarrow> (u32 \<times> u32) list \<Rightarrow> (bool \<times> PAEPaging) res" where
  "pae_remove_page_tables p pdp_entry =
     bindE (assertE (pae_mode p = PAE_Normal)) (\<lambda>_.
     foldE (\<lambda>(a, b) (succeed, p).
       bindE (pae_remove_page_table p a b) (\<lambda>(r, p). Inr (succeed \<and> r, p))) pdp_entry (True, p))"

section \<open>Invariant and abstraction\<close>

text \<open>
  Both modes tell pages apart by bits 21 to 31 of the address only: the offset in a page table
  is computed from the empty bit range 21 to 20.
\<close>

definition pae_szs :: "PagingStyle \<Rightarrow> nat list" where
  "pae_szs mode = (if mode = PAE_Normal then [4, 512, 512] else [4, 512])"

definition pae_path :: "PagingStyle \<Rightarrow> nat \<Rightarrow> nat list \<times> nat" where
  "pae_path mode v =
     (if mode = PAE_Normal then ([v div 512, v mod 512], 0) else ([v div 512], v mod 512))"

definition pae_vpn :: "address \<Rightarrow> nat" where
  "pae_vpn addr = unat addr div 2 ^ 21 mod 2048"

definition pae_root :: "PAEPaging \<Rightarrow> nat" where
  "pae_root p = the (page_directory_pointer p)"

definition pae_inv :: "PAEPaging \<Rightarrow> bool" where
  "pae_inv p \<longleftrightarrow>
     (case page_directory_pointer p of
        None \<Rightarrow> False
      | Some root \<Rightarrow> wf_tree (pae_szs (pae_mode p)) (pae_heap p) root \<and>
          (pae_mode p = PAE_Normal \<and>
             pae_cur_pdt_num p = of_nat (num_tables (pae_heap p) root 1) \<and>
             pae_cur_pt_num p = of_nat (num_tables (pae_heap p) root 2) \<or>
           pae_mode p = PAE_Huge \<and>
             pae_cur_pdt_num p = 0 \<and>
             pae_cur_pt_num p = of_nat (num_tables (pae_heap p) root 1)))"

definition pae_room :: "PAEPaging \<Rightarrow> bool" where
  "pae_room p \<longleftrightarrow> pae_mode p = PAE_Normal \<longrightarrow> pae_cur_pt_num p < 512"

definition pae_abs :: "PAEPaging \<Rightarrow> nat \<Rightarrow> void_ptr option" where
  "pae_abs p = tree_abs 2048 (pae_path (pae_mode p)) (pae_heap p) (pae_root p)"

lemma pae_path_fun:
  assumes "mode = PAE_Normal \<or> mode = PAE_Huge"
  shows "path_fun (pae_szs mode) 2048 (pae_path mode)"
proof -
  have "v = w" if "v div 512 = w div 512" "v mod 512 = w mod 512" for v w :: nat
    using that by (metis div_mult_mod_eq)
  then show ?thesis
    using assms by (auto simp: path_fun_def inj_on_def pae_path_def pae_szs_def)
qed

lemma pae_invE:
  assumes "pae_inv p"
  obtains root where "page_directory_pointer p = Some root" "pae_root p = root"
    "wf_tree (pae_szs (pae_mode p)) (pae_heap p) root"
    "pae_mode p = PAE_Normal \<or> pae_mode p = PAE_Huge"
  using assms by (auto simp: pae_inv_def pae_root_def split: option.splits)

lemma pae_offsets:
  "unat (get_bit_value addr 30 31) = pae_vpn addr div 512"
  "unat (get_bit_value addr 21 29) = pae_vpn addr mod 512"
  "get_bit_value addr 21 20 = 0"
proof -
  have eq: "n mod (512 * 4) div 512 = n div 512 mod 4" "n mod (512 * 4) mod 512 = n mod 512" for n :: nat
    unfolding mod_mult2_eq by simp_all
  show "unat (get_bit_value addr 30 31) = pae_vpn addr div 512"
    using unat_get_bit_value [of 30 31 addr] eq(1) [of "unat addr div 2 ^ 21"]
    by (simp add: pae_vpn_def div_mult2_eq [symmetric])
  show "unat (get_bit_value addr 21 29) = pae_vpn addr mod 512"
    using unat_get_bit_value [of 21 29 addr] eq(2) [of "unat addr div 2 ^ 21"]
    by (simp add: pae_vpn_def)
  show "get_bit_value addr 21 20 = 0"
    by (simp add: get_bit_value_def mask_len_def)
qed

lemma pae_vpn_less: "pae_vpn addr < 2048"
  by (simp add: pae_vpn_def)

lemma pae_path_vpn:
  "pae_path PAE_Normal (pae_vpn addr) =
     ([unat (get_bit_value addr 30 31), unat (get_bit_value addr 21 29)], unat (0 :: u32))"
  "pae_path PAE_Huge (pae_vpn addr) =
     ([unat (get_bit_value addr 30 31)], unat (get_bit_value addr 21 29))"
  by (simp_all add: pae_path_def pae_offsets)

lemma pae_path_word:
  assumes "mode = PAE_Normal \<or> mode = PAE_Huge"
  shows "\<exists>q. \<exists>i :: u32. pae_path mode (pae_vpn addr) = (q, unat i)"
  using assms pae_path_vpn by metis

lemma pae_offset_less:
  "unat (get_bit_value addr 30 31) < 4" "unat (get_bit_value addr 21 29) < 512"
  using pae_vpn_less [of addr] by (simp_all add: pae_offsets)

section \<open>Allocation and mapping\<close>

definition pae_ensured ::
  "PAEPaging \<Rightarrow> nat list \<Rightarrow> (void_ptr \<times> u32 \<times> PAEPaging) res \<Rightarrow> bool" where
  "pae_ensured p q r \<longleftrightarrow>
     (\<exists>t n p'. r = Inr (TablePtr t, n, p') \<and> pae_inv p' \<and> pae_mode p' = pae_mode p \<and>
        page_directory_pointer p' = page_directory_pointer p \<and>
        extends (pae_szs (pae_mode p)) (pae_root p) (pae_heap p) (pae_heap p') \<and>
        tbl_at (pae_heap p') (pae_root p) q = Some t)"

lemma pae_allocate_pdt_ensured:
  assumes inv: "pae_inv p" and mode: "pae_mode p = PAE_Huge" and i: "unat i < 4"
  shows "pae_ensured p [unat i] (pae_allocate_pdt p i)"
proof -
  obtain root where root: "page_directory_pointer p = Some root" "pae_root p = root"
    and wf: "wf_tree (pae_szs (pae_mode p)) (pae_heap p) root"
    using inv by (elim pae_invE)
  have cnt: "pae_cur_pdt_num p = 0" "pae_cur_pt_num p = of_nat (num_tables (pae_heap p) root 1)"
    using inv mode root by (simp_all add: pae_inv_def)
  have guard: "i < 4" using i by (simp add: word_less_nat_alt)
  have len: "Suc (length []) < length (pae_szs (pae_mode p))" "unat i < pae_szs (pae_mode p) ! length []"
    using i mode by (simp_all add: pae_szs_def)
  show ?thesis
  proof (rule inner_next [OF wf tbl_at.simps(1) len])
    fix e assume e: "entry_of (pae_heap p) root (unat i) = Some e" "child (pae_heap p) root (unat i) = None"
      "next_level_ptr e = NullPtr"
    let ?hp = "link_new (pae_szs (pae_mode p)) (pae_heap p) [] root i"
    let ?p = "p\<lparr>pae_heap := ?hp, pae_cur_pt_num := pae_cur_pt_num p + 1\<rparr>"
    note link = wf tbl_at.simps(1) len e(2)
    have "validate_entry (new_table 512 (pae_heap p)) root i (TablePtr (next_table (pae_heap p))) False = Inr ?hp"
      using link_new_code [OF link(1-4)] mode by (simp add: pae_szs_def)
    then have "pae_allocate_pdt p i = Inr (TablePtr (next_table (pae_heap p)), 1, ?p)"
      using e root cnt guard by (simp add: pae_allocate_pdt_def)
    moreover have "pae_inv ?p"
      using link_new_facts(1) [OF link] num_tables_link [OF link] root mode cnt
      by (simp add: pae_inv_def)
    ultimately show ?thesis
      using link_new_facts(2) [OF link, of "[unat i]"] extends_link [OF link] root
      by (simp add: pae_ensured_def)
  next
    fix e c assume "entry_of (pae_heap p) root (unat i) = Some e" "child (pae_heap p) root (unat i) = Some c"
      "next_level_ptr e = TablePtr c"
    then show ?thesis
      using inv root cnt guard extends_refl [OF wf] by (simp add: pae_allocate_pdt_def pae_ensured_def)
  qed
qed

lemma pae_link_pt:
  assumes inv: "pae_inv p" and mode: "pae_mode p = PAE_Normal" and root: "page_directory_pointer p = Some root"
    and at: "tbl_at (pae_heap p) root [a] = Some t" and j: "unat j < 512"
    and free: "child (pae_heap p) t (unat j) = None"
  defines "hp \<equiv> link_new (pae_szs (pae_mode p)) (pae_heap p) [a] t j"
  shows "validate_entry (new_table 512 (pae_heap p)) t j (TablePtr (next_table (pae_heap p))) False = Inr hp"
    and "pae_inv (p\<lparr>pae_heap := hp, pae_cur_pt_num := pae_cur_pt_num p + 1\<rparr>)"
    and "extends (pae_szs (pae_mode p)) root (pae_heap p) hp"
    and "tbl_at hp root [a, unat j] = Some (next_table (pae_heap p))"
proof -
  have wf: "wf_tree (pae_szs (pae_mode p)) (pae_heap p) root"
    using inv root by (auto elim: pae_invE)
  have cnt: "pae_cur_pdt_num p = of_nat (num_tables (pae_heap p) root 1)"
    "pae_cur_pt_num p = of_nat (num_tables (pae_heap p) root 2)"
    using inv mode root by (simp_all add: pae_inv_def)
  have len: "Suc (length [a]) < length (pae_szs (pae_mode p))" "unat j < pae_szs (pae_mode p) ! length [a]"
    using j mode by (simp_all add: pae_szs_def)
  note link = wf at len free
  show "validate_entry (new_table 512 (pae_heap p)) t j (TablePtr (next_table (pae_heap p))) False = Inr hp"
    using link_new_code [OF link(1-4)] mode by (simp add: pae_szs_def hp_def)
  show "pae_inv (p\<lparr>pae_heap := hp, pae_cur_pt_num := pae_cur_pt_num p + 1\<rparr>)"
    using link_new_facts(1) [OF link] num_tables_link [OF link] root mode cnt
    by (simp add: pae_inv_def hp_def)
  show "extends (pae_szs (pae_mode p)) root (pae_heap p) hp"
    unfolding hp_def by (rule extends_link [OF link])
  show "tbl_at hp root [a, unat j] = Some (next_table (pae_heap p))"
    using link_new_facts(2) [OF link, of "[a, unat j]"] by (simp add: hp_def)
qed

lemma pae_link_pdt:
  assumes inv: "pae_inv p" and mode: "pae_mode p = PAE_Normal" and root: "page_directory_pointer p = Some root"
    and i: "unat i < 4" and free: "child (pae_heap p) root (unat i) = None"
  defines "hp \<equiv> link_new (pae_szs (pae_mode p)) (pae_heap p) [] root i"
  shows "validate_entry (new_table 512 (pae_heap p)) root i (TablePtr (next_table (pae_heap p))) False = Inr hp"
    and "pae_inv (p\<lparr>pae_heap := hp, pae_cur_pdt_num := pae_cur_pdt_num p + 1\<rparr>)"
    and "extends (pae_szs (pae_mode p)) root (pae_heap p) hp"
    and "tbl_at hp root [unat i] = Some (next_table (pae_heap p))"
    and "child hp (next_table (pae_heap p)) j = None"
proof -
  have wf: "wf_tree (pae_szs (pae_mode p)) (pae_heap p) root"
    using inv root by (auto elim: pae_invE)
  have cnt: "pae_cur_pdt_num p = of_nat (num_tables (pae_heap p) root 1)"
    "pae_cur_pt_num p = of_nat (num_tables (pae_heap p) root 2)"
    using inv mode root by (simp_all add: pae_inv_def)
  have len: "Suc (length []) < length (pae_szs (pae_mode p))" "unat i < pae_szs (pae_mode p) ! length []"
    using i mode by (simp_all add: pae_szs_def)
  note link = wf tbl_at.simps(1) len free
  show "validate_entry (new_table 512 (pae_heap p)) root i (TablePtr (next_table (pae_heap p))) False = Inr hp"
    using link_new_code [OF link(1-4)] mode by (simp add: pae_szs_def hp_def)
  show "pae_inv (p\<lparr>pae_heap := hp, pae_cur_pdt_num := pae_cur_pdt_num p + 1\<rparr>)"
    using link_new_facts(1) [OF link] num_tables_link [OF link] root mode cnt
    by (simp add: pae_inv_def hp_def)
  show "extends (pae_szs (pae_mode p)) root (pae_heap p) hp"
    unfolding hp_def by (rule extends_link [OF link])
  show "tbl_at hp root [unat i] = Some (next_table (pae_heap p))"
    using link_new_facts(2) [OF link, of "[unat i]"] by (simp add: hp_def)
  show "child hp (next_table (pae_heap p)) j = None"
    unfolding hp_def by (rule child_link_new(2) [OF link])
qed

lemma pae_allocate_pt_ensured:
  assumes inv: "pae_inv p" and mode: "pae_mode p = PAE_Normal" and room: "pae_cur_pt_num p < 512"
    and i: "unat i < 4" and j: "unat j < 512"
  shows "pae_ensured p [unat i, unat j] (pae_allocate_page_table p i j)"
proof -
  obtain root where root: "page_directory_pointer p = Some root" "pae_root p = root"
    and wf: "wf_tree (pae_szs (pae_mode p)) (pae_heap p) root"
    using inv by (elim pae_invE)
  have len: "Suc (length []) < length (pae_szs (pae_mode p))" "unat i < pae_szs (pae_mode p) ! length []"
    "Suc (length ([] @ [unat i])) < length (pae_szs (pae_mode p))"
    "unat j < pae_szs (pae_mode p) ! length ([] @ [unat i])"
    using i j mode by (simp_all add: pae_szs_def)
  show ?thesis
  proof (rule inner_next [OF wf tbl_at.simps(1) len(1,2)])
    fix e assume e: "entry_of (pae_heap p) root (unat i) = Some e" "child (pae_heap p) root (unat i) = None"
      "next_level_ptr e = NullPtr"
    note one = pae_link_pdt [OF inv mode root(1) i e(2)]
    let ?hp = "link_new (pae_szs (pae_mode p)) (pae_heap p) [] root i"
    let ?p = "p\<lparr>pae_heap := ?hp, pae_cur_pdt_num := pae_cur_pdt_num p + 1\<rparr>"
    have two: "pae_inv ?p" "pae_mode ?p = PAE_Normal" "page_directory_pointer ?p = Some root"
      "tbl_at (pae_heap ?p) root [unat i] = Some (next_table (pae_heap p))"
      "child (pae_heap ?p) (next_table (pae_heap p)) (unat j) = None"
      using one mode root by simp_all
    note three = pae_link_pt [OF two(1-4) j two(5)]
    have "pae_inv (p\<lparr>pae_heap := link_new (pae_szs (pae_mode p)) ?hp [unat i] (next_table (pae_heap p)) j,
        pae_cur_pt_num := pae_cur_pt_num p + 1, pae_cur_pdt_num := pae_cur_pdt_num p + 1\<rparr>)"
      using three(2) root mode by (simp add: pae_inv_def)
    then show ?thesis
      using e root mode room one(1,3) three(1,3,4) extends_trans [OF one(3)]
      by (simp add: pae_allocate_page_table_def pae_ensured_def)
  next
    fix e t assume e: "entry_of (pae_heap p) root (unat i) = Some e" "child (pae_heap p) root (unat i) = Some t"
      "next_level_ptr e = TablePtr t" "tbl_at (pae_heap p) root ([] @ [unat i]) = Some t"
    have at: "tbl_at (pae_heap p) root [unat i] = Some t" using e(4) by simp
    show ?thesis
    proof (rule inner_next [OF wf e(4) len(3,4)])
      fix f assume f: "entry_of (pae_heap p) t (unat j) = Some f" "child (pae_heap p) t (unat j) = None"
        "next_level_ptr f = NullPtr"
      show ?thesis
        using e f root mode room pae_link_pt [OF inv mode root(1) at j f(2)]
        by (simp add: pae_allocate_page_table_def pae_ensured_def as_table_def)
    next
      fix f c assume "entry_of (pae_heap p) t (unat j) = Some f" "child (pae_heap p) t (unat j) = Some c"
        "next_level_ptr f = TablePtr c"
      then show ?thesis
        using e inv root mode room extends_refl [OF wf]
        by (simp add: pae_allocate_page_table_def pae_ensured_def as_table_def)
    qed
  qed
qed


lemma pae_map_leaf_ok:
  assumes ens: "pae_ensured p q r" and inv: "pae_inv p" and ptr: "ptr_ok ptr b"
    and path: "pae_path (pae_mode p) v = (q, unat i)" and v: "v < 2048"
  obtains lat m p' where "bindE r (pae_map_leaf z ptr b i) = Inr (lat, m, p')"
    "pae_inv p'" "pae_mode p' = pae_mode p" "pae_abs p' = (pae_abs p)(v \<mapsto> ptr)"
    "m = None \<longleftrightarrow> pae_abs p v \<noteq> None"
proof -
  obtain t n p1 where r: "r = Inr (TablePtr t, n, p1)"
    and p1: "pae_inv p1" "pae_mode p1 = pae_mode p" "page_directory_pointer p1 = page_directory_pointer p"
    and ext: "extends (pae_szs (pae_mode p)) (pae_root p) (pae_heap p) (pae_heap p1)"
    and at: "tbl_at (pae_heap p1) (pae_root p) q = Some t"
    using ens by (auto simp: pae_ensured_def)
  have modes: "pae_mode p = PAE_Normal \<or> pae_mode p = PAE_Huge"
    using inv by (elim pae_invE)
  obtain root where root: "page_directory_pointer p = Some root" "pae_root p = root" "pae_root p1 = root"
    using inv p1(3) by (elim pae_invE) (simp add: pae_root_def)
  have wf: "wf_tree (pae_szs (pae_mode p)) (pae_heap p1) (pae_root p)"
    using ext by (simp add: extends_def)
  note pf = pae_path_fun [OF modes]
  show thesis
  proof (rule map_entry_ok [OF wf pf v path at ptr, where k = 1])
    fix m e assume e: "map_entry (pae_heap p1) t i ptr b = Inr (m, put_entry (pae_heap p1) t (unat i) e)"
      "entry_ok False e" "wf_tree (pae_szs (pae_mode p)) (put_entry (pae_heap p1) t (unat i) e) (pae_root p)"
      "tree_abs 2048 (pae_path (pae_mode p)) (put_entry (pae_heap p1) t (unat i) e) (pae_root p) =
         (tree_abs 2048 (pae_path (pae_mode p)) (pae_heap p1) (pae_root p))(v \<mapsto> ptr)"
      "m = None \<longleftrightarrow> tree_abs 2048 (pae_path (pae_mode p)) (pae_heap p1) (pae_root p) v \<noteq> None"
    let ?p' = "p1\<lparr>pae_heap := put_entry (pae_heap p1) t (unat i) e\<rparr>"
    have "Suc (length q) = length (pae_szs (pae_mode p))"
      using pf v path by (auto simp: path_fun_def)
    from num_tables_put_leaf [OF wf at this e(2)] have "pae_inv ?p'"
      using p1 e(3) root by (simp add: pae_inv_def)
    then show thesis
      using that [of "mem_access_time z * (1 + n)" m ?p'] e root p1(2,3) tree_abs_extends [OF ext pf]
      by (simp add: r pae_map_leaf_def as_table_def pae_abs_def) (simp add: pae_root_def)
  qed
qed

lemma pae_map_ok:
  assumes inv: "pae_inv p" and room: "pae_room p" and ptr: "ptr_ok ptr b" and v: "v = pae_vpn addr"
  obtains lat m p' where "pae_map_page_table z p addr ptr b = Inr (lat, m, p')"
    "pae_inv p'" "pae_mode p' = pae_mode p" "pae_abs p' = (pae_abs p)(v \<mapsto> ptr)"
    "m = None \<longleftrightarrow> pae_abs p v \<noteq> None"
proof -
  have v': "v < 2048" by (simp add: v pae_vpn_less)
  note off = pae_offset_less [of addr]
  consider "pae_mode p = PAE_Normal" | "pae_mode p = PAE_Huge"
    using inv by (auto elim: pae_invE)
  then show thesis
  proof cases
    case 1
    then have "pae_cur_pt_num p < 512" using room by (simp add: pae_room_def)
    note ens = pae_allocate_pt_ensured [OF inv 1 this off]
    show thesis
      by (rule pae_map_leaf_ok [OF ens inv ptr _ v', where i = 0 and z = z])
        (use that 1 in \<open>simp_all add: v pae_path_vpn pae_map_page_table_def get_pagetable_off_def
          get_page_directory_pointer_off_def get_page_directory_off_def pae_offsets(3)\<close>)
  next
    case 2
    note ens = pae_allocate_pdt_ensured [OF inv 2 off(1)]
    show thesis
      by (rule pae_map_leaf_ok [OF ens inv ptr _ v', where i = "get_bit_value addr 21 29" and z = z])
        (use that 2 in \<open>simp_all add: v pae_path_vpn pae_map_page_table_def
          get_page_directory_pointer_off_def get_page_directory_off_def\<close>)
  qed
qed

section \<open>Access\<close>

text \<open>The table and index passed to \<open>get_block_id\<close> matter to set-dirty requests only.\<close>

lemma finish_access_cong:
  "type_of req \<noteq> SETDIRTY \<Longrightarrow>
     finish_access z os hp req pgt ptr i b = finish_access z os hp req pgt' ptr i' b"
  by (simp add: finish_access_def get_block_id_def)

lemma pae_walk:
  assumes inv: "pae_inv p" and v: "v = pae_vpn (lineAddr req)"
    and path: "pae_path (pae_mode p) v = (q, unat i)"
    and at: "tbl_at (pae_heap p) (pae_root p) q = Some t" and e: "entry_of (pae_heap p) t (unat i) = Some e"
    and dirty: "type_of req \<noteq> SETDIRTY \<or> next_level_ptr e = NullPtr"
  shows "\<exists>lat. pae_access_tables raw z p os req =
    (if next_level_ptr e = NullPtr then Inr (PAGE_FAULT_SIG, add_cycles req lat, pae_heap p, os)
     else finish_access z os (pae_heap p) (add_cycles req lat) (Some t) (next_level_ptr e) i (point_buffer_page e))"
proof -
  let ?a = "get_bit_value (lineAddr req) 30 31" and ?b = "get_bit_value (lineAddr req) 21 29"
  obtain root where root: "page_directory_pointer p = Some root" "pae_root p = root"
    and modes: "pae_mode p = PAE_Normal \<or> pae_mode p = PAE_Huge"
    using inv by (elim pae_invE)
  note defs = pae_access_tables_def get_page_directory_pointer_off_def get_page_directory_off_def
    get_pagetable_off_def as_table_def Let_def
  have cong: "finish_access z os hp (add_cycles req lat) pgt (next_level_ptr e) i1 b =
      finish_access z os hp (add_cycles req lat) pgt' (next_level_ptr e) i2 b"
    if "next_level_ptr e \<noteq> NullPtr" for hp lat pgt pgt' i1 i2 b
    using dirty that by (intro finish_access_cong) (simp add: add_cycles_def)
  have null: "finish_access z os (pae_heap p) req' pgt NullPtr i' b =
      Inr (PAGE_FAULT_SIG, req', pae_heap p, os)" for req' pgt i' b
    by (simp add: finish_access_def get_block_id_def PAGE_FAULT_SIG_def INVALID_PAGE_ADDR_def)
  from modes show ?thesis
  proof
    assume mode: "pae_mode p = PAE_Normal"
    then have q: "q = [unat ?a, unat ?b]" and i: "i = 0"
      using path by (auto simp: v pae_path_vpn word_unat_eq_iff)
    obtain u where c: "child (pae_heap p) root (unat ?a) = Some u" "child (pae_heap p) u (unat ?b) = Some t"
      using at root by (auto simp: q bind_eq_Some_conv)
    obtain f g where fg: "entry_of (pae_heap p) root (unat ?a) = Some f" "next_level_ptr f = TablePtr u"
      "entry_of (pae_heap p) u (unat ?b) = Some g" "next_level_ptr g = TablePtr t"
      using child_entry [OF c(1)] child_entry [OF c(2)] by metis
    have "pae_access_tables raw z p os req = finish_access z os (pae_heap p)
        (add_cycles req (mem_access_time z * 4)) (Some t) (next_level_ptr e) raw (point_buffer_page e)"
      using fg mode root e i by (simp add: defs pae_offsets(3))
    also have "\<dots> = (if next_level_ptr e = NullPtr
        then Inr (PAGE_FAULT_SIG, add_cycles req (mem_access_time z * 4), pae_heap p, os)
        else finish_access z os (pae_heap p) (add_cycles req (mem_access_time z * 4)) (Some t)
          (next_level_ptr e) i (point_buffer_page e))"
      using null cong by auto
    finally show ?thesis by blast
  next
    assume mode: "pae_mode p = PAE_Huge"
    then have q: "q = [unat ?a]" and i: "i = ?b"
      using path by (auto simp: v pae_path_vpn word_unat_eq_iff)
    have c: "child (pae_heap p) root (unat ?a) = Some t"
      using at root by (auto simp: q bind_eq_Some_conv)
    obtain f where f: "entry_of (pae_heap p) root (unat ?a) = Some f" "next_level_ptr f = TablePtr t"
      using child_entry [OF c] by metis
    have "pae_access_tables raw z p os req = (if next_level_ptr e = NullPtr
        then Inr (PAGE_FAULT_SIG, add_cycles req (mem_access_time z * 3), pae_heap p, os)
        else finish_access z os (pae_heap p) (add_cycles req (mem_access_time z * 3)) (Some root)
          (next_level_ptr e) ?b (point_buffer_page e))"
      using f mode root e i by (simp add: defs)
    then show ?thesis
      using cong by (intro exI [of _ "mem_access_time z * 3"]) auto
  qed
qed

lemma pae_walk_stops:
  assumes inv: "pae_inv p" and v: "v = pae_vpn (lineAddr req)"
    and path: "pae_path (pae_mode p) v = (q, i)" and at: "tbl_at (pae_heap p) (pae_root p) q = None"
  shows "\<exists>lat. pae_access_tables raw z p os req = Inr (PAGE_FAULT_SIG, add_cycles req lat, pae_heap p, os)"
proof -
  let ?a = "get_bit_value (lineAddr req) 30 31" and ?b = "get_bit_value (lineAddr req) 21 29"
  obtain root where root: "page_directory_pointer p = Some root" "pae_root p = root"
    and wf: "wf_tree (pae_szs (pae_mode p)) (pae_heap p) root"
    and modes: "pae_mode p = PAE_Normal \<or> pae_mode p = PAE_Huge"
    using inv by (elim pae_invE)
  note defs = pae_access_tables_def get_page_directory_pointer_off_def get_page_directory_off_def
    get_pagetable_off_def as_table_def Let_def
  have len: "Suc (length []) < length (pae_szs (pae_mode p))" "unat ?a < pae_szs (pae_mode p) ! length []"
    using pae_offset_less by (simp_all add: pae_szs_def)
  show ?thesis
  proof (rule inner_next [OF wf tbl_at.simps(1) len])
    fix e assume "entry_of (pae_heap p) root (unat ?a) = Some e" "next_level_ptr e = NullPtr"
    then show ?thesis
      using root modes by (intro exI [of _ 0]) (auto simp: defs add_cycles_0)
  next
    fix e t assume e: "entry_of (pae_heap p) root (unat ?a) = Some e" "next_level_ptr e = TablePtr t"
      "child (pae_heap p) root (unat ?a) = Some t" "tbl_at (pae_heap p) root ([] @ [unat ?a]) = Some t"
    have mode: "pae_mode p = PAE_Normal"
      using modes at path e(3) root by (auto simp: v pae_path_vpn)
    then have len': "Suc (length ([] @ [unat ?a])) < length (pae_szs (pae_mode p))"
      "unat ?b < pae_szs (pae_mode p) ! length ([] @ [unat ?a])"
      using pae_offset_less by (simp_all add: pae_szs_def)
    show ?thesis
    proof (rule inner_next [OF wf e(4) len'])
      fix f assume "entry_of (pae_heap p) t (unat ?b) = Some f" "next_level_ptr f = NullPtr"
      then show ?thesis
        using root mode e by (intro exI [of _ 0]) (simp add: defs add_cycles_0)
    next
      fix f u assume "child (pae_heap p) t (unat ?b) = Some u"
      then show ?thesis
        using at path e(3) root mode by (auto simp: v pae_path_vpn)
    qed
  qed
qed


lemma pae_access_miss:
  assumes inv: "pae_inv p" and v: "v = pae_vpn (lineAddr req)" and none: "pae_abs p v = None"
  shows "\<exists>lat. pae_access raw z p os req = Inr (PAGE_FAULT_SIG, add_cycles req lat, p, os)"
proof -
  obtain root where root: "pae_root p = root" and wf: "wf_tree (pae_szs (pae_mode p)) (pae_heap p) root"
    and modes: "pae_mode p = PAE_Normal \<or> pae_mode p = PAE_Huge"
    using inv by (elim pae_invE)
  have v': "v < 2048" by (simp add: v pae_vpn_less)
  obtain q i where path: "pae_path (pae_mode p) v = (q, unat (i :: u32))"
    using pae_path_word [OF modes] v by blast
  have "\<exists>lat. pae_access_tables raw z p os req = Inr (PAGE_FAULT_SIG, add_cycles req lat, pae_heap p, os)"
  proof (cases "tbl_at (pae_heap p) root q")
    case None
    then show ?thesis using pae_walk_stops [OF inv v path] root by simp
  next
    case (Some t)
    have q: "Suc (length q) = length (pae_szs (pae_mode p))" "unat i < pae_szs (pae_mode p) ! length q"
      using pae_path_fun [OF modes] v' path by (auto simp: path_fun_def)
    obtain e where e: "entry_of (pae_heap p) t (unat i) = Some e" "entry_ok False e"
      using wf_tree_entry [OF wf Some q(2)] q(1) by auto
    then have "next_level_ptr e = NullPtr"
      using none tree_abs_table [where path = "pae_path (pae_mode p)", OF v' path Some e(1)] root
      by (auto simp: pae_abs_def entry_ok_def split: if_splits)
    then show ?thesis
      using pae_walk [OF inv v path _ e(1)] Some root by auto
  qed
  then show ?thesis by (auto simp: pae_access_def)
qed

lemma pae_access_hit:
  assumes inv: "pae_inv p" and v: "v = pae_vpn (lineAddr req)"
    and some: "pae_abs p v = Some ptr" and obj: "obj_addr z os ptr = Some ppn"
    and dirty: "type_of req \<noteq> SETDIRTY"
  obtains req' p' os' where "pae_access raw z p os req = Inr (ppn, req', p', os')" "pae_inv p'"
    "pae_mode p' = pae_mode p" "pae_abs p' = pae_abs p" "obj_addr z os' = obj_addr z os"
    "lineAddr req' = lineAddr req"
proof -
  obtain root where root: "page_directory_pointer p = Some root" "pae_root p = root"
    and wf: "wf_tree (pae_szs (pae_mode p)) (pae_heap p) root"
    and modes: "pae_mode p = PAE_Normal \<or> pae_mode p = PAE_Huge"
    using inv by (elim pae_invE)
  obtain q i where path: "pae_path (pae_mode p) v = (q, unat (i :: u32))"
    using pae_path_word [OF modes] v by blast
  note pf = pae_path_fun [OF modes]
  obtain t e where v': "v < 2048" and at: "tbl_at (pae_heap p) root q = Some t"
    and e: "entry_of (pae_heap p) t (unat i) = Some e" "pte_is_present e" "next_level_ptr e = ptr"
    using some [unfolded pae_abs_def root(2)] path by (rule tree_abs_SomeE)
  have "next_level_ptr e \<noteq> NullPtr"
    using wf_tree_entry_range(2) [OF wf at e(1)] e(2) by (simp add: entry_ok_def)
  moreover have "tbl_at (pae_heap p) (pae_root p) q = Some t"
    using at root by simp
  ultimately obtain lat where walk: "pae_access_tables raw z p os req =
      finish_access z os (pae_heap p) (add_cycles req lat) (Some t) (next_level_ptr e) i (point_buffer_page e)"
    using pae_walk [OF inv v path _ e(1), of raw z os] dirty by auto
  have obj': "obj_addr z os (next_level_ptr e) = Some ppn"
    using obj e(3) by simp
  show thesis
  proof (rule finish_access_tree [OF wf pf v' path at e(1,2) obj', where req = "add_cycles req lat"])
    fix req' hp' os'
    assume fin: "finish_access z os (pae_heap p) (add_cycles req lat) (Some t) (next_level_ptr e) i
        (point_buffer_page e) = Inr (ppn, req', hp', os')"
      "wf_tree (pae_szs (pae_mode p)) hp' root" "\<And>k. num_tables hp' root k = num_tables (pae_heap p) root k"
      "tree_abs 2048 (pae_path (pae_mode p)) hp' root = tree_abs 2048 (pae_path (pae_mode p)) (pae_heap p) root"
      "obj_addr z os' = obj_addr z os" "lineAddr req' = lineAddr (add_cycles req lat)"
    show thesis
    proof (rule that [of req' "p\<lparr>pae_heap := hp'\<rparr>" os'])
      show "pae_inv (p\<lparr>pae_heap := hp'\<rparr>)"
        using inv fin(2,3) root by (simp add: pae_inv_def)
    qed (use fin walk root in \<open>simp_all add: pae_access_def pae_abs_def pae_root_def add_cycles_def\<close>)
  qed
qed

section \<open>The class implements the paging contract\<close>

interpretation pae: base_paging pae_inv pae_room "\<lambda>_. pae_vpn" pae_abs pae_map_page_table "pae_access raw"
  for raw
proof
  fix p z a ptr b
  assume inv: "pae_inv p" and room: "pae_room p" and ptr: "ptr_ok ptr b"
  show "\<exists>lat m p'. pae_map_page_table z p a ptr b = Inr (lat, m, p') \<and> pae_inv p' \<and> pae_vpn = pae_vpn \<and>
      pae_abs p' = (pae_abs p)(pae_vpn a \<mapsto> ptr) \<and> (m = None \<longleftrightarrow> pae_abs p (pae_vpn a) \<noteq> None)"
    by (rule pae_map_ok [OF inv room ptr refl, where addr = a and z = z]) auto
next
  fix p z os ptr ppn and req :: MemReq
  assume "pae_inv p" "pae_abs p (pae_vpn (lineAddr req)) = Some ptr" "obj_addr z os ptr = Some ppn"
    "type_of req \<noteq> SETDIRTY"
  from pae_access_hit [OF this(1) refl this(2-4)]
  show "\<exists>req' p' os'. pae_access raw z p os req = Inr (ppn, req', p', os') \<and> pae_inv p' \<and> pae_vpn = pae_vpn \<and>
      pae_abs p' = pae_abs p \<and> obj_addr z os' = obj_addr z os \<and> lineAddr req' = lineAddr req"
    by metis
next
  fix p z os and req :: MemReq
  assume "pae_inv p" "pae_abs p (pae_vpn (lineAddr req)) = None"
  from pae_access_miss [OF this(1) refl this(2), of raw z os]
  show "\<exists>req'. pae_access raw z p os req = Inr (PAGE_FAULT_SIG, req', p, os) \<and> lineAddr req' = lineAddr req"
    by (auto simp: add_cycles_def)
qed


lemma PAEPaging_new_ok:
  assumes "block_size z \<noteq> 0" and mode: "mode = PAE_Normal \<or> mode = PAE_Huge"
  obtains p z' where "PAEPaging_new z mode = Inr (p, z')" "pae_inv p" "pae_mode p = mode"
    "pae_abs p = (\<lambda>_. None)" "page_shift z' = (if mode = PAE_Normal then 12 else 21)"
    "pae_cur_pt_num p = 0"
proof -
  obtain root hp where new: "PageTable_new 4 empty_heap = Inr (root, hp)"
    by simp
  have pow: "power_rec 2 10 = Some (2 ^ 10)" "power_rec 2 20 = Some (2 ^ 20)"
    using power_rec_pos [of 10 2] power_rec_pos [of 20 2] by simp_all
  let ?k = "if mode = PAE_Normal then 12 else 21"
  obtain p where p: "PAEPaging_new z mode = Inr (p, z\<lparr>page_size := 2 ^ ?k, page_shift := ?k\<rparr>)"
    "pae_heap p = hp" "page_directory_pointer p = Some root" "pae_mode p = mode"
    "pae_cur_pdt_num p = 0" "pae_cur_pt_num p = 0"
    using assms new by (auto simp: PAEPaging_new_def pow divE_def simp del: PageTable_new_eq)
  have wf: "wf_tree (pae_szs mode) hp root"
    by (rule wf_tree_single(1) [OF new]) (simp_all add: pae_szs_def)
  then have "pae_inv p"
    using p mode num_tables_single [OF new] by (auto simp: pae_inv_def)
  moreover have "pae_abs p = (\<lambda>_. None)"
    using wf_tree_single(3) [OF new, of "[4]"] p
    by (intro ext) (simp add: pae_abs_def tree_abs_def pae_root_def pae_path_def)
  ultimately show thesis
    using that p by simp
qed

section \<open>Properties\<close>

text \<open>
  C16. The PAE class implements the paging contract at a granularity of 2MB in both modes, as long
  as fewer than 512 page tables exist: after a mapping, an access that is not a set-dirty request
  to any address with the same bits 21 to 31 returns the mapped object, and every other access
  what it returned before.
\<close>

theorem pae_map_then_access:
  assumes "pae_inv p" "pae_room p" "ptr_ok ptr b" "obj_addr z os ptr = Some ppn" "type_of req \<noteq> SETDIRTY"
    and "\<And>v q. pae_abs p v = Some q \<Longrightarrow> obj_addr z os q \<noteq> None"
  shows "\<exists>lat m p'. pae_map_page_table z p addr ptr b = Inr (lat, m, p') \<and>
    map_sum id fst (pae_access raw z p' os req) =
      (if pae_vpn (lineAddr req) = pae_vpn addr then Inr ppn
       else map_sum id fst (pae_access raw z p os req))"
proof (cases "pae_vpn (lineAddr req) = pae_vpn addr")
  case True
  from pae.map_access [where raw = raw, OF assms(1-4) True assms(5)] True show ?thesis by fastforce
next
  case False
  obtain lat m p' where m: "pae_map_page_table z p addr ptr b = Inr (lat, m, p')"
    using pae.map_law [OF assms(1-3)] by blast
  from pae.map_access_other [where raw = raw, OF assms(1-3) False m assms(5)] assms(6) m False
  show ?thesis by auto
qed

lemma pae_example_new:
  assumes "mode = PAE_Normal \<or> mode = PAE_Huge"
  obtains p z' where "PAEPaging_new example_zinfo mode = Inr (p, z')" "pae_inv p"
    "pae_mode p = mode" "pae_abs p = (\<lambda>_. None)" "pae_room p"
proof -
  have bs: "block_size example_zinfo \<noteq> 0"
    by (simp add: example_zinfo_def)
  show thesis
    by (rule PAEPaging_new_ok [OF bs assms], rule that) (auto simp: pae_room_def)
qed

theorem pae_map_then_access_witness:
  "\<exists>p z' lat m p'. PAEPaging_new example_zinfo PAE_Huge = Inr (p, z') \<and>
     pae_map_page_table example_zinfo p 0x12345678 (PagePtr 42) False = Inr (lat, m, p') \<and>
     map_sum id fst (pae_access 0 example_zinfo p' example_objs (example_req 0x122fffff)) = Inr 42"
proof -
  obtain p z' where p: "PAEPaging_new example_zinfo PAE_Huge = Inr (p, z')" "pae_inv p"
    "pae_abs p = (\<lambda>_. None)" "pae_room p"
    by (rule pae_example_new [of PAE_Huge]) auto
  have ptr: "ptr_ok (PagePtr 42) False" "obj_addr example_zinfo example_objs (PagePtr 42) = Some 42"
    "type_of (example_req 0x122fffff) \<noteq> SETDIRTY"
    by (simp_all add: ptr_ok_def obj_addr_def example_objs_def example_req_def)
  from pae_map_then_access [OF p(2,4) ptr, of "0x12345678" 0] p show ?thesis
    by (simp add: pae_vpn_def example_req_def)
qed

text \<open>
  C17. In the 2MB mode a set-dirty request looks up the entry in the page directory pointer table of
  four entries with the offset in the page directory: for a page whose offset is 4 or more the
  index is out of range.
\<close>

theorem pae_huge_set_dirty_out_of_range:
  assumes "pae_inv p" "pae_mode p = PAE_Huge" "pae_abs p (pae_vpn (lineAddr req)) = Some (BlockPtr n)"
    and "obj_blocks os n \<noteq> None" "type_of req = SETDIRTY" "4 \<le> pae_vpn (lineAddr req) mod 512"
  shows "pae_access raw z p os req = Inl Out_of_range"
proof -
  let ?a = "get_bit_value (lineAddr req) 30 31" and ?b = "get_bit_value (lineAddr req) 21 29"
  obtain root where root: "page_directory_pointer p = Some root" "pae_root p = root"
    and wf: "wf_tree (pae_szs (pae_mode p)) (pae_heap p) root"
    using assms(1) by (elim pae_invE)
  have path: "pae_path (pae_mode p) (pae_vpn (lineAddr req)) = ([unat ?a], unat ?b)"
    by (simp add: assms(2) pae_path_vpn)
  obtain t e where at: "tbl_at (pae_heap p) root [unat ?a] = Some t"
    and e: "entry_of (pae_heap p) t (unat ?b) = Some e" "pte_is_present e" "next_level_ptr e = BlockPtr n"
    using assms(3) [unfolded pae_abs_def root(2)] path by (rule tree_abs_SomeE)
  have "point_buffer_page e"
    using wf_tree_entry_range(2) [OF wf at e(1)] e(3) assms(2) by (simp add: pae_szs_def entry_ok_def)
  moreover obtain f where "entry_of (pae_heap p) root (unat ?a) = Some f" "next_level_ptr f = TablePtr t"
    using at by (auto simp: bind_eq_Some_conv elim: child_entry)
  moreover obtain es where "tables (pae_heap p) root = Some es" "length es = 4"
    using wf_tree_level [OF wf tbl_at.simps(1)] assms(2) by (auto simp: level_ok_def pae_szs_def)
  then have "raw_entry (pae_heap p) root ?b = Inl Out_of_range"
    using assms(6) by (simp add: raw_entry_def table_ref_def nthE_def pae_offsets(2))
  moreover obtain blk where "obj_blocks os n = Some blk"
    using assms(4) by auto
  ultimately show ?thesis
    using root assms(2,5) e
    by (simp add: pae_access_def pae_access_tables_def get_page_directory_pointer_off_def
        get_page_directory_off_def as_table_def Let_def finish_access_def get_block_id_def as_block_def
        add_cycles_def)
qed

theorem pae_huge_set_dirty_out_of_range_witness:
  "\<exists>p z' lat m p'. PAEPaging_new example_zinfo PAE_Huge = Inr (p, z') \<and>
     pae_map_page_table example_zinfo p 0x12345678 (BlockPtr 7) True = Inr (lat, m, p') \<and>
     pae_access 0 example_zinfo p' example_objs ((example_req 0x12345678)\<lparr>type_of := SETDIRTY\<rparr>) =
       Inl Out_of_range"
proof -
  obtain p z' where p: "PAEPaging_new example_zinfo PAE_Huge = Inr (p, z')" "pae_inv p"
    "pae_mode p = PAE_Huge" "pae_room p"
    by (rule pae_example_new [of PAE_Huge]) auto
  have ptr: "ptr_ok (BlockPtr 7) True" by (simp add: ptr_ok_def)
  obtain lat m p' where p': "pae_map_page_table example_zinfo p 0x12345678 (BlockPtr 7) True = Inr (lat, m, p')"
    "pae_inv p'" "pae_mode p' = pae_mode p" "pae_abs p' = (pae_abs p)(pae_vpn 0x12345678 \<mapsto> BlockPtr 7)"
    by (rule pae_map_ok [OF p(2,4) ptr refl]) blast
  let ?req = "(example_req 0x12345678)\<lparr>type_of := SETDIRTY\<rparr>"
  have "pae_access 0 example_zinfo p' example_objs ?req = Inl Out_of_range"
    by (rule pae_huge_set_dirty_out_of_range [OF p'(2), where n = 7])
      (use p p' in \<open>simp_all add: example_req_def example_objs_def pae_vpn_def\<close>)
  then show ?thesis using p p' by blast
qed

text \<open>
  C18. In the 2MB mode \<open>allocate_pdt\<close> counts the new page directory in \<open>cur_pt_num\<close> while
  \<open>remove_pdt\<close> decrements \<open>cur_pdt_num\<close>, which is 0: it wraps around, and every later mapping
  fails the assertion that there are fewer than four page directories.
\<close>

theorem pae_huge_map_after_remove_fails:
  assumes "pae_inv p" "pae_mode p = PAE_Huge" "child (pae_heap p) (pae_root p) (unat i) \<noteq> None"
  shows "\<exists>p'. pae_remove_pdt p i = Inr (True, p') \<and>
    (\<forall>z addr ptr b. pae_map_page_table z p' addr ptr b = Inl Assert_failed)"
proof -
  obtain root where root: "page_directory_pointer p = Some root" "pae_root p = root"
    and wf: "wf_tree (pae_szs (pae_mode p)) (pae_heap p) root"
    using assms(1) by (elim pae_invE)
  have "pae_cur_pdt_num p = 0"
    using assms(1,2) root by (simp add: pae_inv_def)
  obtain c where c: "child (pae_heap p) root (unat i) = Some c"
    using assms(3) root by auto
  obtain e where e: "entry_of (pae_heap p) root (unat i) = Some e" "next_level_ptr e = TablePtr c"
    by (rule child_entry [OF c])
  have at: "tbl_at (pae_heap p) root [] = Some root" by simp
  have "pte_is_present e"
    using wf_tree_entry_range(2) [OF wf at e(1)] e(2) by (simp add: entry_ok_def)
  then have "invalidate_entry (pae_heap p) root i = Inr (cut_table (pae_heap p) root (unat i) c)"
    using e cut_table_distinct(1) [OF wf at c] by simp
  then show ?thesis
    using root assms(2) e \<open>pae_cur_pdt_num p = 0\<close>
    by (simp add: pae_remove_pdt_def pae_map_page_table_def pae_allocate_pdt_def word_less_nat_alt
        unsigned_minus_1_eq_mask mask_eq_exp_minus_1)
qed


theorem pae_huge_map_after_remove_fails_witness:
  "\<exists>p z' lat m p' p''. PAEPaging_new example_zinfo PAE_Huge = Inr (p, z') \<and>
     pae_map_page_table example_zinfo p 0x1000 (PagePtr 1) False = Inr (lat, m, p') \<and>
     pae_remove_pdt p' 0 = Inr (True, p'') \<and>
     pae_map_page_table example_zinfo p'' 0x1000 (PagePtr 1) False = Inl Assert_failed"
proof -
  obtain p z' where p: "PAEPaging_new example_zinfo PAE_Huge = Inr (p, z')" "pae_inv p"
    "pae_mode p = PAE_Huge" "pae_room p"
    by (rule pae_example_new [of PAE_Huge]) auto
  have ptr: "ptr_ok (PagePtr 1) False" by (simp add: ptr_ok_def)
  obtain lat m p' where p': "pae_map_page_table example_zinfo p 0x1000 (PagePtr 1) False = Inr (lat, m, p')"
    "pae_inv p'" "pae_mode p' = pae_mode p" "pae_abs p' = (pae_abs p)(pae_vpn 0x1000 \<mapsto> PagePtr 1)"
    by (rule pae_map_ok [OF p(2,4) ptr refl]) blast
  have "tree_abs 2048 (pae_path PAE_Huge) (pae_heap p') (pae_root p') 0 = Some (PagePtr 1)"
    using p' p(3) by (simp add: pae_abs_def pae_vpn_def)
  then have "child (pae_heap p') (pae_root p') (unat (0 :: u32)) \<noteq> None"
    by (auto simp: pae_path_def bind_eq_Some_conv elim!: tree_abs_SomeE [of _ _ _ _ _ _ "[0]" 0])
  from pae_huge_map_after_remove_fails [OF p'(2) _ this] p p' show ?thesis by auto
qed

end
