(* ===== verification/Flexi_List.thy ===== *)
theory Flexi_List
  imports Mem_Objects
begin

text \<open>
  The intrusive linked list \<open>FlexiList\<close> of \<open>common/common_structures.h\<close>, at its only
  instance: lists of page descriptors, linked through \<open>Page::next\<close>. The descriptors live in
  a store shared by all lists, so an operation on one list can destroy another; the
  interface \<open>block_queue\<close> states what a list promises to its owner and to the owners of
  the other lists. The size of a list is a C++ \<open>int\<close>: a 32-bit word that wraps, so it tells
  the number of blocks modulo \<open>2^32\<close>.
\<close>

type_synonym page_store = "address \<Rightarrow> Page option"

record FlexiList =
  fl_head :: "address option"
  fl_tail :: "address option"
  fl_size :: u32

definition FlexiList_new :: FlexiList where
  "FlexiList_new = \<lparr>fl_head = None, fl_tail = None, fl_size = 0\<rparr>"

definition fl_is_empty :: "FlexiList \<Rightarrow> bool" where
  "fl_is_empty l \<longleftrightarrow> fl_head l = None"

definition fl_clear :: "FlexiList \<Rightarrow> FlexiList" where
  "fl_clear l = l\<lparr>fl_size := 0, fl_head := None, fl_tail := None\<rparr>"

definition fl_get_size :: "FlexiList \<Rightarrow> u32" where
  "fl_get_size l = fl_size l"

definition set_next :: "address \<Rightarrow> address option \<Rightarrow> page_store \<Rightarrow> page_store res" where
  "set_next x n ps = bindE (derefE (ps x)) (\<lambda>p. Inr (ps(x \<mapsto> p\<lparr>next_page := n\<rparr>)))"

definition fl_push_block_back ::
  "FlexiList \<Rightarrow> address \<Rightarrow> page_store \<Rightarrow> (FlexiList \<times> page_store) res" where
  "fl_push_block_back l block ps =
     (case fl_head l of
        None \<Rightarrow>
          bindE (set_next block None ps) (\<lambda>ps.
          Inr (l\<lparr>fl_tail := Some block, fl_head := Some block, fl_size := fl_size l + 1\<rparr>, ps))
      | Some h \<Rightarrow>
          bindE (if fl_head l = fl_tail l then set_next h (Some block) ps else Inr ps) (\<lambda>ps.
          bindE (derefE (fl_tail l)) (\<lambda>t.
          bindE (set_next t (Some block) ps) (\<lambda>ps.
          bindE (set_next block None ps) (\<lambda>ps.
          Inr (l\<lparr>fl_tail := Some block, fl_size := fl_size l + 1\<rparr>, ps))))))"

definition fl_fetch_head ::
  "FlexiList \<Rightarrow> page_store \<Rightarrow> (address \<times> FlexiList \<times> page_store) res" where
  "fl_fetch_head l ps =
     bindE (assertE (fl_head l \<noteq> None)) (\<lambda>_.
     bindE (derefE (fl_head l)) (\<lambda>tmp_block.
     bindE (derefE (ps tmp_block)) (\<lambda>p.
       if next_page p = None then
         Inr (tmp_block, l\<lparr>fl_head := None, fl_tail := None, fl_size := fl_size l - 1\<rparr>, ps)
       else
         bindE (set_next tmp_block None ps) (\<lambda>ps.
         Inr (tmp_block, l\<lparr>fl_head := next_page p, fl_size := fl_size l - 1\<rparr>, ps)))))"

definition fl_extend_back ::
  "FlexiList \<Rightarrow> FlexiList \<Rightarrow> page_store \<Rightarrow> (FlexiList \<times> page_store) res" where
  "fl_extend_back l added_list ps =
     (if fl_is_empty added_list then Inr (l, ps)
      else if fl_head l = None then
        Inr (l\<lparr>fl_head := fl_head added_list, fl_tail := fl_tail added_list\<rparr>, ps)
      else
        bindE (derefE (fl_tail l)) (\<lambda>t.
        bindE (set_next t (fl_head added_list) ps) (\<lambda>ps.
        Inr (l\<lparr>fl_tail := fl_tail added_list, fl_size := fl_size l + fl_get_size added_list\<rparr>, ps))))"

section \<open>The list a FlexiList stands for\<close>

definition nexts :: "page_store \<Rightarrow> address \<Rightarrow> address option option" where
  "nexts ps x = map_option next_page (ps x)"

primrec chain :: "('a \<Rightarrow> 'a option option) \<Rightarrow> 'a option \<Rightarrow> 'a list \<Rightarrow> 'a option \<Rightarrow> bool" where
  "chain nx p [] q \<longleftrightarrow> p = q"
| "chain nx p (x # xs) q \<longleftrightarrow> p = Some x \<and> (\<exists>n. nx x = Some n \<and> chain nx n xs q)"

definition fl_rep :: "page_store \<Rightarrow> FlexiList \<Rightarrow> address list \<Rightarrow> bool" where
  "fl_rep ps l xs \<longleftrightarrow>
     chain (nexts ps) (fl_head l) xs None \<and> distinct xs \<and> fl_size l = of_nat (length xs) \<and>
     fl_tail l = (if xs = [] then None else Some (last xs))"

lemma chain_append: "chain nx p (xs @ ys) q \<longleftrightarrow> (\<exists>m. chain nx p xs m \<and> chain nx m ys q)"
  by (induction xs arbitrary: p) auto

lemma chain_cong: "(\<And>x. x \<in> set xs \<Longrightarrow> nx x = nx' x) \<Longrightarrow> chain nx p xs q = chain nx' p xs q"
  by (induction xs arbitrary: p) auto

lemma chain_present: "chain nx p xs q \<Longrightarrow> x \<in> set xs \<Longrightarrow> nx x \<noteq> None"
  by (induction xs arbitrary: p) auto

lemma nexts_upd: "nexts (ps(x \<mapsto> p)) = (nexts ps)(x \<mapsto> next_page p)"
  by (auto simp: nexts_def)

lemma nexts_Some_iff: "nexts ps x = Some n \<longleftrightarrow> (\<exists>p. ps x = Some p \<and> next_page p = n)"
  by (auto simp: nexts_def)

lemma set_next_ok:
  assumes "ps x \<noteq> None"
  obtains ps' where "set_next x n ps = Inr ps'" "nexts ps' = (nexts ps)(x \<mapsto> n)" "dom ps' = dom ps"
proof -
  obtain p where "ps x = Some p" using assms by blast
  then show thesis using that by (auto simp: set_next_def nexts_upd insert_absorb)
qed

lemma fl_rep_cong:
  "(\<And>x. x \<in> set xs \<Longrightarrow> nexts ps x = nexts ps' x) \<Longrightarrow> fl_rep ps l xs = fl_rep ps' l xs"
  by (simp add: fl_rep_def cong: chain_cong)

lemma fl_rep_new: "fl_rep ps FlexiList_new []"
  by (simp add: fl_rep_def FlexiList_new_def)

lemma fl_rep_present: "fl_rep ps l xs \<Longrightarrow> x \<in> set xs \<Longrightarrow> ps x \<noteq> None"
  using chain_present by (fastforce simp: fl_rep_def nexts_def)

lemma fl_push_ok:
  assumes rep: "fl_rep ps l xs" and x: "ps x \<noteq> None" "x \<notin> set xs"
  obtains l' ps' where "fl_push_block_back l x ps = Inr (l', ps')" "fl_rep ps' l' (xs @ [x])"
    "dom ps' = dom ps" "\<And>y. y \<notin> insert x (set xs) \<Longrightarrow> nexts ps' y = nexts ps y"
proof (cases "xs = []")
  case True
  obtain ps' where ps': "set_next x None ps = Inr ps'" "nexts ps' = (nexts ps)(x \<mapsto> None)"
    "dom ps' = dom ps"
    using set_next_ok [of ps x None, OF x(1)] by blast
  show ?thesis
  proof (rule that)
    show "fl_push_block_back l x ps =
        Inr (l\<lparr>fl_tail := Some x, fl_head := Some x, fl_size := fl_size l + 1\<rparr>, ps')"
      using rep True by (simp add: fl_push_block_back_def fl_rep_def ps')
    show "nexts ps' y = nexts ps y" if "y \<notin> insert x (set xs)" for y
      using that ps' by simp
  qed (use rep True in \<open>auto simp: fl_rep_def ps'\<close>)
next
  case False
  then obtain ys t where xs: "xs = ys @ [t]" by (cases xs rule: rev_cases) auto
  have tail: "fl_tail l = Some t" using rep by (simp add: fl_rep_def xs)
  have t: "ps t \<noteq> None" using fl_rep_present [OF rep] xs by simp
  obtain h where h: "fl_head l = Some h" "h = t \<longleftrightarrow> ys = []"
    using rep by (cases ys) (auto simp: fl_rep_def xs)
  obtain pst where pst: "set_next t (Some x) ps = Inr pst" "nexts pst = (nexts ps)(t \<mapsto> Some x)"
    "dom pst = dom ps"
    using set_next_ok [of ps t "Some x", OF t] by blast
  define ps0 where "ps0 = (if h = t then pst else ps)"
  have ps0: "(if fl_head l = fl_tail l then set_next h (Some x) ps else Inr ps) = Inr ps0"
    "nexts ps0 = (if h = t then (nexts ps)(t \<mapsto> Some x) else nexts ps)" "dom ps0 = dom ps"
    using pst by (simp_all add: h(1) tail ps0_def)
  obtain ps1 where ps1: "set_next t (Some x) ps0 = Inr ps1" "nexts ps1 = (nexts ps0)(t \<mapsto> Some x)"
    "dom ps1 = dom ps0"
    using set_next_ok [of ps0 t "Some x"] t ps0(3) by (metis domIff)
  obtain ps2 where ps2: "set_next x None ps1 = Inr ps2" "nexts ps2 = (nexts ps1)(x \<mapsto> None)"
    "dom ps2 = dom ps1"
    using set_next_ok [of ps1 x None] x ps0(3) ps1(3) by (metis domIff)
  have nx: "nexts ps2 = (nexts ps)(t \<mapsto> Some x, x \<mapsto> None)"
    using ps0(2) ps1(2) ps2(2) by auto
  have "chain (nexts ps2) (fl_head l) ys (Some t) = chain (nexts ps) (fl_head l) ys (Some t)"
    by (rule chain_cong) (use rep x xs nx in \<open>auto simp: fl_rep_def\<close>)
  then have "chain (nexts ps2) (fl_head l) (xs @ [x]) None"
    using rep x by (auto simp: xs chain_append fl_rep_def nx)
  then have rep': "fl_rep ps2 (l\<lparr>fl_tail := Some x, fl_size := fl_size l + 1\<rparr>) (xs @ [x])"
    using rep x by (simp add: fl_rep_def)
  show ?thesis
  proof (rule that [OF _ rep'])
    show "fl_push_block_back l x ps = Inr (l\<lparr>fl_tail := Some x, fl_size := fl_size l + 1\<rparr>, ps2)"
      using ps0(1) ps1(1) ps2(1) by (simp add: fl_push_block_back_def h tail)
    show "nexts ps2 y = nexts ps y" if "y \<notin> insert x (set xs)" for y
      using that nx xs by simp
  qed (use ps0 ps1 ps2 in simp)
qed

lemma fl_fetch_ok:
  assumes rep: "fl_rep ps l (x # xs)"
  obtains l' ps' where "fl_fetch_head l ps = Inr (x, l', ps')" "fl_rep ps' l' xs"
    "nexts ps' = (nexts ps)(x \<mapsto> None)" "dom ps' = dom ps"
proof -
  obtain p where p: "ps x = Some p" and ch: "chain (nexts ps) (next_page p) xs None"
    using rep by (auto simp: fl_rep_def nexts_def)
  obtain ps' where ps': "set_next x None ps = Inr ps'" "nexts ps' = (nexts ps)(x \<mapsto> None)"
    "dom ps' = dom ps"
    using set_next_ok [of ps x None] p by auto
  have "chain (nexts ps') (next_page p) xs None = chain (nexts ps) (next_page p) xs None"
    by (rule chain_cong) (use rep ps' in \<open>auto simp: fl_rep_def\<close>)
  then have ch': "chain (nexts ps') (next_page p) xs None" using ch by simp
  have end_eq: "next_page p = None \<longleftrightarrow> xs = []"
    using ch by (cases xs) auto
  show ?thesis
  proof (cases xs)
    case Nil
    show ?thesis
    proof (rule that)
      show "fl_fetch_head l ps =
          Inr (x, l\<lparr>fl_head := None, fl_tail := None, fl_size := fl_size l - 1\<rparr>, ps)"
        using rep p end_eq Nil by (auto simp: fl_fetch_head_def fl_rep_def)
      show "nexts ps = (nexts ps)(x \<mapsto> None)"
        using p end_eq Nil by (auto simp: nexts_def)
    qed (use rep Nil in \<open>auto simp: fl_rep_def\<close>)
  next
    case (Cons y ys)
    show ?thesis
    proof (rule that)
      show "fl_fetch_head l ps = Inr (x, l\<lparr>fl_head := next_page p, fl_size := fl_size l - 1\<rparr>, ps')"
        using rep p ps'(1) end_eq Cons by (auto simp: fl_fetch_head_def fl_rep_def)
      show "fl_rep ps' (l\<lparr>fl_head := next_page p, fl_size := fl_size l - 1\<rparr>) xs"
        using rep ch' Cons by (simp add: fl_rep_def)
    qed (rule ps')+
  qed
qed

section \<open>The interface\<close>

text \<open>
  A queue of blocks in a shared store. \<open>rep s q xs\<close> says that in store \<open>s\<close> the queue \<open>q\<close>
  holds \<open>xs\<close>, the oldest block first. Both operations leave every queue alone that has no
  block in common with the one they work on.
\<close>

locale block_queue =
  fixes rep :: "'s \<Rightarrow> 'q \<Rightarrow> 'a list \<Rightarrow> bool"
    and present :: "'s \<Rightarrow> 'a set"
    and push :: "'q \<Rightarrow> 'a \<Rightarrow> 's \<Rightarrow> ('q \<times> 's) res"
    and fetch :: "'q \<Rightarrow> 's \<Rightarrow> ('a \<times> 'q \<times> 's) res"
    and size_of :: "'q \<Rightarrow> u32"
  assumes rep_size: "rep s q xs \<Longrightarrow> size_of q = of_nat (length xs)"
    and rep_present: "rep s q xs \<Longrightarrow> set xs \<subseteq> present s"
    and push_law: "\<lbrakk>rep s q xs; x \<in> present s; x \<notin> set xs\<rbrakk> \<Longrightarrow>
      \<exists>q' s'. push q x s = Inr (q', s') \<and> rep s' q' (xs @ [x]) \<and> present s' = present s \<and>
        (\<forall>q2 ys. rep s q2 ys \<longrightarrow> set ys \<inter> insert x (set xs) = {} \<longrightarrow> rep s' q2 ys)"
    and fetch_law: "rep s q (x # xs) \<Longrightarrow>
      \<exists>q' s'. fetch q s = Inr (x, q', s') \<and> rep s' q' xs \<and> present s' = present s \<and>
        (\<forall>q2 ys. rep s q2 ys \<longrightarrow> x \<notin> set ys \<longrightarrow> rep s' q2 ys)"
    and fetch_empty: "rep s q [] \<Longrightarrow> fetch q s = Inl Assert_failed"

text \<open>Taking \<open>n\<close> blocks, one after the other.\<close>

primrec fetch_n ::
  "('q \<Rightarrow> 's \<Rightarrow> ('a \<times> 'q \<times> 's) res) \<Rightarrow> nat \<Rightarrow> 'q \<Rightarrow> 's \<Rightarrow> ('a list \<times> 'q \<times> 's) res" where
  "fetch_n fetch 0 q s = Inr ([], q, s)"
| "fetch_n fetch (Suc n) q s =
     bindE (fetch q s) (\<lambda>(x, q, s).
     bindE (fetch_n fetch n q s) (\<lambda>(xs, q, s). Inr (x # xs, q, s)))"

context block_queue
begin

lemma push_all:
  assumes "rep s q xs" and "set ys \<subseteq> present s" and "distinct ys" and "set ys \<inter> set xs = {}"
  shows "\<exists>q' s'. foldE (\<lambda>x (q, s). push q x s) ys (q, s) = Inr (q', s') \<and> rep s' q' (xs @ ys) \<and>
    present s' = present s"
  using assms
proof (induction ys arbitrary: s q xs)
  case Nil
  then show ?case by simp
next
  case (Cons y ys)
  obtain q1 s1 where 1: "push q y s = Inr (q1, s1)" "rep s1 q1 (xs @ [y])" "present s1 = present s"
    using push_law [of s q xs y] Cons.prems by auto
  show ?case
    using Cons.IH [OF 1(2)] Cons.prems 1 by auto
qed

lemma fetch_all:
  "rep s q (xs @ ys) \<Longrightarrow>
   \<exists>q' s'. fetch_n fetch (length xs) q s = Inr (xs, q', s') \<and> rep s' q' ys"
proof (induction xs arbitrary: s q)
  case Nil
  then show ?case by simp
next
  case (Cons x xs)
  then obtain q1 s1 where "fetch q s = Inr (x, q1, s1)" "rep s1 q1 (xs @ ys)"
    using fetch_law [of s q x "xs @ ys"] by auto
  with Cons.IH show ?case by fastforce
qed

lemma fifo:
  assumes "rep s q []" and "set ys \<subseteq> present s" and "distinct ys"
  shows "\<exists>q1 s1 q2 s2. foldE (\<lambda>x (q, s). push q x s) ys (q, s) = Inr (q1, s1) \<and>
    size_of q1 = of_nat (length ys) \<and> fetch_n fetch (length ys) q1 s1 = Inr (ys, q2, s2) \<and>
    fetch q2 s2 = Inl Assert_failed"
proof -
  obtain q1 s1 where 1: "foldE (\<lambda>x (q, s). push q x s) ys (q, s) = Inr (q1, s1)" "rep s1 q1 ys"
    using push_all [OF assms] by auto
  moreover obtain q2 s2 where "fetch_n fetch (length ys) q1 s1 = Inr (ys, q2, s2)" "rep s2 q2 []"
    using fetch_all [of s1 q1 ys "[]"] 1(2) by auto
  ultimately show ?thesis using rep_size [OF 1(2)] fetch_empty by blast
qed

end

lemma fl_push_law:
  assumes "fl_rep ps l xs" and "x \<in> dom ps" and "x \<notin> set xs"
  shows "\<exists>l' ps'. fl_push_block_back l x ps = Inr (l', ps') \<and> fl_rep ps' l' (xs @ [x]) \<and>
      dom ps' = dom ps \<and>
      (\<forall>l2 ys. fl_rep ps l2 ys \<longrightarrow> set ys \<inter> insert x (set xs) = {} \<longrightarrow> fl_rep ps' l2 ys)"
proof -
  obtain l' ps' where "fl_push_block_back l x ps = Inr (l', ps')" "fl_rep ps' l' (xs @ [x])"
    "dom ps' = dom ps" and same: "\<And>y. y \<notin> insert x (set xs) \<Longrightarrow> nexts ps' y = nexts ps y"
    using assms by (auto elim: fl_push_ok [of ps l xs x])
  moreover have "fl_rep ps' l2 ys" if rep: "fl_rep ps l2 ys" and "set ys \<inter> insert x (set xs) = {}" for l2 ys
  proof -
    have "fl_rep ps' l2 ys = fl_rep ps l2 ys"
      by (rule fl_rep_cong, rule same) (use that in blast)
    then show ?thesis using rep by simp
  qed
  ultimately show ?thesis by (intro exI conjI allI impI)
qed

lemma fl_fetch_law:
  assumes "fl_rep ps l (x # xs)"
  shows "\<exists>l' ps'. fl_fetch_head l ps = Inr (x, l', ps') \<and> fl_rep ps' l' xs \<and>
      dom ps' = dom ps \<and> (\<forall>l2 ys. fl_rep ps l2 ys \<longrightarrow> x \<notin> set ys \<longrightarrow> fl_rep ps' l2 ys)"
proof -
  obtain l' ps' where "fl_fetch_head l ps = Inr (x, l', ps')" "fl_rep ps' l' xs"
    "dom ps' = dom ps" and nx: "nexts ps' = (nexts ps)(x \<mapsto> None)"
    using fl_fetch_ok [OF assms] by metis
  moreover have "fl_rep ps' l2 ys" if rep: "fl_rep ps l2 ys" and "x \<notin> set ys" for l2 ys
  proof -
    have "fl_rep ps' l2 ys = fl_rep ps l2 ys"
      by (rule fl_rep_cong) (use that nx in auto)
    then show ?thesis using rep by simp
  qed
  ultimately show ?thesis by (intro exI conjI allI impI)
qed

interpretation flexi: block_queue fl_rep dom fl_push_block_back fl_fetch_head fl_get_size
proof unfold_locales
  fix ps :: page_store and l xs
  assume rep: "fl_rep ps l xs"
  then show "fl_get_size l = of_nat (length xs)" by (simp add: fl_rep_def fl_get_size_def)
  show "set xs \<subseteq> dom ps" using fl_rep_present [OF rep] by auto
next
  fix ps :: page_store and l
  assume "fl_rep ps l []"
  then show "fl_fetch_head l ps = Inl Assert_failed"
    by (simp add: fl_rep_def fl_fetch_head_def)
qed (fact fl_push_law fl_fetch_law)+

section \<open>Properties\<close>

text \<open>
  C26. Blocks pushed onto an empty list come back from \<open>fetch_head\<close> in the order in which
  they were pushed; the reported size, a 32-bit word, is the number of pushed blocks modulo
  \<open>2^32\<close>, and after as many fetches the list is empty, so that a further one fails its assertion.
\<close>

theorem flexi_fifo:
  assumes "set ys \<subseteq> dom ps" and "distinct ys"
  shows "\<exists>l1 ps1 l2 ps2.
    foldE (\<lambda>x (l, ps). fl_push_block_back l x ps) ys (FlexiList_new, ps) = Inr (l1, ps1) \<and>
    fl_get_size l1 = of_nat (length ys) \<and>
    fetch_n fl_fetch_head (length ys) l1 ps1 = Inr (ys, l2, ps2) \<and>
    fl_fetch_head l2 ps2 = Inl Assert_failed"
  using flexi.fifo [OF fl_rep_new assms] .

definition example_page :: Page where
  "example_page =
     \<lparr>page_count = 0, pageNo = 0, map_count = -1, page_zone = Garbage 0, page_node = 0,
      next_page = None, overlap = 0, page_private = 0\<rparr>"

theorem flexi_fifo_witness:
  "set [7, 3, 5] \<subseteq> dom (\<lambda>x :: address. Some example_page) \<and> distinct [7, 3, 5 :: address] \<and>
   (\<exists>l1 ps1 l2 ps2.
     foldE (\<lambda>x (l, ps). fl_push_block_back l x ps) [7, 3, 5] (FlexiList_new, \<lambda>x. Some example_page)
       = Inr (l1, ps1) \<and>
     fl_get_size l1 = 3 \<and>
     fetch_n fl_fetch_head (length [7, 3, 5 :: address]) l1 ps1 = Inr ([7, 3, 5], l2, ps2) \<and>
     fl_fetch_head l2 ps2 = Inl Assert_failed)"
  using flexi_fifo [of "[7, 3, 5]" "\<lambda>x. Some example_page"] by (simp add: dom_def)

text \<open>
  C27. \<open>extend_back\<close> appends the other list to a non-empty list and adds the sizes, as 32-bit
  words that wrap. Into an empty list it takes over the chain but not the size: the list then has blocks and reports size 0.
\<close>

theorem fl_extend_back_cases:
  assumes rep: "fl_rep ps l xs" and add: "fl_rep ps l2 ys" and disj: "set xs \<inter> set ys = {}"
    and ys: "ys \<noteq> []"
  shows "\<exists>l' ps'. fl_extend_back l l2 ps = Inr (l', ps') \<and>
    chain (nexts ps') (fl_head l') (xs @ ys) None \<and> fl_tail l' = Some (last ys) \<and>
    fl_get_size l' = (if xs = [] then 0 else of_nat (length (xs @ ys)))"
proof (cases xs rule: rev_cases)
  case Nil
  with rep add ys show ?thesis
    by (cases ys) (auto simp: fl_extend_back_def fl_is_empty_def fl_rep_def fl_get_size_def)
next
  case (snoc zs t)
  have t: "ps t \<noteq> None" using fl_rep_present [OF rep] snoc by simp
  obtain ps' where ps': "set_next t (fl_head l2) ps = Inr ps'"
    "nexts ps' = (nexts ps)(t \<mapsto> fl_head l2)"
    by (rule set_next_ok [of ps t "fl_head l2", OF t])
  have "chain (nexts ps') (fl_head l) zs (Some t) = chain (nexts ps) (fl_head l) zs (Some t)"
    by (rule chain_cong) (use rep snoc ps'(2) in \<open>auto simp: fl_rep_def\<close>)
  moreover have "chain (nexts ps') (fl_head l2) ys None = chain (nexts ps) (fl_head l2) ys None"
    by (rule chain_cong) (use disj snoc ps'(2) in auto)
  moreover have "chain (nexts ps) (fl_head l) zs (Some t)" "chain (nexts ps) (fl_head l2) ys None"
    using rep add by (auto simp: fl_rep_def snoc chain_append)
  ultimately have ch: "chain (nexts ps') (fl_head l) (xs @ ys) None"
    by (simp add: snoc chain_append) (use ps'(2) in auto)
  have "fl_head l \<noteq> None"
    using rep by (cases zs) (auto simp: fl_rep_def snoc)
  moreover have "fl_head l2 \<noteq> None"
    using add ys by (cases ys) (auto simp: fl_rep_def)
  moreover have "fl_tail l = Some t" "fl_tail l2 = Some (last ys)"
    "fl_size l = of_nat (length xs)" "fl_size l2 = of_nat (length ys)"
    using rep add ys by (simp_all add: fl_rep_def snoc)
  ultimately show ?thesis
    using ps'(1) ch by (auto simp: fl_extend_back_def fl_is_empty_def fl_get_size_def snoc)
qed

theorem fl_extend_back_cases_witness:
  "\<exists>l' ps'. fl_extend_back FlexiList_new \<lparr>fl_head = Some 4, fl_tail = Some 4, fl_size = 1\<rparr>
      (\<lambda>x. Some example_page) = Inr (l', ps') \<and>
    chain (nexts ps') (fl_head l') ([] @ [4]) None \<and> fl_tail l' = Some 4 \<and> fl_get_size l' = 0"
  using fl_extend_back_cases [of "\<lambda>x. Some example_page" FlexiList_new "[]"
      "\<lparr>fl_head = Some 4, fl_tail = Some 4, fl_size = 1\<rparr>" "[4]", OF fl_rep_new]
  by (simp add: fl_rep_def nexts_def example_page_def)

end
