(* ===== verification/Doubles.thy ===== *)
theory Doubles
  imports Complex_Main Prelude
begin

text \<open>
  The fragment of IEEE double precision arithmetic that the allocators use: rounding
  to 53 significant bits, to nearest and ties to even, of values that neither overflow nor
  become subnormal (the magnitude of every value here lies between \<open>2^-64\<close> and \<open>2^64\<close>). A
  double is the rational number it stands for; an operation is the exact operation followed
  by the rounding.
\<close>

text \<open>The number of binary digits.\<close>

function digits2 :: "int \<Rightarrow> int" where
  "digits2 n = (if n \<le> 0 then 0 else 1 + digits2 (n div 2))"
  by auto
termination by (relation "measure nat") auto

declare digits2.simps [simp del]

definition exponent_of :: "rat \<Rightarrow> int" where
  "exponent_of x =
     (case quotient_of x of (n, d) \<Rightarrow>
        let k = digits2 n - digits2 d in if 2 powi k \<le> x then k else k - 1)"

definition round_even :: "rat \<Rightarrow> int" where
  "round_even x =
     (let f = \<lfloor>x\<rfloor>; r = x - of_int f
      in if r < 1 / 2 \<or> r = 1 / 2 \<and> even f then f else f + 1)"

definition dbl :: "rat \<Rightarrow> rat" where
  "dbl x =
     (if x = 0 then 0
      else let e = exponent_of \<bar>x\<bar> - 52 in of_int (round_even (x / 2 powi e)) * 2 powi e)"

definition dbl_of_u64 :: "u64 \<Rightarrow> rat" where
  "dbl_of_u64 w = dbl (of_int (uint w))"

text \<open>The conversions back truncate.\<close>

definition u64_of_dbl :: "rat \<Rightarrow> u64" where
  "u64_of_dbl x = of_int \<lfloor>x\<rfloor>"

definition i32_of_dbl :: "rat \<Rightarrow> int" where
  "i32_of_dbl x = (if 0 \<le> x then \<lfloor>x\<rfloor> else \<lceil>x\<rceil>)"

definition dmul :: "rat \<Rightarrow> rat \<Rightarrow> rat" where
  "dmul x y = dbl (x * y)"

definition ddiv :: "rat \<Rightarrow> rat \<Rightarrow> rat" where
  "ddiv x y = dbl (x / y)"

definition dsub :: "rat \<Rightarrow> rat \<Rightarrow> rat" where
  "dsub x y = dbl (x - y)"

function isqrt :: "int \<Rightarrow> int" where
  "isqrt n =
     (if n \<le> 0 then 0
      else let r = 2 * isqrt (n div 4) in if (r + 1) * (r + 1) \<le> n then r + 1 else r)"
  by auto
termination by (relation "measure nat") auto

declare isqrt.simps [simp del]

definition dsqrt :: "rat \<Rightarrow> rat" where
  "dsqrt x =
     (if x = 0 then 0
      else let e = exponent_of x div 2 - 52;
               y = x / 2 powi (2 * e);
               s = isqrt \<lfloor>y\<rfloor>;
               half = (of_int s + 1 / 2) * (of_int s + 1 / 2)
           in of_int (if y < half \<or> y = half \<and> even s then s else s + 1) * 2 powi e)"

section \<open>Exactness\<close>

lemma isqrt_bounds: "0 \<le> n \<Longrightarrow> 0 \<le> isqrt n \<and> isqrt n * isqrt n \<le> n \<and> n < (isqrt n + 1) * (isqrt n + 1)"
proof (induction n rule: isqrt.induct)
  case (1 n)
  show ?case
  proof (cases "n = 0")
    case True
    then show ?thesis by (simp add: isqrt.simps)
  next
    case False
    define r where "r = isqrt (n div 4)"
    have "0 \<le> r" "r * r \<le> n div 4" "n div 4 < (r + 1) * (r + 1)"
      using 1 False by (auto simp: r_def)
    then have "0 \<le> r" "4 * (r * r) \<le> n" "n < 4 * ((r + 1) * (r + 1))" by auto
    then show ?thesis
      using False 1(2) by (auto simp: isqrt.simps [of n] Let_def r_def [symmetric] algebra_simps)
  qed
qed

lemma digits2_bounds: "0 < n \<Longrightarrow> 0 < digits2 n \<and> 2 powi (digits2 n - 1) \<le> (of_int n :: rat) \<and> of_int n < (2 :: rat) powi digits2 n"
proof (induction n rule: digits2.induct)
  case (1 n)
  show ?case
  proof (cases "n = 1")
    case True
    then show ?thesis by (simp add: digits2.simps)
  next
    case False
    define m where "m = n div 2"
    have IH: "0 < digits2 m" "2 powi (digits2 m - 1) \<le> (of_int m :: rat)" "of_int m < (2 :: rat) powi digits2 m"
      using 1 False by (auto simp: m_def)
    have d: "digits2 n = 1 + digits2 m" using 1(2) by (simp add: digits2.simps [of n] m_def)
    have dbl: "(2 :: rat) powi (1 + k) = 2 * 2 powi k" for k by (simp add: power_int_add)
    have "2 * m \<le> n" "n \<le> 2 * m + 1" by (auto simp: m_def)
    then have n: "2 * of_int m \<le> (of_int n :: rat)" "(of_int n :: rat) \<le> 2 * of_int m + 1"
      by linarith+
    have "(2 :: rat) powi digits2 m = of_int (2 ^ nat (digits2 m))"
      using IH(1) by (simp add: power_int_def)
    then have "of_int m + 1 \<le> (2 :: rat) powi digits2 m"
      using IH(3) by (metis of_int_less_iff of_int_1 of_int_add of_int_le_iff zless_imp_add1_zle)
    then show ?thesis
      using IH n dbl [of "digits2 m"] dbl [of "digits2 m - 1"] by (simp add: d)
  qed
qed

lemma exponent_of_bounds:
  assumes "0 < x"
  shows "2 powi exponent_of x \<le> x \<and> x < 2 powi (exponent_of x + 1)"
proof -
  obtain n d where q: "quotient_of x = (n, d)" by (cases "quotient_of x")
  have pos: "0 < n" "0 < d"
    using assms q quotient_of_denom_pos [OF q] quotient_of_div [OF q]
    by (auto simp: zero_less_divide_iff)
  have x: "x = of_int n / of_int d" using quotient_of_div [OF q] .
  define a b where ab: "a = digits2 n" "b = digits2 d"
  note n = digits2_bounds [OF pos(1), folded ab(1)] and d = digits2_bounds [OF pos(2), folded ab(2)]
  have "2 powi (a - 1) / 2 powi b \<le> x"
    unfolding x by (rule frac_le) (use n d pos in auto)
  then have lo: "2 powi (a - b - 1) \<le> x"
    by (simp add: power_int_diff)
  have "x < 2 powi a / 2 powi (b - 1)"
    unfolding x by (rule frac_less) (use n d pos in auto)
  then have hi: "x < 2 powi (a - b + 1)"
    by (simp add: power_int_diff power_int_add)
  show ?thesis
    using lo hi by (auto simp: exponent_of_def q ab [symmetric] Let_def)
qed

lemma round_even_of_int [simp]: "round_even (of_int m) = m"
  by (simp add: round_even_def)

text \<open>A multiple of \<open>2^k\<close> with at most 53 significant bits is a double.\<close>

lemma dbl_exact:
  assumes x: "x = of_int m * 2 powi k" and m: "0 \<le> m" "m < 2 ^ 53"
  shows "dbl x = x"
proof (cases "m = 0")
  case True
  then show ?thesis by (simp add: dbl_def x)
next
  case False
  then have pos: "0 < x" using m x by (simp add: zero_less_mult_iff)
  define e where "e = exponent_of x - 52"
  have "2 powi exponent_of x \<le> x" using exponent_of_bounds [OF pos] by simp
  also have "\<dots> < 2 ^ 53 * 2 powi k"
    unfolding x by (rule mult_strict_right_mono) (use m in \<open>simp_all flip: of_int_power_less_of_int_cancel_iff\<close>)
  also have "\<dots> = 2 powi (53 + k)" by (simp add: power_int_add)
  finally have "exponent_of x < 53 + k"
    using power_int_increasing [of "53 + k" "exponent_of x" "2 :: rat"] by force
  then have "0 \<le> k - e" by (simp add: e_def)
  then have "2 powi k / 2 powi e = (2 :: rat) ^ nat (k - e)"
    using power_int_diff [of "2 :: rat" k e] by (simp add: power_int_def [of _ "k - e"])
  then have "x / 2 powi e = of_int (m * 2 ^ nat (k - e))"
    by (simp add: x flip: times_divide_eq_right)
  then have "of_int (round_even (x / 2 powi e)) = x / 2 powi e"
    by (simp only: round_even_of_int)
  then show ?thesis
    using pos by (simp add: dbl_def e_def [symmetric] Let_def)
qed

text \<open>Rounding up adds at most one part in \<open>2^53\<close>.\<close>

lemma round_even_le: "of_int (round_even x) \<le> x + 1 / 2"
  using of_int_floor_le [of x] by (auto simp: round_even_def Let_def not_less) linarith+

lemma round_even_nonneg: "0 \<le> x \<Longrightarrow> 0 \<le> round_even x"
  by (auto simp: round_even_def Let_def)

lemma dbl_nonneg: "0 \<le> x \<Longrightarrow> 0 \<le> dbl x"
  by (auto simp: dbl_def Let_def intro!: mult_nonneg_nonneg round_even_nonneg)

lemma dbl_le:
  assumes "0 \<le> x"
  shows "dbl x \<le> x * (1 + 1 / 2 ^ 53)"
proof (cases "x = 0")
  case True
  then show ?thesis by (simp add: dbl_def)
next
  case False
  then have pos: "0 < x" using assms by simp
  define e where "e = exponent_of x - 52"
  define y where "y = x / 2 powi e"
  have x: "x = y * 2 powi e" by (simp add: y_def)
  have "2 powi exponent_of x = 2 ^ 52 * (2 :: rat) powi e"
    by (simp add: e_def power_int_diff)
  then have "2 ^ 52 * 2 powi e \<le> y * 2 powi e"
    using exponent_of_bounds [OF pos] x by simp
  then have "2 ^ 52 \<le> y" by simp
  then have "of_int (round_even y) \<le> y * (1 + 1 / 2 ^ 53)"
    using round_even_le [of y] by simp
  then have "of_int (round_even y) * 2 powi e \<le> y * (1 + 1 / 2 ^ 53) * 2 powi e"
    by (rule mult_right_mono) simp
  moreover have "dbl x = of_int (round_even y) * 2 powi e"
    using pos by (simp add: dbl_def e_def y_def Let_def)
  moreover have "y * (1 + 1 / 2 ^ 53) * 2 powi e = x * (1 + 1 / 2 ^ 53)"
    by (simp add: x ac_simps)
  ultimately show ?thesis by (simp only:)
qed

text \<open>Rounding down takes at most one part in \<open>2^53\<close>.\<close>

lemma round_even_ge: "x - 1 / 2 \<le> of_int (round_even x)"
proof -
  have "x < of_int \<lfloor>x\<rfloor> + 1" by linarith
  then show ?thesis by (auto simp: round_even_def Let_def)
qed

lemma dbl_ge:
  assumes "0 \<le> x"
  shows "x * (1 - 1 / 2 ^ 53) \<le> dbl x"
proof (cases "x = 0")
  case True
  then show ?thesis by (simp add: dbl_def)
next
  case False
  then have pos: "0 < x" using assms by simp
  define e where "e = exponent_of x - 52"
  define y where "y = x / 2 powi e"
  have x: "x = y * 2 powi e" by (simp add: y_def)
  have "2 powi exponent_of x = 2 ^ 52 * (2 :: rat) powi e"
    by (simp add: e_def power_int_diff)
  then have "2 ^ 52 * 2 powi e \<le> y * 2 powi e"
    using exponent_of_bounds [OF pos] x by simp
  then have "2 ^ 52 \<le> y" by simp
  then have "y * (1 - 1 / 2 ^ 53) \<le> of_int (round_even y)"
    using round_even_ge [of y] by simp
  then have "y * (1 - 1 / 2 ^ 53) * 2 powi e \<le> of_int (round_even y) * 2 powi e"
    by (rule mult_right_mono) simp
  moreover have "dbl x = of_int (round_even y) * 2 powi e"
    using pos by (simp add: dbl_def e_def y_def Let_def)
  moreover have "y * (1 - 1 / 2 ^ 53) * 2 powi e = x * (1 - 1 / 2 ^ 53)"
    by (simp add: x ac_simps)
  ultimately show ?thesis by (simp only:)
qed

lemma round_even_minus: "round_even (- y) = - round_even y"
proof (cases "y = of_int \<lfloor>y\<rfloor>")
  case True
  then show ?thesis by (metis of_int_minus round_even_of_int)
next
  case False
  then have "\<lceil>y\<rceil> = \<lfloor>y\<rfloor> + 1" by (metis ceiling_altdef)
  then have fl: "\<lfloor>- y\<rfloor> = - \<lfloor>y\<rfloor> - 1" by (simp add: floor_minus)
  show ?thesis by (auto simp: round_even_def Let_def fl)
qed

lemma dbl_minus: "dbl (- x) = - dbl x"
  by (simp add: dbl_def Let_def round_even_minus)

end
