(* ===== verification/Memory_Node.thy ===== *)
theory Memory_Node
  imports Flexi_List Doubles "HOL-Library.Multiset"
begin

text \<open>
  Physical memory: \<open>MMU/zone.h\<close>, \<open>MMU/zone.cpp\<close> and \<open>MMU/common_memory_ops.h\<close>. A
  memory node holds the page descriptors, created when they are first asked for, and up to
  four zones, each with the free lists of the buddy system and the per-CPU page caches.

  A pointer to a zone is its \<open>ZoneType\<close>, the index in \<open>node_zones\<close>. What a
  constructor leaves unset keeps the value found in the allocated memory, which is the
  parameter of type \<open>raw_memory\<close>.
\<close>

section \<open>Data\<close>

record FreeArea =
  block_list :: FlexiList
  nr_free :: u64

record PerCpuPages =
  pcp_count :: u32
  pcp_low :: u32
  pcp_high :: u32
  pcp_batch :: u32
  page_list :: "address list"

record PerCpuPageset =
  pcp_hot :: PerCpuPages
  pcp_cold :: PerCpuPages

record Zone =
  free_pages :: u64
  pages_min :: u64
  pages_low :: u64
  pages_high :: u64
  zone_type :: ZoneType
  zone_start_pfn :: u64
  free_area :: "FreeArea list"
  page_set :: "PerCpuPageset list"

record MemoryNode =
  node_mem_map :: page_store
  zone_lowest_possible :: "ZoneType \<Rightarrow> u64"
  zone_highest_possible :: "ZoneType \<Rightarrow> u64"
  nr_zones :: u32
  present_pages :: u64
  node_id :: u32
  node_start_pfn :: u64
  node_page_num :: u64
  lowmem_kbytes :: u64
  min_free_kbytes :: u64
  node_zones :: "ZoneType \<Rightarrow> Zone option"

record raw_memory =
  raw_page :: "address \<Rightarrow> Page"
  raw_pcp :: "nat \<Rightarrow> PerCpuPageset"
  raw_zone :: Zone
  raw_node :: MemoryNode

definition zone_index :: "ZoneType list" where
  "zone_index = [Zone_DMA, Zone_DMA32, Zone_Normal, Zone_HighMem]"

definition SWAP_CLUSTER_MAX :: u64 where
  "SWAP_CLUSTER_MAX = 32"

section \<open>Page descriptors of a node\<close>

text \<open>The pointer that \<open>get_page_ptr\<close> returns is the page number itself.\<close>

definition get_page_ptr :: "raw_memory \<Rightarrow> address \<Rightarrow> MemoryNode \<Rightarrow> MemoryNode res" where
  "get_page_ptr raw page_id nd =
     bindE (assertE (page_id < node_page_num nd)) (\<lambda>_.
     Inr (if node_mem_map nd page_id \<noteq> None then nd
          else nd\<lparr>node_mem_map :=
                 (node_mem_map nd)(page_id \<mapsto> Page_new (raw_page raw page_id) page_id)\<rparr>))"

text \<open>\<open>get_page_ptr(page_id)->...\<close>: read or update the descriptor.\<close>

definition page_at :: "raw_memory \<Rightarrow> address \<Rightarrow> MemoryNode \<Rightarrow> (Page \<times> MemoryNode) res" where
  "page_at raw page_id nd =
     bindE (get_page_ptr raw page_id nd) (\<lambda>nd.
     bindE (derefE (node_mem_map nd page_id)) (\<lambda>p. Inr (p, nd)))"

definition page_upd ::
  "raw_memory \<Rightarrow> address \<Rightarrow> (Page \<Rightarrow> Page) \<Rightarrow> MemoryNode \<Rightarrow> MemoryNode res" where
  "page_upd raw page_id f nd =
     bindE (page_at raw page_id nd) (\<lambda>(p, nd).
     Inr (nd\<lparr>node_mem_map := (node_mem_map nd)(page_id \<mapsto> f p)\<rparr>))"

definition page_is_buddy_flag :: "raw_memory \<Rightarrow> address \<Rightarrow> MemoryNode \<Rightarrow> (bool \<times> MemoryNode) res" where
  "page_is_buddy_flag raw page_id nd =
     bindE (page_at raw page_id nd) (\<lambda>(p, nd).
     Inr (map_count p = PAGE_BUDDY_MAPCOUNT_VALUE, nd))"

definition set_page_buddy :: "raw_memory \<Rightarrow> address \<Rightarrow> MemoryNode \<Rightarrow> MemoryNode res" where
  "set_page_buddy raw page_id nd =
     page_upd raw page_id (\<lambda>p. p\<lparr>map_count := PAGE_BUDDY_MAPCOUNT_VALUE\<rparr>) nd"

definition clear_page_buddy :: "raw_memory \<Rightarrow> address \<Rightarrow> MemoryNode \<Rightarrow> MemoryNode res" where
  "clear_page_buddy raw page_id nd =
     bindE (page_is_buddy_flag raw page_id nd) (\<lambda>(b, nd).
     bindE (assertE b) (\<lambda>_.
     page_upd raw page_id (\<lambda>p. p\<lparr>map_count := -1\<rparr>) nd))"

definition get_page_private :: "raw_memory \<Rightarrow> address \<Rightarrow> MemoryNode \<Rightarrow> (u32 \<times> MemoryNode) res" where
  "get_page_private raw page_id nd =
     bindE (page_at raw page_id nd) (\<lambda>(p, nd). Inr (page_private p, nd))"

definition set_page_private :: "raw_memory \<Rightarrow> address \<Rightarrow> u32 \<Rightarrow> MemoryNode \<Rightarrow> MemoryNode res" where
  "set_page_private raw page_id order nd =
     page_upd raw page_id (\<lambda>p. p\<lparr>page_private := order\<rparr>) nd"

definition set_page_order :: "raw_memory \<Rightarrow> address \<Rightarrow> u32 \<Rightarrow> MemoryNode \<Rightarrow> MemoryNode res" where
  "set_page_order raw page_id order nd =
     bindE (set_page_private raw page_id order nd) (set_page_buddy raw page_id)"

section \<open>Zones\<close>

definition set_pages_thres :: "u64 \<Rightarrow> Zone \<Rightarrow> Zone" where
  "set_pages_thres mn z =
     z\<lparr>pages_min := mn,
       pages_low := u64_of_dbl (dmul (5 / 4) (dbl_of_u64 mn)),
       pages_high := u64_of_dbl (dmul (3 / 2) (dbl_of_u64 mn))\<rparr>"

definition get_cpu_cold_pages :: "Zone \<Rightarrow> nat \<Rightarrow> PerCpuPages res" where
  "get_cpu_cold_pages z cpu_id = bindE (nthE (page_set z) cpu_id) (\<lambda>ps. Inr (pcp_cold ps))"

definition get_cpu_hot_pages :: "Zone \<Rightarrow> nat \<Rightarrow> PerCpuPages res" where
  "get_cpu_hot_pages z cpu_id = bindE (nthE (page_set z) cpu_id) (\<lambda>ps. Inr (pcp_hot ps))"

text \<open>
  \<open>batch\<close> is a signed \<open>int\<close>; the product with the 64-bit page size is unsigned, and the
  logarithm of a batch of 1 minus 1 wraps when it is returned as \<open>unsigned\<close>.
\<close>

definition zone_batchsize :: "GlobSimInfo \<Rightarrow> Zone \<Rightarrow> u32 res" where
  "zone_batchsize zinfo z =
     (let batch = sint (ucast (drop_bit 10 (free_pages z)) :: u32)
      in bindE (if of_int batch * page_size zinfo > 512 * 1024
                then bindE (divE (512 * 1024) (page_size zinfo)) (\<lambda>q. Inr (sint (ucast q :: u32)))
                else Inr (batch sdiv 4)) (\<lambda>batch.
         let batch = (if batch < 1 then 1 else batch)
         in Inr (of_nat (log2_u16 (of_int (batch + batch sdiv 2))) - 1)))"

definition zone_pageset_init :: "GlobSimInfo \<Rightarrow> Zone \<Rightarrow> PerCpuPageset \<Rightarrow> PerCpuPageset res" where
  "zone_pageset_init zinfo z ps =
     (let hot = (pcp_hot ps)\<lparr>pcp_count := 0, page_list := []\<rparr>;
          cold = (pcp_cold ps)\<lparr>pcp_count := 0, page_list := []\<rparr>
      in if percpu_pagelist_fraction zinfo \<noteq> 0 then
           bindE (divE (free_pages z) (of_int (percpu_pagelist_fraction zinfo))) (\<lambda>q.
             let high = ucast q :: u32;
                 batch = (if (ucast (high div 4) :: u64) > of_nat (page_shift zinfo) * 8
                          then of_nat (page_shift zinfo) * 8
                          else Max_c 1 (high div 4))
             in Inr \<lparr>pcp_hot = hot\<lparr>pcp_batch := batch, pcp_high := high\<rparr>,
                     pcp_cold = cold\<lparr>pcp_batch := batch, pcp_high := 2 * batch\<rparr>\<rparr>)
         else
           bindE (zone_batchsize zinfo z) (\<lambda>batch.
             let high = 6 * batch; batch = Max_c 1 batch
             in Inr \<lparr>pcp_hot = hot\<lparr>pcp_batch := batch, pcp_high := high\<rparr>,
                     pcp_cold = cold\<lparr>pcp_batch := Max_c 1 (batch div 2), pcp_high := 2 * batch\<rparr>\<rparr>))"

definition setup_zone_pageset :: "raw_memory \<Rightarrow> GlobSimInfo \<Rightarrow> Zone \<Rightarrow> Zone res" where
  "setup_zone_pageset raw zinfo z =
     foldE (\<lambda>i z. bindE (zone_pageset_init zinfo z (raw_pcp raw i)) (\<lambda>ps.
              Inr (z\<lparr>page_set := page_set z @ [ps]\<rparr>)))
       [0..<numCores zinfo] z"

definition Zone_new ::
  "raw_memory \<Rightarrow> GlobSimInfo \<Rightarrow> ZoneType \<Rightarrow> u64 \<Rightarrow> u64 \<Rightarrow> Zone res" where
  "Zone_new raw zinfo type start_pfn end_pfn =
     bindE (assertE (start_pfn < end_pfn)) (\<lambda>_.
     setup_zone_pageset raw zinfo
       ((raw_zone raw)\<lparr>zone_type := type, zone_start_pfn := start_pfn,
          free_pages := end_pfn - start_pfn, page_set := []\<rparr>))"

text \<open>The inner loop of \<open>free_area_init_zone\<close>: append \<open>n\<close> blocks of order \<open>i\<close>.\<close>

primrec push_blocks ::
  "raw_memory \<Rightarrow> nat \<Rightarrow> nat \<Rightarrow> FlexiList \<times> MemoryNode \<times> u64 \<Rightarrow> (FlexiList \<times> MemoryNode \<times> u64) res"
where
  "push_blocks raw i 0 st = Inr st"
| "push_blocks raw i (Suc n) st =
     (case st of (bl, nd, page_index) \<Rightarrow>
       bindE (get_page_ptr raw page_index nd) (\<lambda>nd.
       bindE (fl_push_block_back bl page_index (node_mem_map nd)) (\<lambda>(bl, ps).
       push_blocks raw i n (bl, nd\<lparr>node_mem_map := ps\<rparr>, page_index + 2 ^ i))))"

text \<open>The outer loop, from \<open>MAXORDER\<close> down to order 1.\<close>

primrec free_area_orders ::
  "raw_memory \<Rightarrow> nat \<Rightarrow> FreeArea list \<times> MemoryNode \<times> u64 \<times> u64 \<Rightarrow>
   (FreeArea list \<times> MemoryNode \<times> u64 \<times> u64) res"
where
  "free_area_orders raw 0 st = Inr st"
| "free_area_orders raw (Suc i) st =
     (case st of (fa, nd, page_number, page_index) \<Rightarrow>
       if page_number > 0 then
         let max_block_num = page_number div 2 ^ Suc i
         in if max_block_num > 0 then
              bindE (nthE fa (Suc i)) (\<lambda>area.
              bindE (push_blocks raw (Suc i) (unat max_block_num) (block_list area, nd, page_index))
                (\<lambda>(bl, nd, page_index).
              free_area_orders raw i
                (fa[Suc i := area\<lparr>block_list := bl, nr_free := max_block_num\<rparr>], nd,
                 page_number - max_block_num * 2 ^ Suc i, page_index)))
            else free_area_orders raw i st
       else Inr st)"

definition free_area_init_zone ::
  "raw_memory \<Rightarrow> u64 \<Rightarrow> Zone \<Rightarrow> MemoryNode \<Rightarrow> (Zone \<times> MemoryNode) res" where
  "free_area_init_zone raw page_number z nd =
     bindE (free_area_orders raw MAXORDER
              (replicate (MAXORDER + 1) \<lparr>block_list = FlexiList_new, nr_free = 0\<rparr>, nd, page_number, 0))
       (\<lambda>(fa, nd, _, _). Inr (z\<lparr>free_area := fa\<rparr>, nd))"

definition memmap_init_zone ::
  "raw_memory \<Rightarrow> u64 \<Rightarrow> u64 \<Rightarrow> Zone \<Rightarrow> MemoryNode \<Rightarrow> (Zone \<times> MemoryNode) res" where
  "memmap_init_zone raw start_pfn sz z nd = free_area_init_zone raw sz z nd"

section \<open>The memory node\<close>

definition zone_exists :: "ZoneType \<Rightarrow> MemoryNode \<Rightarrow> bool res" where
  "zone_exists type nd =
     (if type = MAX_NR_ZONES then Inl Out_of_range else Inr (node_zones nd type \<noteq> None))"

definition zone_exists_name :: "string \<Rightarrow> MemoryNode \<Rightarrow> bool res" where
  "zone_exists_name zone_name nd = zone_exists (string_to_zonetype zone_name) nd"

definition calculate_total_pages :: "MemoryNode \<Rightarrow> u64 res" where
  "calculate_total_pages nd =
     foldE (\<lambda>i total.
        bindE (assertE (zone_lowest_possible nd i \<le> zone_highest_possible nd i)) (\<lambda>_.
        Inr (total + (zone_highest_possible nd i - zone_lowest_possible nd i))))
       zone_index 0"

definition init_zone :: "raw_memory \<Rightarrow> GlobSimInfo \<Rightarrow> ZoneType \<Rightarrow> MemoryNode \<Rightarrow> MemoryNode res" where
  "init_zone raw zinfo i nd =
     (if zone_highest_possible nd i \<noteq> zone_lowest_possible nd i then
        bindE (Zone_new raw zinfo i (zone_lowest_possible nd i) (zone_highest_possible nd i)) (\<lambda>z.
        bindE (memmap_init_zone raw (zone_lowest_possible nd i) (zone_highest_possible nd i) z nd)
          (\<lambda>(z, nd).
        Inr (nd\<lparr>node_zones := (node_zones nd)(i \<mapsto> z), nr_zones := nr_zones nd + 1\<rparr>)))
      else Inr (nd\<lparr>node_zones := (node_zones nd)(i := None)\<rparr>))"

definition init_zones :: "raw_memory \<Rightarrow> GlobSimInfo \<Rightarrow> MemoryNode \<Rightarrow> MemoryNode res" where
  "init_zones raw zinfo nd = foldE (init_zone raw zinfo) zone_index nd"

definition zone_pages :: "MemoryNode \<Rightarrow> ZoneType \<Rightarrow> u64" where
  "zone_pages nd i = (case node_zones nd i of None \<Rightarrow> 0 | Some z \<Rightarrow> free_pages z)"

definition upd_zone :: "ZoneType \<Rightarrow> (Zone \<Rightarrow> Zone) \<Rightarrow> MemoryNode \<Rightarrow> MemoryNode" where
  "upd_zone i f nd = nd\<lparr>node_zones := (node_zones nd)(i := map_option f (node_zones nd i))\<rparr>"

definition setup_per_zone_wmarks :: "GlobSimInfo \<Rightarrow> MemoryNode \<Rightarrow> MemoryNode res" where
  "setup_per_zone_wmarks zinfo nd =
     bindE (assertE (node_zones nd Zone_Normal \<noteq> None)) (\<lambda>_.
     bindE (assertE (page_shift zinfo \<ge> 10)) (\<lambda>_.
       let dma_pages = zone_pages nd Zone_DMA;
           normal_pages = zone_pages nd Zone_Normal;
           lowmem = push_bit (page_shift zinfo - 10)
             (lowmem_kbytes nd + sum_list (map (zone_pages nd) zone_index));
           min_free = u64_of_dbl (dsqrt (dbl_of_u64 (16 * lowmem)));
           min_free_pages = drop_bit (page_shift zinfo - 10) min_free;
           rate = ddiv (dbl_of_u64 normal_pages) (dbl_of_u64 (dma_pages + normal_pages));
           min_dma = u64_of_dbl (dmul (dsub 1 rate) (dbl_of_u64 min_free_pages));
           min_normal = u64_of_dbl (dmul rate (dbl_of_u64 min_free_pages));
           min_highmem = Min_c (Max_c (zone_pages nd Zone_HighMem div 1024) SWAP_CLUSTER_MAX) 128
       in Inr (upd_zone Zone_HighMem (set_pages_thres min_highmem)
              (upd_zone Zone_Normal (set_pages_thres min_normal)
              (upd_zone Zone_DMA (set_pages_thres min_dma)
              (nd\<lparr>lowmem_kbytes := lowmem, min_free_kbytes := min_free\<rparr>))))))"

text \<open>The bounds of the zones: each starts where the previous one ends.\<close>

definition zone_bounds :: "GlobSimInfo \<Rightarrow> MemoryNode \<Rightarrow> MemoryNode" where
  "zone_bounds zinfo nd =
     (let lo0 = node_start_pfn nd; hi0 = max_zone_pfns zinfo Zone_DMA;
          lo1 = hi0; hi1 = Max_c (max_zone_pfns zinfo Zone_DMA32) lo1;
          lo2 = hi1; hi2 = Max_c (max_zone_pfns zinfo Zone_Normal) lo2;
          lo3 = hi2; hi3 = Max_c (max_zone_pfns zinfo Zone_HighMem) lo3
      in nd\<lparr>zone_lowest_possible := (zone_lowest_possible nd)
              (Zone_DMA := lo0, Zone_DMA32 := lo1, Zone_Normal := lo2, Zone_HighMem := lo3),
            zone_highest_possible := (zone_highest_possible nd)
              (Zone_DMA := hi0, Zone_DMA32 := hi1, Zone_Normal := hi2, Zone_HighMem := hi3)\<rparr>)"

definition MemoryNode_new :: "raw_memory \<Rightarrow> GlobSimInfo \<Rightarrow> u32 \<Rightarrow> address \<Rightarrow> MemoryNode res" where
  "MemoryNode_new raw zinfo nid start_addr =
     (let nd = zone_bounds zinfo ((raw_node raw)\<lparr>node_mem_map := Map.empty, node_id := nid,
                 node_start_pfn := drop_bit (page_shift zinfo) start_addr,
                 lowmem_kbytes := 0, min_free_kbytes := 0\<rparr>)
      in bindE (calculate_total_pages nd) (\<lambda>n.
         bindE (init_zones raw zinfo (nd\<lparr>node_page_num := n, present_pages := n\<rparr>)) (\<lambda>nd.
         setup_per_zone_wmarks zinfo nd)))"

section \<open>Free pages of a family of free lists\<close>

text \<open>\<open>bl k\<close> lists the blocks of order \<open>k\<close>; a block of order \<open>k\<close> at \<open>b\<close> has \<open>2^k\<close> pages.\<close>

type_synonym free_lists = "nat \<Rightarrow> address list"

definition block_pages :: "nat \<Rightarrow> address \<Rightarrow> nat multiset" where
  "block_pages k b = mset [unat b..<unat b + 2 ^ k]"

definition list_pages :: "nat \<Rightarrow> address list \<Rightarrow> nat multiset" where
  "list_pages k bs = sum_list (map (block_pages k) bs)"

definition free_mset :: "free_lists \<Rightarrow> nat multiset" where
  "free_mset bl = (\<Sum>k\<le>MAXORDER. list_pages k (bl k))"

lemma list_pages_simps [simp]:
  "list_pages k [] = {#}" "list_pages k (b # bs) = block_pages k b + list_pages k bs"
  "list_pages k (bs @ cs) = list_pages k bs + list_pages k cs"
  by (simp_all add: list_pages_def)

lemma in_block_pages: "v \<in># block_pages k b \<longleftrightarrow> unat b \<le> v \<and> v < unat b + 2 ^ k"
  by (auto simp: block_pages_def)

lemma block_start [simp]: "unat b \<in># block_pages k b"
  by (simp add: in_block_pages)

lemma in_list_pages: "v \<in># list_pages k bs \<longleftrightarrow> (\<exists>b\<in>set bs. v \<in># block_pages k b)"
  by (induction bs) auto

lemma free_mset_remove:
  "k \<le> MAXORDER \<Longrightarrow> free_mset bl = free_mset (bl(k := [])) + list_pages k (bl k)"
proof -
  assume k: "k \<le> MAXORDER"
  have "free_mset cl = list_pages k (cl k) + (\<Sum>j\<in>{..MAXORDER} - {k}. list_pages j (cl j))" for cl
    unfolding free_mset_def using k by (simp add: sum.remove)
  moreover have "(\<Sum>j\<in>{..MAXORDER} - {k}. list_pages j ((bl(k := [])) j)) =
      (\<Sum>j\<in>{..MAXORDER} - {k}. list_pages j (bl j))"
    by (rule sum.cong) auto
  ultimately show ?thesis by simp
qed

lemma free_mset_upd:
  assumes "k \<le> MAXORDER"
  shows "free_mset (bl(k := bs)) + list_pages k (bl k) = free_mset bl + list_pages k bs"
  using free_mset_remove [OF assms, of bl] free_mset_remove [OF assms, of "bl(k := bs)"] by simp

lemma in_free_mset: "v \<in># free_mset bl \<longleftrightarrow> (\<exists>k\<le>MAXORDER. v \<in># list_pages k (bl k))"
  unfolding free_mset_def by (auto simp: set_mset_sum)

text \<open>Upper and lower half of a block.\<close>

lemma block_pages_Suc:
  assumes "unat b + 2 ^ Suc k < 2 ^ 64"
  shows "block_pages (Suc k) b = block_pages k b + block_pages k (b + 2 ^ k)"
proof -
  have "unat (b + 2 ^ k) = unat b + 2 ^ k"
    using assms power_less_imp_less_exp [of "2 :: nat" k 64] by (simp add: unat_word_ariths unat_2_power)
  moreover have "[unat b..<unat b + 2 ^ Suc k] =
      [unat b..<unat b + 2 ^ k] @ [unat b + 2 ^ k..<unat b + 2 ^ k + 2 ^ k]"
    using upt_add_eq_append [of "unat b" "unat b + 2 ^ k" "2 ^ k"] by (simp add: mult_2 add.assoc)
  ultimately show ?thesis by (simp add: block_pages_def)
qed

section \<open>Page descriptors\<close>

definition node_ok :: "page_store \<Rightarrow> bool" where
  "node_ok ps \<longleftrightarrow> (\<forall>x p. ps x = Some p \<longrightarrow> pageNo p = x)"

definition strip :: "page_store \<Rightarrow> page_store" where
  "strip ps x = map_option (\<lambda>p. p\<lparr>next_page := None\<rparr>) (ps x)"

lemma strip_field:
  assumes "strip ps' x = strip ps x" and "ps x = Some p"
  shows "\<exists>n. ps' x = Some (p\<lparr>next_page := n\<rparr>)"
proof -
  obtain p' where "ps' x = Some p'" "p'\<lparr>next_page := None\<rparr> = p\<lparr>next_page := None\<rparr>"
    using assms by (auto simp: strip_def)
  moreover from this(2) have "p' = p\<lparr>next_page := next_page p'\<rparr>"
    by (cases p; cases p') simp
  ultimately show ?thesis by metis
qed

lemma node_ok_strip: "strip ps' = strip ps \<Longrightarrow> node_ok ps \<Longrightarrow> node_ok ps'"
  unfolding node_ok_def using strip_field [of ps _ ps'] by (metis Page.select_convs(2) Page.surjective Page.update_convs(6))

lemma set_next_strip: "set_next x n ps = Inr ps' \<Longrightarrow> strip ps' = strip ps"
  by (auto simp: set_next_def strip_def res_simps)

lemma fl_push_strip: "fl_push_block_back l x ps = Inr (l', ps') \<Longrightarrow> strip ps' = strip ps"
  by (auto simp: fl_push_block_back_def res_simps split: option.splits if_splits
      dest!: set_next_strip)

lemma fl_fetch_strip: "fl_fetch_head l ps = Inr (x, l', ps') \<Longrightarrow> strip ps' = strip ps"
  by (auto simp: fl_fetch_head_def res_simps split: if_splits dest!: set_next_strip)

lemma get_page_ptr_ok:
  assumes "x < node_page_num nd" and "node_ok (node_mem_map nd)"
  obtains ps' where "get_page_ptr raw x nd = Inr (nd\<lparr>node_mem_map := ps'\<rparr>)"
    "node_mem_map nd \<subseteq>\<^sub>m ps'" "x \<in> dom ps'" "node_ok ps'"
proof (cases "node_mem_map nd x")
  case None
  show ?thesis
  proof (rule that)
    show "get_page_ptr raw x nd =
        Inr (nd\<lparr>node_mem_map := (node_mem_map nd)(x \<mapsto> Page_new (raw_page raw x) x)\<rparr>)"
      using assms(1) None by (simp add: get_page_ptr_def)
    show "node_ok ((node_mem_map nd)(x \<mapsto> Page_new (raw_page raw x) x))"
      using assms(2) by (auto simp: node_ok_def Page_new_def)
  qed (use None in \<open>auto simp: map_le_def\<close>)
next
  case (Some p)
  then show ?thesis
    using assms that [of "node_mem_map nd"] by (auto simp: get_page_ptr_def)
qed

lemma set_page_order_ok:
  assumes "x < node_page_num nd" and "node_mem_map nd x = Some p"
  shows "set_page_order raw x k nd =
    Inr (nd\<lparr>node_mem_map := (node_mem_map nd)
      (x \<mapsto> p\<lparr>page_private := k, map_count := PAGE_BUDDY_MAPCOUNT_VALUE\<rparr>)\<rparr>)"
  using assms
  by (simp add: set_page_order_def set_page_private_def set_page_buddy_def page_upd_def page_at_def
      get_page_ptr_def)

lemma fl_rep_mono: "ps \<subseteq>\<^sub>m ps' \<Longrightarrow> fl_rep ps l xs \<Longrightarrow> fl_rep ps' l xs"
  using fl_rep_cong [of xs ps ps' l] fl_rep_present [of ps l xs]
  by (metis domIff map_le_def nexts_def)

section \<open>Representation of free lists\<close>

definition lists_rep :: "page_store \<Rightarrow> FreeArea list \<Rightarrow> free_lists \<Rightarrow> bool" where
  "lists_rep ps fa bl \<longleftrightarrow>
     length fa = MAXORDER + 1 \<and>
     (\<forall>k\<le>MAXORDER. fl_rep ps (block_list (fa ! k)) (bl k) \<and> nr_free (fa ! k) = of_nat (length (bl k)))"

text \<open>Blocks that do not overlap, lie in the node and are aligned.\<close>

definition blocks_ok :: "nat \<Rightarrow> free_lists \<Rightarrow> nat multiset \<Rightarrow> bool" where
  "blocks_ok n bl rest \<longleftrightarrow>
     (\<forall>v. count (free_mset bl + rest) v \<le> 1) \<and> (\<forall>v\<in>#free_mset bl + rest. v < n) \<and>
     (\<forall>k\<le>MAXORDER. \<forall>b\<in>set (bl k). 2 ^ k dvd unat b)"

lemma blocks_ok_start_notin:
  assumes "blocks_ok n bl rest" and "unat x \<in># rest" and "k \<le> MAXORDER"
  shows "x \<notin> set (bl k)"
proof
  assume "x \<in> set (bl k)"
  then have "unat x \<in># free_mset bl"
    using assms(3) block_start unfolding in_free_mset in_list_pages by blast
  then have "0 < count (free_mset bl) (unat x)" "0 < count rest (unat x)"
    using assms(2) by (simp_all only: count_greater_zero_iff)
  moreover have "count (free_mset bl + rest) (unat x) \<le> 1"
    using assms(1) by (simp only: blocks_ok_def)
  ultimately show False unfolding count_union by linarith
qed

lemma blocks_ok_disjoint:
  assumes "blocks_ok n bl rest" and "j \<noteq> k" and "j \<le> MAXORDER" and "k \<le> MAXORDER"
  shows "set (bl j) \<inter> set (bl k) = {}"
proof -
  have "blocks_ok n (bl(k := [])) (list_pages k (bl k) + rest)"
    using assms(1) free_mset_remove [OF assms(4), of bl] by (auto simp: blocks_ok_def ac_simps)
  moreover have "unat x \<in># list_pages k (bl k) + rest" if "x \<in> set (bl k)" for x
    using that by (auto simp: in_list_pages intro: bexI [of _ x])
  ultimately have "x \<notin> set ((bl(k := [])) j)" if "x \<in> set (bl k)" for x
    using that assms(3) blocks_ok_start_notin by blast
  then show ?thesis using assms(2) by auto
qed

lemma lists_rep_mono: "ps \<subseteq>\<^sub>m ps' \<Longrightarrow> lists_rep ps fa bl \<Longrightarrow> lists_rep ps' fa bl"
  using fl_rep_mono by (auto simp: lists_rep_def)

lemma lists_rep_nexts: "nexts ps' = nexts ps \<Longrightarrow> lists_rep ps fa bl \<Longrightarrow> lists_rep ps' fa bl"
  using fl_rep_cong [of _ ps' ps] by (simp add: lists_rep_def)

lemma lists_push:
  assumes lists: "lists_rep ps fa bl" and ok: "blocks_ok n bl rest" and x: "unat x \<in># rest" "x \<in> dom ps"
    and k: "k \<le> MAXORDER"
  obtains l' ps' where "fl_push_block_back (block_list (fa ! k)) x ps = Inr (l', ps')"
    "lists_rep ps' (fa[k := (fa ! k)\<lparr>block_list := l', nr_free := nr_free (fa ! k) + 1\<rparr>])
       (bl(k := bl k @ [x]))"
    "dom ps' = dom ps" "strip ps' = strip ps"
proof -
  note notin = blocks_ok_start_notin [OF ok x(1)]
  have rep: "fl_rep ps (block_list (fa ! j)) (bl j)" if "j \<le> MAXORDER" for j
    using lists that by (simp add: lists_rep_def)
  obtain l' ps' where push: "fl_push_block_back (block_list (fa ! k)) x ps = Inr (l', ps')"
    "fl_rep ps' l' (bl k @ [x])" "dom ps' = dom ps"
    and frame: "\<And>l2 ys. fl_rep ps l2 ys \<Longrightarrow> set ys \<inter> insert x (set (bl k)) = {} \<Longrightarrow> fl_rep ps' l2 ys"
    using flexi.push_law [OF rep [OF k] x(2) notin [OF k]] by blast
  have "fl_rep ps' (block_list (fa ! j)) (bl j)" if "j \<le> MAXORDER" "j \<noteq> k" for j
    using frame [OF rep [OF that(1)]] notin [OF that(1)]
      blocks_ok_disjoint [OF ok that(2) that(1) k] by blast
  then have "lists_rep ps' (fa[k := (fa ! k)\<lparr>block_list := l', nr_free := nr_free (fa ! k) + 1\<rparr>])
       (bl(k := bl k @ [x]))"
    using lists push(2) k by (auto simp: lists_rep_def nth_list_update)
  with push(1,3) fl_push_strip [OF push(1)] show thesis using that by blast
qed

lemma lists_fetch:
  assumes lists: "lists_rep ps fa bl" and ok: "blocks_ok n bl rest"
    and k: "k \<le> MAXORDER" "bl k = x # xs"
  obtains l' ps' where "fl_fetch_head (block_list (fa ! k)) ps = Inr (x, l', ps')"
    "lists_rep ps' (fa[k := (fa ! k)\<lparr>block_list := l', nr_free := nr_free (fa ! k) - 1\<rparr>])
       (bl(k := xs))"
    "dom ps' = dom ps" "strip ps' = strip ps"
proof -
  have rep: "fl_rep ps (block_list (fa ! j)) (bl j)" if "j \<le> MAXORDER" for j
    using lists that by (simp add: lists_rep_def)
  obtain l' ps' where fetch: "fl_fetch_head (block_list (fa ! k)) ps = Inr (x, l', ps')"
    "fl_rep ps' l' xs" "dom ps' = dom ps"
    and frame: "\<And>l2 ys. fl_rep ps l2 ys \<Longrightarrow> x \<notin> set ys \<Longrightarrow> fl_rep ps' l2 ys"
    using flexi.fetch_law [OF rep [OF k(1), unfolded k(2)]] by blast
  have "fl_rep ps' (block_list (fa ! j)) (bl j)" if "j \<le> MAXORDER" "j \<noteq> k" for j
    using frame [OF rep [OF that(1)]] blocks_ok_disjoint [OF ok that(2) that(1) k(1)] k(2) by auto
  then have "lists_rep ps' (fa[k := (fa ! k)\<lparr>block_list := l', nr_free := nr_free (fa ! k) - 1\<rparr>])
       (bl(k := xs))"
    using lists fetch(2) k by (auto simp: lists_rep_def nth_list_update)
  with fetch(1,3) fl_fetch_strip [OF fetch(1)] show thesis using that by blast
qed

lemma blocks_ok_move:
  assumes ok: "blocks_ok n bl rest" and eq: "free_mset bl' + rest' = free_mset bl + rest"
    and "\<And>k b. k \<le> MAXORDER \<Longrightarrow> b \<in> set (bl' k) \<Longrightarrow> b \<in> set (bl k) \<or> 2 ^ k dvd unat b"
  shows "blocks_ok n bl' rest'"
  using assms unfolding blocks_ok_def eq by blast

section \<open>The free lists of a new zone\<close>

definition aligned :: "free_lists \<Rightarrow> bool" where
  "aligned bl \<longleftrightarrow> (\<forall>k\<le>MAXORDER. \<forall>b\<in>set (bl k). 2 ^ k dvd unat b)"

lemma blocks_ok_interval:
  assumes "free_mset bl + rest = mset [0..<m]" and "m \<le> n" and "aligned bl"
  shows "blocks_ok n bl rest"
  unfolding blocks_ok_def assms(1) using assms(2,3)
  by (auto simp: aligned_def count_mset_set')

lemma push_blocks_ok:
  assumes "lists_rep (node_mem_map nd) fa bl" and "node_ok (node_mem_map nd)" and "k \<le> MAXORDER"
    and "free_mset bl = mset [0..<unat idx]" and "aligned bl" and "2 ^ k dvd unat idx"
    and "unat idx + n * 2 ^ k \<le> unat (node_page_num nd)"
  shows "\<exists>l' ps' bl'. push_blocks raw k n (block_list (fa ! k), nd, idx) =
      Inr (l', nd\<lparr>node_mem_map := ps'\<rparr>, idx + of_nat (n * 2 ^ k)) \<and>
    lists_rep ps' (fa[k := (fa ! k)\<lparr>block_list := l', nr_free := nr_free (fa ! k) + of_nat n\<rparr>]) bl' \<and>
    node_ok ps' \<and> free_mset bl' = mset [0..<unat idx + n * 2 ^ k] \<and> aligned bl' \<and>
    (\<forall>j. j \<noteq> k \<longrightarrow> bl' j = bl j)"
  using assms
proof (induction n arbitrary: nd fa bl idx)
  case 0
  then show ?case
    by (intro exI [of _ "block_list (fa ! k)"] exI [of _ "node_mem_map nd"] exI [of _ bl]) simp
next
  case (Suc n)
  have room: "unat idx + 2 ^ k + n * 2 ^ k \<le> unat (node_page_num nd)"
    using Suc.prems(7) by (simp add: add.assoc)
  have idx_eq: "unat (idx + 2 ^ k) = unat idx + 2 ^ k"
    using room unat_less_2p64 [of "node_page_num nd"] Suc.prems(3)
    by (simp add: unat_word_ariths unat_2_power MAXORDER_def)
  have pages: "free_mset bl + block_pages k idx = mset [0..<unat idx + 2 ^ k]"
    using upt_add_eq_append [of 0 "unat idx" "2 ^ k"] Suc.prems(4) by (simp add: block_pages_def)
  have ok: "blocks_ok (unat (node_page_num nd)) bl (block_pages k idx)"
    using blocks_ok_interval [OF pages _ Suc.prems(5)] room by simp
  have "0 < (2 :: nat) ^ k" by simp
  then have "idx < node_page_num nd" using room unfolding word_less_nat_alt by linarith
  then obtain ps1 where get: "get_page_ptr raw idx nd = Inr (nd\<lparr>node_mem_map := ps1\<rparr>)"
    and le: "node_mem_map nd \<subseteq>\<^sub>m ps1" and x1: "idx \<in> dom ps1" and nok1: "node_ok ps1"
    using get_page_ptr_ok [OF _ Suc.prems(2)] by metis
  obtain l1 ps2 where push: "fl_push_block_back (block_list (fa ! k)) idx ps1 = Inr (l1, ps2)"
    and lists2: "lists_rep ps2 (fa[k := (fa ! k)\<lparr>block_list := l1, nr_free := nr_free (fa ! k) + 1\<rparr>])
       (bl(k := bl k @ [idx]))" (is "lists_rep _ ?fa ?bl")
    and strip2: "strip ps2 = strip ps1"
    using lists_push [OF lists_rep_mono [OF le Suc.prems(1)] ok _ x1 Suc.prems(3)] block_start by metis
  have len: "k < length fa" using Suc.prems(1,3) by (simp add: lists_rep_def)
  define bl1 where "bl1 = ?bl"
  have "free_mset bl1 = mset [0..<unat (idx + 2 ^ k)]"
    using free_mset_upd [OF Suc.prems(3), of bl "bl k @ [idx]"] pages idx_eq
    by (simp add: bl1_def)
  moreover have "aligned bl1" using Suc.prems(5,6) by (auto simp: aligned_def bl1_def)
  moreover have "\<forall>j. j \<noteq> k \<longrightarrow> bl1 j = bl j" by (simp add: bl1_def)
  moreover have "2 ^ k dvd unat (idx + 2 ^ k)" using Suc.prems(6) by (simp add: idx_eq)
  ultimately obtain l' ps' bl' where
    "push_blocks raw k n (l1, nd\<lparr>node_mem_map := ps2\<rparr>, idx + 2 ^ k) =
      Inr (l', nd\<lparr>node_mem_map := ps'\<rparr>, idx + 2 ^ k + of_nat (n * 2 ^ k))"
    "lists_rep ps' (fa[k := (fa ! k)\<lparr>block_list := l', nr_free := nr_free (fa ! k) + 1 + of_nat n\<rparr>]) bl'"
    "node_ok ps'" "free_mset bl' = mset [0..<unat idx + 2 ^ k + n * 2 ^ k]" "aligned bl'"
    "\<forall>j. j \<noteq> k \<longrightarrow> bl' j = bl j"
    using Suc.IH [of "nd\<lparr>node_mem_map := ps2\<rparr>" ?fa bl1 "idx + 2 ^ k"]
      lists2 [folded bl1_def] node_ok_strip [OF strip2 nok1] Suc.prems(3) room len idx_eq by auto
  then show ?case
    using get push by (intro exI [of _ l'] exI [of _ ps'] exI [of _ bl']) (simp add: ac_simps)
qed

text \<open>One round of the outer loop, with or without blocks of its order.\<close>

lemma free_area_round:
  assumes lists: "lists_rep (node_mem_map nd) fa bl" and nok: "node_ok (node_mem_map nd)"
    and k_def: "k = Suc i" and k: "k \<le> MAXORDER"
    and pages: "free_mset bl = mset [0..<unat idx]" and al: "aligned bl" and dvd: "2 ^ k dvd unat idx"
    and empty: "\<forall>j\<le>k. bl j = []"
    and room: "unat idx + unat pn \<le> unat (node_page_num nd)" and pos: "pn \<noteq> 0"
  obtains fa1 ps1 pn1 idx1 bl1 where
    "free_area_orders raw k (fa, nd, pn, idx) = free_area_orders raw i (fa1, nd\<lparr>node_mem_map := ps1\<rparr>, pn1, idx1)"
    "lists_rep ps1 fa1 bl1" "node_ok ps1" "free_mset bl1 = mset [0..<unat idx1]" "aligned bl1"
    "2 ^ k dvd unat idx1" "\<forall>j\<le>i. bl1 j = []"
    "unat idx1 + unat pn1 = unat idx + unat pn" "unat pn1 = unat pn mod 2 ^ k"
proof -
  have k64: "k < 64" using k by (simp add: MAXORDER_def)
  define n where "n = unat pn div 2 ^ k"
  have n: "unat (pn div 2 ^ k) = n" using unat_div_2_power [OF k64] by (simp add: n_def)
  have pn_div: "unat pn = n * 2 ^ k + unat pn mod 2 ^ k" by (simp only: n_def div_mult_mod_eq)
  show thesis
  proof (cases "n = 0")
    case True
    then have "pn div 2 ^ k = 0" using n by (simp add: unat_eq_zero)
    then have "free_area_orders raw k (fa, nd, pn, idx) = free_area_orders raw i (fa, nd, pn, idx)"
      using pos by (simp add: k_def word_gt_0)
    then show thesis
      using that [of fa "node_mem_map nd" pn idx bl] lists nok pages al dvd empty True pn_div k_def by auto
  next
    case False
    then have max_pos: "0 < pn div 2 ^ k" using n by (metis unat_eq_zero word_gt_0)
    have room': "unat idx + n * 2 ^ k \<le> unat (node_page_num nd)" using room pn_div by linarith
    obtain l1 ps1 bl1 where push: "push_blocks raw k n (block_list (fa ! k), nd, idx) =
        Inr (l1, nd\<lparr>node_mem_map := ps1\<rparr>, idx + of_nat (n * 2 ^ k))"
      and 1: "lists_rep ps1 (fa[k := (fa ! k)\<lparr>block_list := l1, nr_free := nr_free (fa ! k) + of_nat n\<rparr>]) bl1"
      "node_ok ps1" "free_mset bl1 = mset [0..<unat idx + n * 2 ^ k]" "aligned bl1"
      "\<forall>j. j \<noteq> k \<longrightarrow> bl1 j = bl j"
      using push_blocks_ok [OF lists nok k pages al dvd room'] by blast
    have zero: "nr_free (fa ! k) = 0" and len: "k < length fa"
      using lists empty k by (auto simp: lists_rep_def)
    have n_word: "of_nat n = pn div 2 ^ k" by (simp flip: n)
    have lt: "unat idx + n * 2 ^ k < 2 ^ 64"
      using room' unat_less_2p64 [of "node_page_num nd"] by linarith
    define idx1 where "idx1 = idx + of_nat (n * 2 ^ k)"
    define pn1 where "pn1 = pn - pn div 2 ^ k * 2 ^ k"
    have idx1: "unat idx1 = unat idx + n * 2 ^ k"
      using lt unat_of_nat_u64 [of "n * 2 ^ k"] by (simp add: idx1_def unat_word_ariths(1) del: of_nat_mult)
    have prod: "unat (pn div 2 ^ k * 2 ^ k) = n * 2 ^ k"
      unfolding unat_word_ariths(2) n unat_2_power [OF k64] using lt by simp
    have pn1: "unat pn1 = unat pn mod 2 ^ k"
      unfolding pn1_def using pn_div prod by (subst unat_sub) (auto simp: word_le_nat_alt)
    have step: "free_area_orders raw k (fa, nd, pn, idx) = free_area_orders raw i
        (fa[k := (fa ! k)\<lparr>block_list := l1, nr_free := of_nat n\<rparr>], nd\<lparr>node_mem_map := ps1\<rparr>, pn1, idx1)"
      using pos max_pos len push unfolding k_def free_area_orders.simps
      unfolding k_def [symmetric] by (simp add: word_gt_0 Let_def n n_word idx1_def pn1_def)
    show thesis
      by (rule that [OF step]) (use 1 zero idx1 pn1 pn_div empty dvd k_def in auto)
  qed
qed

lemma free_area_orders_ok:
  assumes "lists_rep (node_mem_map nd) fa bl" and "node_ok (node_mem_map nd)" and "i \<le> MAXORDER"
    and "free_mset bl = mset [0..<unat idx]" and "aligned bl" and "2 ^ i dvd unat idx"
    and "\<forall>j\<le>i. bl j = []"
    and "unat idx + unat pn \<le> unat (node_page_num nd)"
  shows "\<exists>fa' ps' pn' idx' bl'. free_area_orders raw i (fa, nd, pn, idx) =
      Inr (fa', nd\<lparr>node_mem_map := ps'\<rparr>, pn', idx') \<and> lists_rep ps' fa' bl' \<and> node_ok ps' \<and> aligned bl' \<and>
    free_mset bl' = mset [0..<unat idx + (unat pn - (if i = 0 then unat pn else unat pn mod 2))]"
  using assms
proof (induction i arbitrary: nd fa bl idx pn)
  case 0
  then show ?case
    by (intro exI [of _ fa] exI [of _ "node_mem_map nd"] exI [of _ pn] exI [of _ idx] exI [of _ bl]) simp
next
  case (Suc i)
  show ?case
  proof (cases "pn = 0")
    case True
    with Suc.prems show ?thesis
      by (intro exI [of _ fa] exI [of _ "node_mem_map nd"] exI [of _ pn] exI [of _ idx] exI [of _ bl]) simp
  next
    case False
    obtain fa1 ps1 pn1 idx1 bl1 where step: "free_area_orders raw (Suc i) (fa, nd, pn, idx) =
        free_area_orders raw i (fa1, nd\<lparr>node_mem_map := ps1\<rparr>, pn1, idx1)"
      and 1: "lists_rep ps1 fa1 bl1" "node_ok ps1" "free_mset bl1 = mset [0..<unat idx1]" "aligned bl1"
      "2 ^ Suc i dvd unat idx1" "\<forall>j\<le>i. bl1 j = []"
      "unat idx1 + unat pn1 = unat idx + unat pn" "unat pn1 = unat pn mod 2 ^ Suc i"
      using free_area_round [OF Suc.prems(1,2) refl Suc.prems(3-8) False] .
    have dvd: "2 ^ i dvd unat idx1" using 1(5) by (auto dest: dvd_mult_left)
    have "unat pn1 mod 2 = unat pn mod 2" by (simp add: 1(8) mod_mod_cancel)
    moreover have "unat pn1 = unat pn mod 2" if "i = 0" using 1(8) that by simp
    ultimately have "unat idx1 + (unat pn1 - (if i = 0 then unat pn1 else unat pn1 mod 2)) =
        unat idx + (unat pn - unat pn mod 2)"
      using 1(7) mod_less_eq_dividend [of "unat pn" 2] mod_less_eq_dividend [of "unat pn1" 2] by (cases "i = 0") auto
    then show ?thesis
      using Suc.IH [of "nd\<lparr>node_mem_map := ps1\<rparr>" fa1 bl1 idx1 pn1, OF _ _ _ 1(3,4) dvd 1(6)]
        step 1(1,2,7) Suc.prems(3,8) by simp
  qed
qed

lemma free_area_init_zone_ok:
  assumes "node_ok (node_mem_map nd)" and "pn \<le> node_page_num nd"
  shows "\<exists>fa ps bl. free_area_init_zone raw pn z nd = Inr (z\<lparr>free_area := fa\<rparr>, nd\<lparr>node_mem_map := ps\<rparr>) \<and>
    lists_rep ps fa bl \<and> node_ok ps \<and> blocks_ok (unat (node_page_num nd)) bl {#} \<and>
    free_mset bl = mset [0..<unat pn - unat pn mod 2]"
proof -
  let ?fa = "replicate (MAXORDER + 1) \<lparr>block_list = FlexiList_new, nr_free = 0\<rparr>"
  have "lists_rep (node_mem_map nd) ?fa (\<lambda>k. [])"
    by (simp add: lists_rep_def nth_Cons' fl_rep_new del: replicate_Suc)
  moreover have "free_mset (\<lambda>k. []) = mset [0..<unat (0 :: u64)]"
    by (simp add: free_mset_def)
  ultimately obtain fa ps pn' idx' bl where *: "free_area_orders raw MAXORDER (?fa, nd, pn, 0) =
      Inr (fa, nd\<lparr>node_mem_map := ps\<rparr>, pn', idx')"
    "lists_rep ps fa bl" "node_ok ps" "aligned bl"
    "free_mset bl = mset [0..<unat pn - unat pn mod 2]"
    using free_area_orders_ok [of nd ?fa "\<lambda>k. []" MAXORDER 0 pn raw] assms
    by (auto simp: word_le_nat_alt aligned_def MAXORDER_def)
  moreover have "blocks_ok (unat (node_page_num nd)) bl {#}"
    using blocks_ok_interval [of bl "{#}" "unat pn - unat pn mod 2"] * assms(2)
    by (simp add: word_le_nat_alt)
  ultimately show ?thesis
    by (intro exI [of _ fa] exI [of _ ps] exI [of _ bl]) (simp add: free_area_init_zone_def)
qed

section \<open>A new memory node\<close>

definition zone_cfg_ok :: "GlobSimInfo \<Rightarrow> bool" where
  "zone_cfg_ok zinfo \<longleftrightarrow>
     10 \<le> page_shift zinfo \<and> page_size zinfo \<noteq> 0 \<and> 0 \<le> percpu_pagelist_fraction zinfo \<and>
     percpu_pagelist_fraction zinfo < 2 ^ 31"

text \<open>
  All memory in the normal zone, which is what the configuration code sets up by default, and
  fewer than \<open>2^32\<close> pages of it: the size of a free list is a 32-bit word.
\<close>

definition single_zone :: "GlobSimInfo \<Rightarrow> u64 \<Rightarrow> bool" where
  "single_zone zinfo n \<longleftrightarrow> unat n < 2 ^ 32 \<and>
     max_zone_pfns zinfo Zone_Normal = n \<and> max_zone_pfns zinfo Zone_DMA = 0 \<and>
     max_zone_pfns zinfo Zone_DMA32 = 0 \<and> max_zone_pfns zinfo Zone_HighMem = 0"

lemma zone_pageset_init_total:
  assumes "zone_cfg_ok zinfo"
  shows "\<exists>ps'. zone_pageset_init zinfo z ps = Inr ps'"
proof (cases "percpu_pagelist_fraction zinfo = 0")
  case True
  then show ?thesis
    using assms by (simp add: zone_pageset_init_def zone_batchsize_def zone_cfg_ok_def divE_def Let_def)
next
  case False
  have "(of_int (percpu_pagelist_fraction zinfo) :: u64) \<noteq> 0"
  proof
    assume "(of_int (percpu_pagelist_fraction zinfo) :: u64) = 0"
    then have "2 ^ 64 dvd percpu_pagelist_fraction zinfo"
      by (simp add: word_of_int_eq_0_iff)
    then show False
      using assms False zdvd_imp_le [of "2 ^ 64" "percpu_pagelist_fraction zinfo"]
      by (auto simp: zone_cfg_ok_def)
  qed
  then show ?thesis using False by (simp add: zone_pageset_init_def divE_def Let_def)
qed

lemma setup_zone_pageset_ok:
  assumes "zone_cfg_ok zinfo"
  shows "\<exists>ps. setup_zone_pageset raw zinfo z = Inr (z\<lparr>page_set := ps\<rparr>) \<and>
    length ps = length (page_set z) + numCores zinfo"
proof -
  have "\<exists>ps. foldE (\<lambda>i z. bindE (zone_pageset_init zinfo z (raw_pcp raw i)) (\<lambda>ps.
              Inr (z\<lparr>page_set := page_set z @ [ps]\<rparr>))) is z = Inr (z\<lparr>page_set := ps\<rparr>) \<and>
      length ps = length (page_set z) + length is" for "is"
  proof (induction "is" arbitrary: z)
    case Nil
    then show ?case by (intro exI [of _ "page_set z"]) simp
  next
    case (Cons i "is")
    obtain ps where "zone_pageset_init zinfo z (raw_pcp raw i) = Inr ps"
      using zone_pageset_init_total [OF assms] by blast
    then show ?case using Cons.IH [of "z\<lparr>page_set := page_set z @ [ps]\<rparr>"] by auto
  qed
  then show ?thesis unfolding setup_zone_pageset_def by (metis length_upt diff_zero)
qed

lemma init_zone_ok:
  assumes cfg: "zone_cfg_ok zinfo" and nok: "node_ok (node_mem_map nd)"
    and lohi: "zone_lowest_possible nd t < zone_highest_possible nd t"
    and hi: "zone_highest_possible nd t \<le> node_page_num nd"
  shows "\<exists>ps z bl. init_zone raw zinfo t nd =
      Inr (nd\<lparr>node_mem_map := ps, node_zones := (node_zones nd)(t \<mapsto> z), nr_zones := nr_zones nd + 1\<rparr>) \<and>
    free_pages z = zone_highest_possible nd t - zone_lowest_possible nd t \<and>
    length (page_set z) = numCores zinfo \<and>
    lists_rep ps (free_area z) bl \<and> node_ok ps \<and> blocks_ok (unat (node_page_num nd)) bl {#} \<and>
    free_mset bl = mset [0..<unat (zone_highest_possible nd t) - unat (zone_highest_possible nd t) mod 2]"
proof -
  let ?z = "(raw_zone raw)\<lparr>zone_type := t, zone_start_pfn := zone_lowest_possible nd t,
      free_pages := zone_highest_possible nd t - zone_lowest_possible nd t, page_set := []\<rparr>"
  obtain pset where set: "setup_zone_pageset raw zinfo ?z = Inr (?z\<lparr>page_set := pset\<rparr>)"
    "length pset = numCores zinfo"
    using setup_zone_pageset_ok [OF cfg, of raw ?z] by auto
  define z1 where "z1 = ?z\<lparr>page_set := pset\<rparr>"
  obtain fa ps bl where init: "free_area_init_zone raw (zone_highest_possible nd t) z1 nd =
      Inr (z1\<lparr>free_area := fa\<rparr>, nd\<lparr>node_mem_map := ps\<rparr>)"
    and rest: "lists_rep ps fa bl" "node_ok ps" "blocks_ok (unat (node_page_num nd)) bl {#}"
    "free_mset bl = mset [0..<unat (zone_highest_possible nd t) - unat (zone_highest_possible nd t) mod 2]"
    using free_area_init_zone_ok [OF nok hi] by blast
  have "zone_highest_possible nd t \<noteq> zone_lowest_possible nd t" using lohi by auto
  then have "init_zone raw zinfo t nd = Inr (nd\<lparr>node_mem_map := ps,
      node_zones := (node_zones nd)(t \<mapsto> z1\<lparr>free_area := fa\<rparr>), nr_zones := nr_zones nd + 1\<rparr>)"
    using set init lohi by (simp add: init_zone_def Zone_new_def memmap_init_zone_def z1_def)
  then show ?thesis
    using rest set(2) by (intro exI [of _ ps] exI [of _ "z1\<lparr>free_area := fa\<rparr>"] exI [of _ bl]) (simp add: z1_def)
qed

lemma setup_per_zone_wmarks_ok:
  assumes "node_zones nd Zone_Normal = Some z" and "10 \<le> page_shift zinfo"
  shows "\<exists>nd' z'. setup_per_zone_wmarks zinfo nd = Inr nd' \<and> node_mem_map nd' = node_mem_map nd \<and>
    node_page_num nd' = node_page_num nd \<and> node_zones nd' Zone_Normal = Some z' \<and>
    free_pages z' = free_pages z \<and> free_area z' = free_area z \<and> page_set z' = page_set z \<and>
    (\<forall>t. node_zones nd t = None \<longrightarrow> node_zones nd' t = None)"
  using assms by (simp add: setup_per_zone_wmarks_def upd_zone_def set_pages_thres_def Let_def)

lemma MemoryNode_new_ok:
  assumes cfg: "zone_cfg_ok zinfo" and sz: "single_zone zinfo n" "n \<noteq> 0"
  shows "\<exists>nd z bl. MemoryNode_new raw zinfo nid 0 = Inr nd \<and> node_page_num nd = n \<and>
    node_zones nd Zone_Normal = Some z \<and> node_zones nd Zone_DMA = None \<and>
    node_zones nd Zone_DMA32 = None \<and> node_zones nd Zone_HighMem = None \<and> free_pages z = n \<and>
    length (page_set z) = numCores zinfo \<and>
    lists_rep (node_mem_map nd) (free_area z) bl \<and> node_ok (node_mem_map nd) \<and> blocks_ok (unat n) bl {#} \<and>
    free_mset bl = mset [0..<unat n - unat n mod 2]"
proof -
  define nd0 where "nd0 = zone_bounds zinfo ((raw_node raw)\<lparr>node_mem_map := Map.empty, node_id := nid,
      node_start_pfn := drop_bit (page_shift zinfo) 0, lowmem_kbytes := 0, min_free_kbytes := 0\<rparr>)"
  have n_pos: "0 < n" using sz(2) by (simp add: word_gt_0)
  have lo: "zone_lowest_possible nd0 Zone_DMA = 0" "zone_highest_possible nd0 Zone_DMA = 0"
    "zone_lowest_possible nd0 Zone_DMA32 = 0" "zone_highest_possible nd0 Zone_DMA32 = 0"
    "zone_lowest_possible nd0 Zone_Normal = 0" "zone_highest_possible nd0 Zone_Normal = n"
    "zone_lowest_possible nd0 Zone_HighMem = n" "zone_highest_possible nd0 Zone_HighMem = n"
    "node_mem_map nd0 = Map.empty"
    using sz by (simp_all add: nd0_def zone_bounds_def single_zone_def Max_c_def Let_def)
  have total: "calculate_total_pages nd0 = Inr n"
    by (simp add: calculate_total_pages_def zone_index_def lo)
  define nd1 where "nd1 = nd0\<lparr>node_page_num := n, present_pages := n,
      node_zones := (node_zones nd0)(Zone_DMA := None, Zone_DMA32 := None)\<rparr>"
  obtain ps z bl where init: "init_zone raw zinfo Zone_Normal nd1 =
      Inr (nd1\<lparr>node_mem_map := ps, node_zones := (node_zones nd1)(Zone_Normal \<mapsto> z), nr_zones := nr_zones nd1 + 1\<rparr>)"
    and z: "free_pages z = n" "length (page_set z) = numCores zinfo"
    and rest: "lists_rep ps (free_area z) bl" "node_ok ps" "blocks_ok (unat n) bl {#}"
    "free_mset bl = mset [0..<unat n - unat n mod 2]"
    using init_zone_ok [OF cfg, of nd1 Zone_Normal raw] n_pos lo by (auto simp: nd1_def node_ok_def)
  define nd2 where "nd2 = nd1\<lparr>node_mem_map := ps,
      node_zones := (node_zones nd1)(Zone_Normal \<mapsto> z, Zone_HighMem := None), nr_zones := nr_zones nd1 + 1\<rparr>"
  have zones: "init_zones raw zinfo (nd0\<lparr>node_page_num := n, present_pages := n\<rparr>) = Inr nd2"
  proof -
    have "init_zone raw zinfo Zone_DMA (nd0\<lparr>node_page_num := n, present_pages := n\<rparr>) =
        Inr (nd0\<lparr>node_page_num := n, present_pages := n, node_zones := (node_zones nd0)(Zone_DMA := None)\<rparr>)"
      by (simp add: init_zone_def lo)
    moreover have "init_zone raw zinfo Zone_DMA32 (nd0\<lparr>node_page_num := n, present_pages := n,
        node_zones := (node_zones nd0)(Zone_DMA := None)\<rparr>) = Inr nd1"
      by (simp add: init_zone_def lo nd1_def)
    ultimately show ?thesis
      using init by (simp add: init_zones_def zone_index_def) (simp add: init_zone_def lo nd1_def nd2_def)
  qed
  have nd2: "node_zones nd2 Zone_Normal = Some z" "node_zones nd2 Zone_DMA = None"
    "node_zones nd2 Zone_DMA32 = None" "node_zones nd2 Zone_HighMem = None" "node_mem_map nd2 = ps"
    "node_page_num nd2 = n"
    by (simp_all add: nd2_def nd1_def)
  have ps: "10 \<le> page_shift zinfo" using cfg by (simp add: zone_cfg_ok_def)
  have "MemoryNode_new raw zinfo nid 0 = setup_per_zone_wmarks zinfo nd2"
    unfolding MemoryNode_new_def unfolding nd0_def [symmetric] by (simp add: total zones Let_def)
  then show ?thesis
    using setup_per_zone_wmarks_ok [OF nd2(1) ps] nd2 z rest by (auto 0 4)
qed

section \<open>Example states\<close>

definition example_pcp :: PerCpuPages where
  "example_pcp = \<lparr>pcp_count = 0, pcp_low = 0, pcp_high = 0, pcp_batch = 0, page_list = []\<rparr>"

definition example_zone :: Zone where
  "example_zone =
     \<lparr>free_pages = 0, pages_min = 0, pages_low = 0, pages_high = 0, zone_type = Zone_Normal,
      zone_start_pfn = 0, free_area = [], page_set = []\<rparr>"

definition example_raw :: raw_memory where
  "example_raw =
     \<lparr>raw_page = (\<lambda>_. example_page),
      raw_pcp = (\<lambda>_. \<lparr>pcp_hot = example_pcp, pcp_cold = example_pcp\<rparr>),
      raw_zone = example_zone,
      raw_node = \<lparr>node_mem_map = Map.empty, zone_lowest_possible = (\<lambda>_. 0),
        zone_highest_possible = (\<lambda>_. 0), nr_zones = 0, present_pages = 0, node_id = 0,
        node_start_pfn = 0, node_page_num = 0, lowmem_kbytes = 0, min_free_kbytes = 0,
        node_zones = (\<lambda>_. None)\<rparr>\<rparr>"

definition example_mem_cfg :: GlobSimInfo where
  "example_mem_cfg = example_zinfo\<lparr>max_zone_pfns := (\<lambda>t. if t = Zone_Normal then 64 else 0)\<rparr>"

text \<open>A node of 32 pages whose normal zone starts at page 16.\<close>

definition example_upper_zone :: MemoryNode where
  "example_upper_zone = (raw_node example_raw)\<lparr>node_page_num := 32,
     zone_lowest_possible := (\<lambda>_. 16), zone_highest_possible := (\<lambda>_. 32)\<rparr>"

section \<open>Properties\<close>

text \<open>
  C24. In a zone with fewer than 8192 pages of 4KB the batch size of the per-CPU caches is
  \<open>log2(1) - 1\<close>, which wraps: the hot cache of every CPU is set up to be refilled with
  4294967295 pages at a time, that is, with all memory there is.
\<close>

theorem zone_batchsize_wraps:
  assumes "free_pages z < 8192" and "page_size zinfo = 0x1000" and "percpu_pagelist_fraction zinfo = 0"
  shows "zone_batchsize zinfo z = Inr 0xffffffff \<and>
    (\<exists>ps'. zone_pageset_init zinfo z ps = Inr ps' \<and> pcp_batch (pcp_hot ps') = 0xffffffff)"
proof -
  define b where "b = drop_bit 10 (free_pages z)"
  have "unat b = unat (free_pages z) div 2 ^ 10" by (simp add: b_def unat_drop_bit)
  moreover have "unat (free_pages z) < 8192" using assms(1) by (simp add: word_less_nat_alt)
  ultimately have "unat b < 8" by auto
  moreover have "b = of_nat (unat b)" by simp
  ultimately have "b \<in> of_nat ` {0..<8}" by (intro image_eqI) auto
  moreover have "{0..<8 :: nat} = {0, 1, 2, 3, 4, 5, 6, 7}" by auto
  ultimately have "b = 0 \<or> b = 1 \<or> b = 2 \<or> b = 3 \<or> b = 4 \<or> b = 5 \<or> b = 6 \<or> b = 7"
    by simp
  then have "zone_batchsize zinfo z = Inr 0xffffffff"
    unfolding zone_batchsize_def b_def [symmetric] assms(2)
    by (elim disjE; simp add: signed_divide_int_def; simp add: log2_u16_def log2_line_def)
  then show ?thesis
    using assms(3) by (simp add: zone_pageset_init_def Let_def Max_c_def word_le_nat_alt)
qed

theorem zone_batchsize_wraps_witness:
  "free_pages (example_zone\<lparr>free_pages := 4096\<rparr>) < 8192 \<and> page_size example_zinfo = 0x1000 \<and>
   percpu_pagelist_fraction example_zinfo = 0 \<and>
   zone_batchsize example_zinfo (example_zone\<lparr>free_pages := 4096\<rparr>) = Inr 0xffffffff"
  using zone_batchsize_wraps [of "example_zone\<lparr>free_pages := 4096\<rparr>" example_zinfo]
  by (simp add: example_zone_def example_zinfo_def)

text \<open>
  C25. Up to \<open>2^50\<close> pages the watermarks of a zone are exact in spite of the double
  precision arithmetic: the low mark is \<open>5/4\<close> and the high mark \<open>3/2\<close> of the minimum,
  rounded down, so that minimum, low and high mark are ordered.
\<close>

theorem set_pages_thres_exact:
  assumes "mn < 2 ^ 50"
  shows "unat (pages_low (set_pages_thres mn z)) = unat mn * 5 div 4 \<and>
    unat (pages_high (set_pages_thres mn z)) = unat mn * 3 div 2 \<and>
    pages_min (set_pages_thres mn z) \<le> pages_low (set_pages_thres mn z) \<and>
    pages_low (set_pages_thres mn z) \<le> pages_high (set_pages_thres mn z)"
proof -
  define m where "m = unat mn"
  have m: "m < 2 ^ 50" using assms by (simp add: m_def word_less_nat_alt)
  have u: "uint mn = int m" by (simp add: m_def)
  have base: "dbl_of_u64 mn = of_int (int m)"
    unfolding dbl_of_u64_def u by (rule dbl_exact [of _ "int m" 0]) (use m in auto)
  have low: "dmul (5 / 4) (dbl_of_u64 mn) = of_int (int m * 5) / of_int 4"
    unfolding dmul_def base
    by (subst dbl_exact [of _ "int m * 5" "-2"]) (use m in \<open>auto simp: power_int_def power2_eq_square\<close>)
  have high: "dmul (3 / 2) (dbl_of_u64 mn) = of_int (int m * 3) / of_int 2"
    unfolding dmul_def base
    by (subst dbl_exact [of _ "int m * 3" "-1"]) (use m in \<open>auto simp: power_int_def power2_eq_square\<close>)
  have fl: "\<lfloor>of_int (int m * 5) / of_int 4 :: rat\<rfloor> = int (m * 5 div 4)"
    "\<lfloor>of_int (int m * 3) / of_int 2 :: rat\<rfloor> = int (m * 3 div 2)"
    unfolding floor_divide_of_int_eq by (simp_all add: zdiv_int)
  have low': "unat (pages_low (set_pages_thres mn z)) = m * 5 div 4"
    unfolding set_pages_thres_def low u64_of_dbl_def fl
    using m by (simp add: unat_of_nat_u64)
  moreover have high': "unat (pages_high (set_pages_thres mn z)) = m * 3 div 2"
    unfolding set_pages_thres_def high u64_of_dbl_def fl
    using m by (simp add: unat_of_nat_u64)
  moreover have "pages_min (set_pages_thres mn z) = mn" by (simp add: set_pages_thres_def)
  ultimately show ?thesis
    by (auto simp: word_le_nat_alt m_def)
qed

theorem set_pages_thres_exact_witness:
  "(100 :: u64) < 2 ^ 50 \<and> unat (pages_low (set_pages_thres 100 example_zone)) = 125 \<and>
   unat (pages_high (set_pages_thres 100 example_zone)) = 150"
  using set_pages_thres_exact [of 100 example_zone] by (simp add: word_less_nat_alt)

text \<open>
  C23. The free lists of a zone ignore where the zone starts: \<open>init_zones\<close> hands the first page and
  the end of the zone to \<open>memmap_init_zone\<close>, which takes the end for the number of pages and starts
  at page 0. So for every zone from page \<open>lo\<close> to page \<open>hi\<close> of a node the lists hold the pages
  \<open>0, ..., hi - hi mod 2 - 1\<close>, all pages below \<open>lo\<close> that belong to the zones before among them, while
  the zone counts \<open>hi - lo\<close> free pages.
\<close>

theorem zone_lists_ignore_zone_start:
  assumes "zone_cfg_ok zinfo" and "node_ok (node_mem_map nd)"
    and "zone_lowest_possible nd t = lo" and "zone_highest_possible nd t = hi"
    and "lo < hi" and "hi \<le> node_page_num nd"
  shows "\<exists>nd' z bl. init_zone raw zinfo t nd = Inr nd' \<and> node_zones nd' t = Some z \<and>
    lists_rep (node_mem_map nd') (free_area z) bl \<and> free_mset bl = mset [0..<unat hi - unat hi mod 2] \<and>
    (\<forall>v<unat lo. v \<in># free_mset bl) \<and> free_pages z = hi - lo"
proof -
  obtain ps z bl where z: "init_zone raw zinfo t nd =
      Inr (nd\<lparr>node_mem_map := ps, node_zones := (node_zones nd)(t \<mapsto> z), nr_zones := nr_zones nd + 1\<rparr>)"
    "free_pages z = hi - lo" "lists_rep ps (free_area z) bl" "free_mset bl = mset [0..<unat hi - unat hi mod 2]"
    using init_zone_ok [OF assms(1,2), of t raw] assms(3-6) by auto
  have "v \<in># free_mset bl" if "v < unat lo" for v
  proof -
    have "unat lo < unat hi" using assms(5) by (simp add: word_less_nat_alt)
    then have "v < unat hi - unat hi mod 2" using that by linarith
    then show ?thesis by (simp add: z(4))
  qed
  then show ?thesis using z by auto
qed

theorem zone_lists_ignore_zone_start_witness:
  "\<exists>nd z bl. init_zone example_raw example_mem_cfg Zone_Normal example_upper_zone = Inr nd \<and>
     node_zones nd Zone_Normal = Some z \<and> lists_rep (node_mem_map nd) (free_area z) bl \<and>
     free_mset bl = mset [0..<32] \<and> (\<forall>v<16. v \<in># free_mset bl) \<and> free_pages z = 16"
  using zone_lists_ignore_zone_start [of example_mem_cfg example_upper_zone Zone_Normal 16 32 example_raw]
  by (simp add: zone_cfg_ok_def example_mem_cfg_def example_zinfo_def example_upper_zone_def node_ok_def
      example_raw_def del: mset_upt)

end
