(* ===== verification/DRAM_Buffer.thy ===== *)
theory DRAM_Buffer
  imports Mem_Objects Doubles "HOL-Library.Multiset"
begin

text \<open>
  The manager of the DRAM cache, \<open>DRAM-buffer/FairAllocator.h\<close> and \<open>FairAllocator.cpp\<close>
  (the factory \<open>AllocatorFac.h\<close> creates nothing else). Every block is either free, in one
  of the two global lists, or owned by one process as a clean or a dirty block.

  The element an unordered set yields as its \<open>begin()\<close> is not specified; it is the
  parameter \<open>first\<close>, of which the theorems only assume that it picks an element of a
  non-empty set. A block pointer is the block number; \<open>buffer_array\<close> has an entry for
  every number below \<open>total_page_count\<close>.
\<close>

section \<open>State\<close>

record FairAllocator =
  process_count :: nat
  memory_capacity :: address
  total_page_count :: u64
  busy_pages :: u64
  fa_min_free_pages :: u64
  proc_busy_pages :: "u32 list"
  clean_pools :: "address set list"
  dirty_pools :: "address set list"
  global_clean_pool :: "address list"
  global_dirty_pool :: "address list"

definition FairAllocator_new :: "GlobSimInfo \<Rightarrow> nat \<Rightarrow> address \<Rightarrow> FairAllocator res" where
  "FairAllocator_new zinfo process_num mem_size =
     (let total = drop_bit (page_shift zinfo) mem_size;
          min_free = Min_c (Max_c (u64_of_dbl (dmul 4 (dsqrt (dbl_of_u64 mem_size)))) (push_bit 17 2))
                       (push_bit 26 2)
      in bindE (divE min_free (page_size zinfo)) (\<lambda>min_free.
         Inr \<lparr>process_count = process_num, memory_capacity = mem_size, total_page_count = total,
              busy_pages = 0, fa_min_free_pages = min_free,
              proc_busy_pages = replicate process_num 0,
              clean_pools = replicate process_num {}, dirty_pools = replicate process_num {},
              global_clean_pool = map of_nat [0..<unat total], global_dirty_pool = []\<rparr>))"

text \<open>The descriptors that the constructor creates.\<close>

definition new_blocks :: "(address \<Rightarrow> DRAMBufferBlock) \<Rightarrow> FairAllocator \<Rightarrow> address \<Rightarrow> DRAMBufferBlock option" where
  "new_blocks raw fa i =
     (if i < total_page_count fa then Some (DRAMBufferBlock_new (raw i) i) else None)"

definition buffer_array_at :: "address \<Rightarrow> FairAllocator \<Rightarrow> address res" where
  "buffer_array_at i fa = (if i < total_page_count fa then Inr i else Inl Out_of_range)"

section \<open>Thresholds\<close>

definition should_reclaim :: "FairAllocator \<Rightarrow> bool" where
  "should_reclaim fa \<longleftrightarrow> total_page_count fa - busy_pages fa = 1"

definition should_cherish :: "FairAllocator \<Rightarrow> bool" where
  "should_cherish fa \<longleftrightarrow>
     dbl_of_u64 (total_page_count fa - busy_pages fa) \<le> dmul (dbl (3 / 10)) (dbl_of_u64 (total_page_count fa))"

definition should_more_cherish :: "FairAllocator \<Rightarrow> bool" where
  "should_more_cherish fa \<longleftrightarrow>
     (let free_pages = total_page_count fa - busy_pages fa
      in dbl_of_u64 free_pages \<le> dmul (dbl (1 / 20)) (dbl_of_u64 (total_page_count fa)) \<or>
         free_pages \<le> fa_min_free_pages fa)"

definition get_memory_usage :: "FairAllocator \<Rightarrow> rat" where
  "get_memory_usage fa = ddiv (dbl_of_u64 (busy_pages fa)) (dbl_of_u64 (total_page_count fa))"

section \<open>Releasing blocks\<close>

text \<open>The two loops of \<open>Release\<close>. Dereferencing \<open>begin()\<close> of an empty set is an error.\<close>

primrec release_clean ::
  "(address set \<Rightarrow> address) \<Rightarrow> nat \<Rightarrow> nat \<Rightarrow> FairAllocator \<Rightarrow> FairAllocator res" where
  "release_clean first process_id 0 fa = Inr fa"
| "release_clean first process_id (Suc n) fa =
     bindE (nthE (clean_pools fa) process_id) (\<lambda>pool.
       if pool = {} then Inl Null_deref
       else let bid = first pool
            in release_clean first process_id n
                 (fa\<lparr>clean_pools := (clean_pools fa)[process_id := pool - {bid}],
                     global_clean_pool := global_clean_pool fa @ [bid],
                     busy_pages := busy_pages fa - 1\<rparr>))"

primrec release_dirty ::
  "(address set \<Rightarrow> address) \<Rightarrow> nat \<Rightarrow> nat \<Rightarrow> FairAllocator \<Rightarrow> FairAllocator res" where
  "release_dirty first process_id 0 fa = Inr fa"
| "release_dirty first process_id (Suc n) fa =
     bindE (nthE (dirty_pools fa) process_id) (\<lambda>pool.
       if pool = {} then Inl Null_deref
       else let bid = first pool
            in release_dirty first process_id n
                 (fa\<lparr>dirty_pools := (dirty_pools fa)[process_id := pool - {bid}],
                     global_dirty_pool := global_dirty_pool fa @ [bid],
                     busy_pages := busy_pages fa - 1\<rparr>))"

definition Release ::
  "(address set \<Rightarrow> address) \<Rightarrow> nat \<Rightarrow> u32 \<Rightarrow> FairAllocator \<Rightarrow> (u32 \<times> FairAllocator) res" where
  "Release first process_id evict_size fa =
     bindE (nthE (clean_pools fa) process_id) (\<lambda>clean.
     bindE (nthE (dirty_pools fa) process_id) (\<lambda>dirty.
       let clean_pool_size = of_nat (card clean) :: u32;
           clean_evict_size = (if evict_size > clean_pool_size then clean_pool_size else evict_size)
       in bindE (assertE (ucast clean_pool_size + of_nat (card dirty) \<ge> (ucast evict_size :: u64))) (\<lambda>_.
          bindE (release_clean first process_id (unat clean_evict_size) fa) (\<lambda>fa.
          bindE (if clean_evict_size < evict_size
                 then release_dirty first process_id (unat (evict_size - clean_evict_size)) fa
                 else Inr fa) (\<lambda>fa.
          bindE (nthE (proc_busy_pages fa) process_id) (\<lambda>n.
            let fa = fa\<lparr>proc_busy_pages := (proc_busy_pages fa)[process_id := n - evict_size]\<rparr>
            in bindE (assertE (\<not> should_reclaim fa)) (\<lambda>_. Inr (evict_size, fa))))))))"

section \<open>Allocation\<close>

text \<open>The search loop of \<open>get_page_ptr\<close> over the processes.\<close>

primrec find_owner :: "address \<Rightarrow> nat list \<Rightarrow> FairAllocator \<Rightarrow> bool res" where
  "find_owner entry_id [] fa = Inr False"
| "find_owner entry_id (i # is) fa =
     bindE (nthE (clean_pools fa) i) (\<lambda>clean.
       if entry_id \<in> clean then Inr True
       else bindE (nthE (dirty_pools fa) i) (\<lambda>dirty.
         if entry_id \<in> dirty then Inr True else find_owner entry_id is fa))"

definition fa_get_page_ptr :: "GlobSimInfo \<Rightarrow> address \<Rightarrow> FairAllocator \<Rightarrow> address option res" where
  "fa_get_page_ptr zinfo entry_id fa =
     bindE (find_owner entry_id [0..<numProcs zinfo] fa) (\<lambda>check.
       if check then bindE (buffer_array_at entry_id fa) (\<lambda>b. Inr (Some b)) else Inr None)"

text \<open>The block that \<open>allocate_one_page\<close> takes: a clean one when there is one.\<close>

definition take_free :: "FairAllocator \<Rightarrow> address \<times> FairAllocator" where
  "take_free fa =
     (case global_clean_pool fa of
        b # bs \<Rightarrow> (b, fa\<lparr>global_clean_pool := bs\<rparr>)
      | [] \<Rightarrow> (case global_dirty_pool fa of
          b # bs \<Rightarrow> (b, fa\<lparr>global_dirty_pool := bs\<rparr>)
        | [] \<Rightarrow> (INVALID_PAGE_ADDR, fa)))"

definition allocate_one_page :: "nat \<Rightarrow> FairAllocator \<Rightarrow> (address option \<times> FairAllocator) res" where
  "allocate_one_page process_id fa =
     bindE (assertE (global_clean_pool fa \<noteq> [] \<or> global_dirty_pool fa \<noteq> [])) (\<lambda>_.
       let (alloc_block_id, fa) = take_free fa
       in if alloc_block_id \<noteq> INVALID_PAGE_ADDR then
            bindE (nthE (clean_pools fa) process_id) (\<lambda>pool.
            bindE (nthE (proc_busy_pages fa) process_id) (\<lambda>n.
            bindE (buffer_array_at alloc_block_id fa) (\<lambda>b.
            Inr (Some b, fa\<lparr>clean_pools := (clean_pools fa)[process_id := insert alloc_block_id pool],
                            busy_pages := busy_pages fa + 1,
                            proc_busy_pages := (proc_busy_pages fa)[process_id := n + 1]\<rparr>))))
          else Inr (None, fa))"

definition fa_convert_to_dirty :: "nat \<Rightarrow> address \<Rightarrow> FairAllocator \<Rightarrow> FairAllocator res" where
  "fa_convert_to_dirty process_id bid fa =
     bindE (nthE (clean_pools fa) process_id) (\<lambda>clean.
       if bid \<notin> clean then Inr fa
       else bindE (nthE (dirty_pools fa) process_id) (\<lambda>dirty.
         Inr (fa\<lparr>clean_pools := (clean_pools fa)[process_id := clean - {bid}],
                 dirty_pools := (dirty_pools fa)[process_id := insert bid dirty]\<rparr>)))"

section \<open>Eviction\<close>

text \<open>
  \<open>reclaim_pages\<close> is an \<open>int\<close>; the share of a process is computed in double precision,
  truncated and handed to \<open>Release\<close> as \<open>unsigned\<close>.
\<close>

definition release_size :: "int \<Rightarrow> nat \<Rightarrow> FairAllocator \<Rightarrow> u32" where
  "release_size reclaim_pages busy fa =
     (let rate = ddiv (dbl_of_u64 (of_nat busy)) (dbl_of_u64 (total_page_count fa))
      in of_int (i32_of_dbl (dmul rate (of_int reclaim_pages)) + 1))"

definition evict_process ::
  "(address set \<Rightarrow> address) \<Rightarrow> int \<Rightarrow> nat \<Rightarrow> FairAllocator \<Rightarrow> FairAllocator res" where
  "evict_process first reclaim_pages i fa =
     bindE (nthE (clean_pools fa) i) (\<lambda>clean.
     bindE (nthE (dirty_pools fa) i) (\<lambda>dirty.
       let proc_busy_size = card clean + card dirty
       in if proc_busy_size > 0 then
            bindE (Release first i (release_size reclaim_pages proc_busy_size fa) fa) (\<lambda>(_, fa). Inr fa)
          else Inr fa))"

definition equal_evict :: "(address set \<Rightarrow> address) \<Rightarrow> FairAllocator \<Rightarrow> FairAllocator res" where
  "equal_evict first fa =
     (let reclaim_pages =
        sint (ucast (fa_min_free_pages fa - (total_page_count fa - busy_pages fa)) :: u32)
      in foldE (evict_process first reclaim_pages) [0..<process_count fa] fa)"

definition fa_evict :: "(address set \<Rightarrow> address) \<Rightarrow> FairAllocator \<Rightarrow> FairAllocator res" where
  "fa_evict first fa = bindE (assertE (should_reclaim fa)) (\<lambda>_. equal_evict first fa)"

text \<open>\<open>PageTableWalker::allocate_page\<close>, the only client of allocation and eviction.\<close>

definition allocate_page ::
  "(address set \<Rightarrow> address) \<Rightarrow> nat \<Rightarrow> FairAllocator \<Rightarrow> (address option \<times> FairAllocator) res" where
  "allocate_page first procIdx fa =
     bindE (if should_reclaim fa then fa_evict first fa else Inr fa) (allocate_one_page procIdx)"

section \<open>Invariant\<close>

definition pool_blocks :: "address set list \<Rightarrow> address multiset" where
  "pool_blocks ps = sum_list (map mset_set ps)"

definition pool_count :: "address set list \<Rightarrow> nat" where
  "pool_count ps = sum_list (map card ps)"

definition all_blocks :: "FairAllocator \<Rightarrow> address multiset" where
  "all_blocks fa = mset (global_clean_pool fa) + mset (global_dirty_pool fa) +
     pool_blocks (clean_pools fa) + pool_blocks (dirty_pools fa)"

definition fa_core :: "FairAllocator \<Rightarrow> bool" where
  "fa_core fa \<longleftrightarrow>
     length (clean_pools fa) = process_count fa \<and> length (dirty_pools fa) = process_count fa \<and>
     length (proc_busy_pages fa) = process_count fa \<and>
     (\<forall>p\<in>set (clean_pools fa) \<union> set (dirty_pools fa). finite p) \<and>
     unat (total_page_count fa) < 2 ^ 31 \<and>
     all_blocks fa = mset (map of_nat [0..<unat (total_page_count fa)]) \<and>
     unat (busy_pages fa) = pool_count (clean_pools fa) + pool_count (dirty_pools fa)"

definition fa_inv :: "FairAllocator \<Rightarrow> bool" where
  "fa_inv fa \<longleftrightarrow> fa_core fa \<and>
     (\<forall>i<process_count fa.
        proc_busy_pages fa ! i = of_nat (card (clean_pools fa ! i) + card (dirty_pools fa ! i)))"

definition free_blocks :: "FairAllocator \<Rightarrow> nat" where
  "free_blocks fa = length (global_clean_pool fa) + length (global_dirty_pool fa)"

lemma sum_list_map_update:
  fixes f :: "'a \<Rightarrow> 'b :: comm_monoid_add"
  shows "i < length xs \<Longrightarrow> sum_list (map f (xs[i := y])) + f (xs ! i) = sum_list (map f xs) + f y"
  by (induction xs arbitrary: i) (auto simp: less_Suc_eq_0_disj ac_simps)

lemma pool_blocks_update:
  "i < length ps \<Longrightarrow> pool_blocks (ps[i := P]) + mset_set (ps ! i) = pool_blocks ps + mset_set P"
  unfolding pool_blocks_def by (rule sum_list_map_update)

lemma pool_count_update:
  "i < length ps \<Longrightarrow> pool_count (ps[i := P]) + card (ps ! i) = pool_count ps + card P"
  unfolding pool_count_def by (rule sum_list_map_update)

lemma size_pool_blocks: "(\<forall>p\<in>set ps. finite p) \<Longrightarrow> size (pool_blocks ps) = pool_count ps"
  by (induction ps) (auto simp: pool_blocks_def pool_count_def)

lemma fa_core_free:
  assumes "fa_core fa"
  shows "unat (total_page_count fa) = free_blocks fa + unat (busy_pages fa)"
proof -
  have "size (all_blocks fa) = unat (total_page_count fa)" using assms by (simp add: fa_core_def)
  then show ?thesis
    using assms by (simp add: all_blocks_def fa_core_def size_pool_blocks free_blocks_def)
qed

lemma should_reclaim_iff:
  assumes "fa_core fa"
  shows "should_reclaim fa \<longleftrightarrow> free_blocks fa = 1"
proof -
  have "unat (total_page_count fa - busy_pages fa) = free_blocks fa"
    using fa_core_free [OF assms] by (subst unat_sub) (auto simp: word_le_nat_alt)
  moreover have "total_page_count fa - busy_pages fa = 1 \<longleftrightarrow> unat (total_page_count fa - busy_pages fa) = 1"
    by (metis unat_1 word_unat_eq_iff)
  ultimately show ?thesis by (simp add: should_reclaim_def)
qed

section \<open>Blocks returned\<close>

section \<open>The operations keep the partition\<close>

definition picks :: "(address set \<Rightarrow> address) \<Rightarrow> bool" where
  "picks first \<longleftrightarrow> (\<forall>S. S \<noteq> {} \<longrightarrow> first S \<in> S)"

lemma pool_take:
  assumes "i < length ps" and "finite (ps ! i)" and "b \<in> ps ! i"
  shows "pool_blocks ps = add_mset b (pool_blocks (ps[i := ps ! i - {b}]))"
    and "pool_count ps = Suc (pool_count (ps[i := ps ! i - {b}]))"
proof -
  have "pool_blocks (ps[i := ps ! i - {b}]) + mset_set (ps ! i) = pool_blocks ps + mset_set (ps ! i - {b})"
    using pool_blocks_update [OF assms(1)] .
  then show "pool_blocks ps = add_mset b (pool_blocks (ps[i := ps ! i - {b}]))"
    using mset_set.remove [OF assms(2,3)] by simp
  have "pool_count (ps[i := ps ! i - {b}]) + card (ps ! i) = pool_count ps + card (ps ! i - {b})"
    using pool_count_update [OF assms(1)] .
  then show "pool_count ps = Suc (pool_count (ps[i := ps ! i - {b}]))"
    using card.remove [OF assms(2,3)] by simp
qed

lemma pool_put:
  assumes "i < length ps" and "finite (ps ! i)" and "b \<notin> ps ! i"
  shows "pool_blocks (ps[i := insert b (ps ! i)]) = add_mset b (pool_blocks ps)"
    and "pool_count (ps[i := insert b (ps ! i)]) = Suc (pool_count ps)"
  using pool_take [of i "ps[i := insert b (ps ! i)]" b] assms by simp_all

lemma in_pool_blocks:
  assumes "i < length ps" and "finite (ps ! i)" and "b \<in> ps ! i"
  shows "b \<in># pool_blocks ps"
  using pool_take(1) [OF assms] by simp

lemma unat_pred: "0 < unat (w :: u64) \<Longrightarrow> unat (w - 1) = unat w - 1"
  by (subst unat_sub) (auto simp: word_le_nat_alt)

text \<open>One block goes back from a pool to a global list.\<close>

lemma fa_core_release_clean:
  assumes core: "fa_core fa" and i: "i < process_count fa" and b: "b \<in> clean_pools fa ! i"
  defines "fa' \<equiv> fa\<lparr>clean_pools := (clean_pools fa)[i := clean_pools fa ! i - {b}],
     global_clean_pool := global_clean_pool fa @ [b], busy_pages := busy_pages fa - 1\<rparr>"
  shows "fa_core fa'"
proof -
  have len: "i < length (clean_pools fa)" and fin: "finite (clean_pools fa ! i)"
    using core i by (auto simp: fa_core_def)
  note take = pool_take [OF len fin b]
  have "unat (busy_pages fa - 1) = unat (busy_pages fa) - 1"
    using core take(2) by (intro unat_pred) (simp add: fa_core_def)
  then show ?thesis
    using core take fin by (auto simp: fa_core_def fa'_def all_blocks_def dest!: set_update_subset_insert [THEN subsetD])
qed

lemma fa_core_release_dirty:
  assumes core: "fa_core fa" and i: "i < process_count fa" and b: "b \<in> dirty_pools fa ! i"
  defines "fa' \<equiv> fa\<lparr>dirty_pools := (dirty_pools fa)[i := dirty_pools fa ! i - {b}],
     global_dirty_pool := global_dirty_pool fa @ [b], busy_pages := busy_pages fa - 1\<rparr>"
  shows "fa_core fa'"
proof -
  have len: "i < length (dirty_pools fa)" and fin: "finite (dirty_pools fa ! i)"
    using core i by (auto simp: fa_core_def)
  note take = pool_take [OF len fin b]
  have "unat (busy_pages fa - 1) = unat (busy_pages fa) - 1"
    using core take(2) by (intro unat_pred) (simp add: fa_core_def)
  then show ?thesis
    using core take fin by (auto simp: fa_core_def fa'_def all_blocks_def dest!: set_update_subset_insert [THEN subsetD])
qed

lemma release_clean_ok:
  assumes "fa_core fa" and "i < process_count fa" and "n \<le> card (clean_pools fa ! i)" and "picks first"
  shows "\<exists>P G. release_clean first i n fa =
      Inr (fa\<lparr>clean_pools := (clean_pools fa)[i := P], global_clean_pool := G, busy_pages := busy_pages fa - of_nat n\<rparr>) \<and>
    fa_core (fa\<lparr>clean_pools := (clean_pools fa)[i := P], global_clean_pool := G, busy_pages := busy_pages fa - of_nat n\<rparr>) \<and>
    card P = card (clean_pools fa ! i) - n \<and> length G = length (global_clean_pool fa) + n"
  using assms
proof (induction n arbitrary: fa)
  case 0
  then show ?case
    by (intro exI [of _ "clean_pools fa ! i"] exI [of _ "global_clean_pool fa"]) simp
next
  case (Suc n)
  define b where "b = first (clean_pools fa ! i)"
  have ne: "clean_pools fa ! i \<noteq> {}" using Suc.prems(3) by auto
  then have b: "b \<in> clean_pools fa ! i" using Suc.prems(4) by (auto simp: b_def picks_def)
  have len: "i < length (clean_pools fa)" and fin: "finite (clean_pools fa ! i)"
    using Suc.prems(1,2) by (auto simp: fa_core_def)
  define fa1 where "fa1 = fa\<lparr>clean_pools := (clean_pools fa)[i := clean_pools fa ! i - {b}],
     global_clean_pool := global_clean_pool fa @ [b], busy_pages := busy_pages fa - 1\<rparr>"
  have core1: "fa_core fa1"
    unfolding fa1_def by (rule fa_core_release_clean [OF Suc.prems(1,2) b])
  have "card (clean_pools fa1 ! i) = card (clean_pools fa ! i) - 1"
    using b len by (simp add: fa1_def)
  moreover have "n \<le> card (clean_pools fa ! i) - 1" using Suc.prems(3) by simp
  ultimately obtain P G where "release_clean first i n fa1 =
      Inr (fa1\<lparr>clean_pools := (clean_pools fa1)[i := P], global_clean_pool := G, busy_pages := busy_pages fa1 - of_nat n\<rparr>)"
    "fa_core (fa1\<lparr>clean_pools := (clean_pools fa1)[i := P], global_clean_pool := G, busy_pages := busy_pages fa1 - of_nat n\<rparr>)"
    "card P = card (clean_pools fa ! i) - 1 - n" "length G = length (global_clean_pool fa) + Suc n"
    using Suc.IH [OF core1 _ _ Suc.prems(4)] Suc.prems(2,3) by (auto simp: fa1_def)
  moreover have "fa1\<lparr>clean_pools := (clean_pools fa1)[i := P], global_clean_pool := G, busy_pages := busy_pages fa1 - of_nat n\<rparr> =
      fa\<lparr>clean_pools := (clean_pools fa)[i := P], global_clean_pool := G, busy_pages := busy_pages fa - of_nat (Suc n)\<rparr>"
    by (simp add: fa1_def algebra_simps)
  ultimately show ?case
    using len ne by (intro exI [of _ P] exI [of _ G]) (simp add: fa1_def b_def Let_def diff_diff_eq)
qed

lemma release_dirty_ok:
  assumes "fa_core fa" and "i < process_count fa" and "n \<le> card (dirty_pools fa ! i)" and "picks first"
  shows "\<exists>P G. release_dirty first i n fa =
      Inr (fa\<lparr>dirty_pools := (dirty_pools fa)[i := P], global_dirty_pool := G, busy_pages := busy_pages fa - of_nat n\<rparr>) \<and>
    fa_core (fa\<lparr>dirty_pools := (dirty_pools fa)[i := P], global_dirty_pool := G, busy_pages := busy_pages fa - of_nat n\<rparr>) \<and>
    card P = card (dirty_pools fa ! i) - n \<and> length G = length (global_dirty_pool fa) + n"
  using assms
proof (induction n arbitrary: fa)
  case 0
  then show ?case
    by (intro exI [of _ "dirty_pools fa ! i"] exI [of _ "global_dirty_pool fa"]) simp
next
  case (Suc n)
  define b where "b = first (dirty_pools fa ! i)"
  have ne: "dirty_pools fa ! i \<noteq> {}" using Suc.prems(3) by auto
  then have b: "b \<in> dirty_pools fa ! i" using Suc.prems(4) by (auto simp: b_def picks_def)
  have len: "i < length (dirty_pools fa)" and fin: "finite (dirty_pools fa ! i)"
    using Suc.prems(1,2) by (auto simp: fa_core_def)
  define fa1 where "fa1 = fa\<lparr>dirty_pools := (dirty_pools fa)[i := dirty_pools fa ! i - {b}],
     global_dirty_pool := global_dirty_pool fa @ [b], busy_pages := busy_pages fa - 1\<rparr>"
  have core1: "fa_core fa1"
    unfolding fa1_def by (rule fa_core_release_dirty [OF Suc.prems(1,2) b])
  have "card (dirty_pools fa1 ! i) = card (dirty_pools fa ! i) - 1"
    using b len by (simp add: fa1_def)
  moreover have "n \<le> card (dirty_pools fa ! i) - 1" using Suc.prems(3) by simp
  ultimately obtain P G where "release_dirty first i n fa1 =
      Inr (fa1\<lparr>dirty_pools := (dirty_pools fa1)[i := P], global_dirty_pool := G, busy_pages := busy_pages fa1 - of_nat n\<rparr>)"
    "fa_core (fa1\<lparr>dirty_pools := (dirty_pools fa1)[i := P], global_dirty_pool := G, busy_pages := busy_pages fa1 - of_nat n\<rparr>)"
    "card P = card (dirty_pools fa ! i) - 1 - n" "length G = length (global_dirty_pool fa) + Suc n"
    using Suc.IH [OF core1 _ _ Suc.prems(4)] Suc.prems(2,3) by (auto simp: fa1_def)
  moreover have "fa1\<lparr>dirty_pools := (dirty_pools fa1)[i := P], global_dirty_pool := G, busy_pages := busy_pages fa1 - of_nat n\<rparr> =
      fa\<lparr>dirty_pools := (dirty_pools fa)[i := P], global_dirty_pool := G, busy_pages := busy_pages fa - of_nat (Suc n)\<rparr>"
    by (simp add: fa1_def algebra_simps)
  ultimately show ?case
    using len ne by (intro exI [of _ P] exI [of _ G]) (simp add: fa1_def b_def Let_def diff_diff_eq)
qed

lemma share_below:
  fixes s t r :: nat
  assumes "s < t" and "r < t" and "t < 2 ^ 31" and "0 < s"
  shows "dmul (ddiv (of_nat s) (of_nat t)) (of_nat r) < of_nat s" and "ddiv (of_nat s) (of_nat t) < 1"
    and "dbl (ddiv (of_nat s) (of_nat t)) < 1"
    and "0 \<le> dmul (ddiv (of_nat s) (of_nat t)) (of_nat r)"
proof -
  define e where "e = (1 :: rat) + 1 / 2 ^ 53"
  define q where "q = ddiv (of_nat s) (of_nat t)"
  have nat_le: "(of_nat m :: rat) \<le> of_nat n - 1" if "m < n" for m n
  proof -
    have "(of_nat (Suc m) :: rat) \<le> of_nat n" using that by (simp only: of_nat_le_iff Suc_le_eq)
    then show ?thesis by simp
  qed
  have t: "0 < t" "(of_nat t :: rat) \<le> 2 ^ 31" using assms(1) nat_le [OF assms(3)] by simp_all
  note st = nat_le [OF assms(1)] and rt = nat_le [OF assms(2)]
  have e: "1 \<le> e" "(of_nat t - 1) * (e * e) < of_nat t"
  proof -
    have "(of_nat t :: rat) * (e * e - 1) \<le> 2 ^ 31 * (e * e - 1)"
      using t(2) by (intro mult_right_mono) (auto simp: e_def)
    also have "\<dots> < 1" by (simp add: e_def)
    finally show "(of_nat t - 1) * (e * e) < of_nat t"
      using mult_mono [of 1 e 1 e] by (simp add: e_def algebra_simps)
  qed (simp add: e_def)
  have q: "0 \<le> q" "q \<le> of_nat s / of_nat t * e"
    using dbl_le [of "of_nat s / of_nat t"] dbl_nonneg [of "of_nat s / of_nat t"] by (auto simp: q_def ddiv_def e_def)
  show "0 \<le> dmul q (of_nat r)" using q(1) by (simp add: dmul_def dbl_nonneg)
  have "dmul q (of_nat r) \<le> q * of_nat r * e"
    using dbl_le [of "q * of_nat r"] q(1) by (simp add: dmul_def e_def)
  also have "\<dots> \<le> of_nat s / of_nat t * e * (of_nat t - 1) * e"
    using q rt e(1) by (intro mult_mono) auto
  also have "\<dots> = of_nat s * (((of_nat t - 1) * (e * e)) / of_nat t)" by simp
  also have "\<dots> < of_nat s * 1"
    using e(2) t(1) assms(4) by (intro mult_strict_left_mono) auto
  finally show "dmul q (of_nat r) < of_nat s" by simp
  have "of_nat s / of_nat t * e * e \<le> (of_nat t - 1) / of_nat t * e * e"
    using st e(1) by (intro mult_right_mono divide_right_mono) auto
  also have "\<dots> < 1" using e(2) t(1) by (simp add: field_simps)
  finally have lt: "of_nat s / of_nat t * e * e < 1" .
  have "dbl q \<le> q * e" using dbl_le [OF q(1)] by (simp add: e_def)
  also have "\<dots> \<le> of_nat s / of_nat t * e * e" using q(2) e(1) by (intro mult_right_mono) auto
  finally show "dbl q < 1" using lt by simp
  have "q * 1 \<le> q * e" using q(1) e(1) by (intro mult_left_mono) auto
  also have "\<dots> \<le> of_nat s / of_nat t * e * e" using q(2) e(1) by (intro mult_right_mono) auto
  finally show "q < 1" using lt by simp
qed


lemma pool_card_le: "i < length ps \<Longrightarrow> card (ps ! i) \<le> pool_count ps"
  unfolding pool_count_def using member_le_sum_list [of "card (ps ! i)" "map card ps"] by (simp add: nth_mem)

lemma fa_core_card:
  assumes "fa_core fa" and "i < process_count fa"
  shows "card (clean_pools fa ! i) + card (dirty_pools fa ! i) \<le> unat (busy_pages fa)"
  using assms pool_card_le [of i "clean_pools fa"] pool_card_le [of i "dirty_pools fa"]
  by (simp add: fa_core_def)

text \<open>A fact about 32-bit sizes.\<close>

lemma unat_of_nat_u32: "m < 2 ^ 32 \<Longrightarrow> unat (of_nat m :: u32) = m"
  by (simp add: unsigned_of_nat take_bit_nat_eq_self)

lemma Release_ok:
  assumes inv: "fa_inv fa" and i: "i < process_count fa" and pick: "picks first"
    and n: "unat es \<le> card (clean_pools fa ! i) + card (dirty_pools fa ! i)"
    and free: "free_blocks fa + unat es \<noteq> 1"
  shows "\<exists>fa'. Release first i es fa = Inr (es, fa') \<and> fa_inv fa' \<and>
    free_blocks fa' = free_blocks fa + unat es \<and> process_count fa' = process_count fa \<and>
    total_page_count fa' = total_page_count fa \<and> fa_min_free_pages fa' = fa_min_free_pages fa \<and>
    card (clean_pools fa' ! i) + card (dirty_pools fa' ! i) + unat es =
      card (clean_pools fa ! i) + card (dirty_pools fa ! i) \<and>
    (\<forall>j. j \<noteq> i \<longrightarrow> clean_pools fa' ! j = clean_pools fa ! j \<and> dirty_pools fa' ! j = dirty_pools fa ! j)"
proof -
  have core: "fa_core fa" using inv by (simp add: fa_inv_def)
  define c where "c = card (clean_pools fa ! i)"
  define d where "d = card (dirty_pools fa ! i)"
  define ce where "ce = min (unat es) c"
  have lens: "i < length (clean_pools fa)" "i < length (dirty_pools fa)" "i < length (proc_busy_pages fa)"
    using core i by (auto simp: fa_core_def)
  have small: "c + d < 2 ^ 31"
    using fa_core_card [OF core i] fa_core_free [OF core] core by (auto simp: c_def d_def fa_core_def)
  then have c32: "unat (of_nat c :: u32) = c" by (intro unat_of_nat_u32) simp
  have clean_evict: "unat (if es > of_nat c then of_nat c else es) = ce"
    using c32 by (auto simp: ce_def word_less_nat_alt)
  have check: "(ucast (of_nat c :: u32) :: u64) + of_nat d \<ge> ucast es"
  proof -
    have "unat ((ucast (of_nat c :: u32) :: u64) + of_nat d) = c + d"
      using small c32 by (simp add: unat_word_ariths unat_of_nat_u64)
    then show ?thesis using n by (simp add: word_le_nat_alt c_def d_def)
  qed
  obtain P G fa1 where fa1: "fa1 = fa\<lparr>clean_pools := (clean_pools fa)[i := P], global_clean_pool := G,
      busy_pages := busy_pages fa - of_nat ce\<rparr>"
    and clean: "release_clean first i ce fa = Inr fa1"
    and core1: "fa_core fa1" and P: "card P = c - ce" "length G = length (global_clean_pool fa) + ce"
    using release_clean_ok [OF core i _ pick, of ce] by (auto simp: ce_def c_def)
  define de where "de = unat es - ce"
  have "de \<le> card (dirty_pools fa1 ! i)" using n by (auto simp: fa1 de_def ce_def c_def)
  then obtain Q H fa2 where fa2: "fa2 = fa1\<lparr>dirty_pools := (dirty_pools fa1)[i := Q], global_dirty_pool := H,
      busy_pages := busy_pages fa1 - of_nat de\<rparr>"
    and dirty: "release_dirty first i de fa1 = Inr fa2"
    and core2: "fa_core fa2" and Q: "card Q = d - de" "length H = length (global_dirty_pool fa) + de"
    using release_dirty_ok [OF core1 _ _ pick, of i de] i by (auto simp: d_def fa1)
  have es: "ce + de = unat es" by (simp add: de_def ce_def)
  have second: "(if (if es > of_nat c then of_nat c else es) < es
      then release_dirty first i (unat (es - (if es > of_nat c then of_nat c else es))) fa1 else Inr fa1) = Inr fa2"
  proof (cases "of_nat c < es")
    case True
    then have "unat (es - of_nat c) = de"
      using c32 by (subst unat_sub) (auto simp: word_less_nat_alt word_le_nat_alt de_def ce_def)
    then show ?thesis using True dirty by simp
  next
    case False
    then have "de = 0" using c32 by (auto simp: word_less_nat_alt de_def ce_def)
    then show ?thesis using False dirty by simp
  qed
  define fa' where "fa' = fa2\<lparr>proc_busy_pages := (proc_busy_pages fa)[i := proc_busy_pages fa ! i - es]\<rparr>"
  have busy2: "proc_busy_pages fa2 = proc_busy_pages fa" by (simp add: fa1 fa2)
  then have core': "fa_core fa'" using core2 by (auto simp: fa'_def fa_core_def all_blocks_def)
  have free': "free_blocks fa' = free_blocks fa + unat es"
    using P(2) Q(2) es by (simp add: fa'_def fa1 fa2 free_blocks_def)
  have reclaim: "\<not> should_reclaim fa'" using should_reclaim_iff [OF core'] free' free by simp
  have run: "Release first i es fa = Inr (es, fa')"
    unfolding Release_def using lens clean second check clean_evict reclaim busy2
    by (simp only: nthE_def if_True bindE.simps c_def [symmetric] d_def [symmetric] Let_def fa'_def [symmetric]
          assertE_def split not_False_eq_True)
  have sum: "c - ce + (d - de) + unat es = c + d" using n es by (auto simp: ce_def de_def c_def d_def)
  have busy: "of_nat (c + d) - es = (of_nat (c - ce + (d - de)) :: u32)"
    unfolding sum [symmetric] by simp
  have "fa_inv fa'"
    unfolding fa_inv_def
  proof (intro conjI core' allI impI)
    fix j assume "j < process_count fa'"
    then have j: "j < process_count fa" by (simp add: fa'_def fa1 fa2)
    then have old: "proc_busy_pages fa ! j = of_nat (card (clean_pools fa ! j) + card (dirty_pools fa ! j))"
      using inv by (simp add: fa_inv_def)
    show "proc_busy_pages fa' ! j = of_nat (card (clean_pools fa' ! j) + card (dirty_pools fa' ! j))"
    proof (cases "j = i")
      case True
      have "proc_busy_pages fa' ! i = of_nat (c + d) - es"
        using old lens True by (simp add: fa'_def c_def d_def)
      moreover have "clean_pools fa' ! i = P" "dirty_pools fa' ! i = Q" using lens by (simp_all add: fa'_def fa1 fa2)
      ultimately show ?thesis by (simp only: True P(1) Q(1) busy)
    qed (simp add: old fa'_def fa1 fa2)
  qed
  moreover have "card (clean_pools fa' ! i) + card (dirty_pools fa' ! i) + unat es = c + d"
    using lens P(1) Q(1) sum by (simp add: fa'_def fa1 fa2)
  ultimately show ?thesis using run free' by (auto simp: fa'_def fa1 fa2 c_def d_def)
qed


lemma dbl_of_u64_nat: "n < 2 ^ 53 \<Longrightarrow> dbl_of_u64 (of_nat n) = of_nat n"
proof -
  assume n: "n < 2 ^ 53"
  then have "uint (of_nat n :: u64) = int n" by (simp add: unsigned_of_nat take_bit_nat_eq_self uint_nat unat_of_nat_u64)
  then show ?thesis
    using dbl_exact [of "of_nat n" "int n" 0] n by (simp add: dbl_of_u64_def)
qed

text \<open>The share of a process is at least one block and at most what the process has.\<close>

lemma release_size_bounds:
  assumes "s < unat (total_page_count fa)" and "0 < s" and "unat (total_page_count fa) < 2 ^ 31"
    and r: "-1 \<le> r" "r < int (unat (total_page_count fa))"
  shows "1 \<le> unat (release_size r s fa) \<and> unat (release_size r s fa) \<le> s"
proof -
  define t where "t = unat (total_page_count fa)"
  have s53: "dbl_of_u64 (of_nat s) = of_nat s" using assms by (intro dbl_of_u64_nat) simp
  have "dbl_of_u64 (of_nat t) = of_nat t" using assms(3) by (intro dbl_of_u64_nat) (simp add: t_def)
  then have t53: "dbl_of_u64 (total_page_count fa) = of_nat t" by (simp add: t_def)
  define x where "x = dmul (ddiv (of_nat s) (of_nat t)) (of_int r)"
  have size: "release_size r s fa = of_int (i32_of_dbl x + 1)"
    by (simp add: release_size_def s53 t53 x_def)
  have "0 \<le> i32_of_dbl x \<and> i32_of_dbl x < int s"
  proof (cases "r = -1")
    case True
    then have "x = - dbl (ddiv (of_nat s) (of_nat t))" by (simp add: x_def dmul_def dbl_minus)
    moreover have "dbl (ddiv (of_nat s) (of_nat t)) < 1"
      using share_below(3) [of s t 0] assms(1-3) by (simp add: t_def)
    moreover have "0 \<le> dbl (ddiv (of_nat s) (of_nat t))" by (intro dbl_nonneg) (simp add: ddiv_def dbl_nonneg)
    ultimately have "-1 < x" "x \<le> 0" by simp_all
    then have "\<lceil>x\<rceil> = 0" by (simp add: ceiling_eq_iff)
    then show ?thesis using \<open>x \<le> 0\<close> assms(2) by (auto simp: i32_of_dbl_def)
  next
    case False
    then have "0 \<le> r" using r by simp
    then obtain k where k: "r = int k" by (rule nonneg_int_cases)
    then have "k < t" using r unfolding t_def by (simp only: of_nat_less_iff)
    then have "x < of_nat s" "0 \<le> x"
      using share_below(1,4) [of s t k] assms(1-3) by (simp_all add: x_def k t_def)
    then show ?thesis by (auto simp: i32_of_dbl_def floor_less_iff)
  qed
  then have b: "1 \<le> i32_of_dbl x + 1" "i32_of_dbl x + 1 \<le> int s" by auto
  define m where "m = nat (i32_of_dbl x + 1)"
  have m: "i32_of_dbl x + 1 = int m" "1 \<le> m" "m \<le> s" using b by (auto simp: m_def)
  have "m < 2 ^ 32" using m(3) assms(1,3) by simp
  then have "unat (release_size r s fa) = m" unfolding size m(1) by (simp add: unat_of_nat_u32)
  then show ?thesis using m by simp
qed


section \<open>Eviction keeps the partition\<close>

definition owned :: "nat \<Rightarrow> FairAllocator \<Rightarrow> nat" where
  "owned i fa = card (clean_pools fa ! i) + card (dirty_pools fa ! i)"

definition same_shape :: "FairAllocator \<Rightarrow> FairAllocator \<Rightarrow> bool" where
  "same_shape fa fa' \<longleftrightarrow> process_count fa' = process_count fa \<and>
     total_page_count fa' = total_page_count fa \<and> fa_min_free_pages fa' = fa_min_free_pages fa"

lemma same_shape_refl [simp]: "same_shape fa fa"
  by (simp add: same_shape_def)

lemma same_shape_trans: "same_shape a b \<Longrightarrow> same_shape b c \<Longrightarrow> same_shape a c"
  by (simp add: same_shape_def)

lemma evict_process_ok:
  assumes inv: "fa_inv fa" and i: "i < process_count fa" and pick: "picks first"
    and free: "1 \<le> free_blocks fa" and r: "-1 \<le> r" "r < int (unat (total_page_count fa))"
  shows "\<exists>fa'. evict_process first r i fa = Inr fa' \<and> fa_inv fa' \<and> same_shape fa fa' \<and>
    free_blocks fa' + owned i fa' = free_blocks fa + owned i fa \<and>
    (0 < owned i fa \<longrightarrow> owned i fa' < owned i fa) \<and> (owned i fa = 0 \<longrightarrow> owned i fa' = 0) \<and>
    (\<forall>j. j \<noteq> i \<longrightarrow> owned j fa' = owned j fa)"
proof -
  have core: "fa_core fa" using inv by (simp add: fa_inv_def)
  have lens: "i < length (clean_pools fa)" "i < length (dirty_pools fa)"
    using core i by (auto simp: fa_core_def)
  show ?thesis
  proof (cases "owned i fa = 0")
    case True
    then have "evict_process first r i fa = Inr fa"
      using lens by (simp add: evict_process_def nthE_def Let_def owned_def)
    then show ?thesis using True inv by auto
  next
    case False
    define es where "es = release_size r (owned i fa) fa"
    have "owned i fa < unat (total_page_count fa)"
      using fa_core_card [OF core i] fa_core_free [OF core] free by (simp add: owned_def)
    moreover have "unat (total_page_count fa) < 2 ^ 31" using core by (simp add: fa_core_def)
    ultimately have es: "1 \<le> unat es" "unat es \<le> owned i fa"
      using release_size_bounds [of "owned i fa" fa r] False r by (auto simp: es_def)
    obtain fa' where rel: "Release first i es fa = Inr (es, fa')" "fa_inv fa'"
      "free_blocks fa' = free_blocks fa + unat es" "same_shape fa fa'"
      "\<forall>j. j \<noteq> i \<longrightarrow> clean_pools fa' ! j = clean_pools fa ! j \<and> dirty_pools fa' ! j = dirty_pools fa ! j"
      "owned i fa' = owned i fa - unat es"
      using Release_ok [OF inv i pick, of es] es free by (auto simp: owned_def same_shape_def)
    have "evict_process first r i fa = Inr fa'"
      using False lens rel(1) by (auto simp: evict_process_def Let_def es_def owned_def)
    then show ?thesis using rel es by (auto simp: owned_def)
  qed
qed

lemma evict_all_ok:
  assumes inv: "fa_inv fa" and pick: "picks first" and n: "n \<le> process_count fa"
    and free: "1 \<le> free_blocks fa" and r: "-1 \<le> r" "r < int (unat (total_page_count fa))"
  shows "\<exists>fa'. foldE (evict_process first r) [0..<n] fa = Inr fa' \<and> fa_inv fa' \<and> same_shape fa fa' \<and>
    free_blocks fa \<le> free_blocks fa' \<and>
    (\<forall>i<n. 0 < owned i fa \<longrightarrow> owned i fa' < owned i fa \<and> free_blocks fa < free_blocks fa') \<and>
    (\<forall>i. owned i fa' \<le> owned i fa) \<and> (\<forall>i\<ge>n. owned i fa' = owned i fa)"
  using n
proof (induction n)
  case (Suc n)
  then obtain f1 where f1: "foldE (evict_process first r) [0..<n] fa = Inr f1" "fa_inv f1" "same_shape fa f1"
    "free_blocks fa \<le> free_blocks f1"
    "\<forall>i<n. 0 < owned i fa \<longrightarrow> owned i f1 < owned i fa \<and> free_blocks fa < free_blocks f1"
    "\<forall>i. owned i f1 \<le> owned i fa" "\<forall>i\<ge>n. owned i f1 = owned i fa"
    by auto
  obtain f2 where f2: "evict_process first r n f1 = Inr f2" "fa_inv f2" "same_shape f1 f2"
    "free_blocks f2 + owned n f2 = free_blocks f1 + owned n f1"
    "0 < owned n f1 \<longrightarrow> owned n f2 < owned n f1" "owned n f1 = 0 \<longrightarrow> owned n f2 = 0"
    "\<forall>j. j \<noteq> n \<longrightarrow> owned j f2 = owned j f1"
    using evict_process_ok [OF f1(2) _ pick, of n r] f1(3,4) Suc.prems free r by (auto simp: same_shape_def)
  have le: "owned n f2 \<le> owned n f1" using f2(5,6) by (cases "owned n f1") auto
  have "foldE (evict_process first r) [0..<Suc n] fa = Inr f2"
    using f1(1) f2(1) by (simp add: foldE_append)
  moreover have "free_blocks f1 \<le> free_blocks f2" using f2(4) le by simp
  moreover have "owned i f2 < owned i fa \<and> free_blocks fa < free_blocks f2" if "i < Suc n" "0 < owned i fa" for i
    using that f1(4-7) f2(4,5,7) le by (cases "i = n") (auto dest: spec [of _ i])
  moreover have "owned i f2 \<le> owned i fa" for i
    using f1(6) f2(7) le by (cases "i = n") (auto intro: order_trans)
  moreover have "owned i f2 = owned i fa" if "Suc n \<le> i" for i
    using that f1(7) f2(7) by simp
  ultimately show ?case
    using f1(3,4) f2(2,3) by (intro exI [of _ f2]) (auto intro: same_shape_trans)
qed (use inv in simp)


lemma sint_reclaim:
  assumes "m \<le> (t :: u64)" and "unat t < 2 ^ 31"
  shows "-1 \<le> sint (ucast (m - 1) :: u32) \<and> (0 < t \<longrightarrow> sint (ucast (m - 1) :: u32) < int (unat t))"
proof (cases "m = 0")
  case False
  define k where "k = unat m - 1"
  have k: "Suc k \<le> unat t" "Suc k = unat m"
    using False assms(1) by (auto simp: k_def word_le_nat_alt unat_gt_0)
  then have "m = of_nat (Suc k)" by simp
  then have "m - 1 = of_nat k" by simp
  moreover have "k < 2 ^ 31" using k(1) assms(2) by simp
  ultimately have "sint (ucast (m - 1) :: u32) = int k"
    by (simp add: unsigned_of_nat take_bit_nat_eq_self signed_of_nat signed_take_bit_int_eq_self)
  then show ?thesis using k(1) by linarith
next
  case True
  then have "sint (ucast (m - 1) :: u32) = -1" by (simp only:) code_simp
  then show ?thesis by linarith
qed

lemma fa_core_distinct:
  assumes "fa_core fa"
  shows "count (all_blocks fa) b \<le> 1"
proof -
  have "unat (of_nat n :: address) = n" if "n < unat (total_page_count fa)" for n
    using that unsigned_less [of "total_page_count fa", where ?'a = nat] by (intro unat_of_nat_u64) simp
  then have "distinct (map (of_nat :: nat \<Rightarrow> address) [0..<unat (total_page_count fa)])"
    by (auto simp: distinct_map intro!: inj_on_inverseI [of _ unat])
  then show ?thesis
    using assms by (simp add: fa_core_def distinct_count_atmost_1)
qed

lemma all_blocks_less:
  assumes "fa_core fa" and "b \<in># all_blocks fa"
  shows "b < total_page_count fa"
proof -
  have "b \<in> set (map of_nat [0..<unat (total_page_count fa)])"
    using assms by (metis fa_core_def set_mset_mset)
  then obtain n where "b = of_nat n" "n < unat (total_page_count fa)" by auto
  then show ?thesis
    using unsigned_less [of "total_page_count fa", where ?'a = nat]
    by (simp add: word_less_nat_alt unat_of_nat_u64)
qed

lemma busy_owned:
  assumes core: "fa_core fa" and busy: "0 < unat (busy_pages fa)"
  shows "\<exists>i<process_count fa. 0 < owned i fa"
proof (rule ccontr)
  assume "\<not> ?thesis"
  then have z: "card (clean_pools fa ! i) = 0" "card (dirty_pools fa ! i) = 0" if "i < process_count fa" for i
    using that by (auto simp: owned_def)
  have "pool_count ps = 0" if "length ps = process_count fa" "\<And>i. i < process_count fa \<Longrightarrow> card (ps ! i) = 0" for ps
    using that by (auto simp: pool_count_def in_set_conv_nth simp del: card_0_eq)
  then have "pool_count (clean_pools fa) = 0" "pool_count (dirty_pools fa) = 0"
    using core z by (simp_all add: fa_core_def)
  then show False using core busy by (simp add: fa_core_def)
qed

text \<open>With one free block left, \<open>evict\<close> frees blocks of every process that owns some.\<close>

lemma fa_evict_ok:
  assumes inv: "fa_inv fa" and pick: "picks first" and free: "free_blocks fa = 1"
    and total: "2 \<le> total_page_count fa" and min: "fa_min_free_pages fa \<le> total_page_count fa"
  shows "\<exists>fa'. fa_evict first fa = Inr fa' \<and> fa_inv fa' \<and> same_shape fa fa' \<and> 2 \<le> free_blocks fa' \<and>
    (\<forall>i<process_count fa. 0 < owned i fa \<longrightarrow> owned i fa' < owned i fa)"
proof -
  have core: "fa_core fa" using inv by (simp add: fa_inv_def)
  have small: "unat (total_page_count fa) < 2 ^ 31" using core by (simp add: fa_core_def)
  have reclaim: "should_reclaim fa" using free should_reclaim_iff [OF core] by simp
  then have one: "total_page_count fa - busy_pages fa = 1" by (simp add: should_reclaim_def)
  define r where "r = sint (ucast (fa_min_free_pages fa - 1) :: u32)"
  have "0 < total_page_count fa" using total by (simp add: word_le_nat_alt word_less_nat_alt)
  then have r: "-1 \<le> r" "r < int (unat (total_page_count fa))"
    using sint_reclaim [OF min small] unfolding r_def by blast+
  obtain fa' where fa': "foldE (evict_process first r) [0..<process_count fa] fa = Inr fa'" "fa_inv fa'"
    "same_shape fa fa'"
    "\<forall>i<process_count fa. 0 < owned i fa \<longrightarrow> owned i fa' < owned i fa \<and> free_blocks fa < free_blocks fa'"
    using evict_all_ok [OF inv pick order_refl _ r] free by auto
  have "fa_evict first fa = Inr fa'"
    using reclaim fa'(1) by (simp add: fa_evict_def equal_evict_def one r_def)
  moreover have "0 < unat (busy_pages fa)"
    using fa_core_free [OF core] free total by (simp add: word_le_nat_alt)
  then have "2 \<le> free_blocks fa'" using busy_owned [OF core] fa'(4) free by auto
  ultimately show ?thesis using fa' by auto
qed



text \<open>One block goes from a global list to the clean pool of a process.\<close>

lemma fa_inv_take:
  assumes inv: "fa_inv fa" and i: "i < process_count fa"
    and lists: "mset (global_clean_pool fa) + mset (global_dirty_pool fa) =
      add_mset b (mset (global_clean_pool fa1) + mset (global_dirty_pool fa1))"
    and same: "clean_pools fa1 = clean_pools fa" "dirty_pools fa1 = dirty_pools fa" "busy_pages fa1 = busy_pages fa"
      "proc_busy_pages fa1 = proc_busy_pages fa"
      "total_page_count fa1 = total_page_count fa" "process_count fa1 = process_count fa"
  shows "fa_inv (fa1\<lparr>clean_pools := (clean_pools fa)[i := insert b (clean_pools fa ! i)],
      busy_pages := busy_pages fa + 1, proc_busy_pages := (proc_busy_pages fa)[i := proc_busy_pages fa ! i + 1]\<rparr>)"
proof -
  have core: "fa_core fa" using inv by (simp add: fa_inv_def)
  have lens: "i < length (clean_pools fa)" "i < length (proc_busy_pages fa)" "finite (clean_pools fa ! i)"
    using core i by (auto simp: fa_core_def)
  have new: "b \<notin> clean_pools fa ! i"
  proof
    assume "b \<in> clean_pools fa ! i"
    then have "b \<in># pool_blocks (clean_pools fa)" by (rule in_pool_blocks [OF lens(1,3)])
    moreover have "count (all_blocks fa) b \<le> 1" by (rule fa_core_distinct [OF core])
    ultimately show False
      using lists by (simp add: all_blocks_def count_greater_zero_iff [symmetric] del: count_greater_zero_iff)
  qed
  note put = pool_put [OF lens(1,3) new]
  have "unat (busy_pages fa) < unat (total_page_count fa)"
    using fa_core_free [OF core] arg_cong [OF lists, of size] by (simp add: free_blocks_def)
  then have "unat (busy_pages fa + 1) = Suc (unat (busy_pages fa))"
    using unsigned_less [of "total_page_count fa", where ?'a = nat] by (simp add: unat_word_ariths)
  then show ?thesis
    using inv put lists same lens new
    by (auto simp: fa_inv_def fa_core_def all_blocks_def nth_list_update add_ac
        dest!: set_update_subset_insert [THEN subsetD])
qed

lemma take_free_ok:
  assumes "1 \<le> free_blocks fa"
  shows "\<exists>b fa1. take_free fa = (b, fa1) \<and>
    mset (global_clean_pool fa) + mset (global_dirty_pool fa) =
      add_mset b (mset (global_clean_pool fa1) + mset (global_dirty_pool fa1)) \<and>
    free_blocks fa = Suc (free_blocks fa1) \<and> same_shape fa fa1 \<and> clean_pools fa1 = clean_pools fa \<and>
    dirty_pools fa1 = dirty_pools fa \<and> busy_pages fa1 = busy_pages fa \<and> proc_busy_pages fa1 = proc_busy_pages fa"
  using assms
  by (cases "global_clean_pool fa"; cases "global_dirty_pool fa")
    (simp_all add: take_free_def free_blocks_def same_shape_def)

lemma allocate_one_page_ok:
  assumes inv: "fa_inv fa" and i: "i < process_count fa" and free: "1 \<le> free_blocks fa"
  shows "\<exists>b fa'. allocate_one_page i fa = Inr (Some b, fa') \<and> fa_inv fa' \<and> same_shape fa fa' \<and>
    b < total_page_count fa \<and> b \<in> set (global_clean_pool fa) \<union> set (global_dirty_pool fa) \<and>
    clean_pools fa' = (clean_pools fa)[i := insert b (clean_pools fa ! i)] \<and> dirty_pools fa' = dirty_pools fa \<and>
    free_blocks fa = Suc (free_blocks fa')"
proof -
  have core: "fa_core fa" using inv by (simp add: fa_inv_def)
  obtain b fa1 where fa1: "take_free fa = (b, fa1)"
      "mset (global_clean_pool fa) + mset (global_dirty_pool fa) =
         add_mset b (mset (global_clean_pool fa1) + mset (global_dirty_pool fa1))"
      "free_blocks fa = Suc (free_blocks fa1)" "same_shape fa fa1" "clean_pools fa1 = clean_pools fa"
      "dirty_pools fa1 = dirty_pools fa" "busy_pages fa1 = busy_pages fa" "proc_busy_pages fa1 = proc_busy_pages fa"
    using take_free_ok [OF free] by auto
  have b_free: "b \<in> set (global_clean_pool fa) \<union> set (global_dirty_pool fa)"
    using arg_cong [OF fa1(2), of set_mset] by simp
  then have "b \<in># all_blocks fa" by (auto simp: all_blocks_def)
  then have b: "b < total_page_count fa" by (rule all_blocks_less [OF core])
  have b': "b \<noteq> INVALID_PAGE_ADDR" using b by (auto simp: INVALID_PAGE_ADDR_def)
  have lens: "i < length (clean_pools fa)" "i < length (proc_busy_pages fa)" "finite (clean_pools fa ! i)"
    using core i by (auto simp: fa_core_def)
  have total: "total_page_count fa1 = total_page_count fa" "process_count fa1 = process_count fa"
    using fa1(4) by (simp_all add: same_shape_def)
  define fa' where "fa' = fa1\<lparr>clean_pools := (clean_pools fa)[i := insert b (clean_pools fa ! i)],
      busy_pages := busy_pages fa + 1, proc_busy_pages := (proc_busy_pages fa)[i := proc_busy_pages fa ! i + 1]\<rparr>"
  have nonempty: "global_clean_pool fa \<noteq> [] \<or> global_dirty_pool fa \<noteq> []"
    using free by (auto simp: free_blocks_def)
  have run: "allocate_one_page i fa = Inr (Some b, fa')"
    using nonempty lens b b' fa1(1,5,7,8) total
    by (simp add: allocate_one_page_def buffer_array_at_def fa'_def)
  have "fa_inv fa'" using fa_inv_take [OF inv i fa1(2,5-8) total] by (simp add: fa'_def)
  then show ?thesis
    using run fa1(3,4,6) b b_free by (auto simp: fa'_def same_shape_def free_blocks_def)
qed

definition sized :: "FairAllocator \<Rightarrow> bool" where
  "sized fa \<longleftrightarrow> 2 \<le> total_page_count fa \<and> fa_min_free_pages fa \<le> total_page_count fa"

lemma sized_same: "sized fa \<Longrightarrow> same_shape fa fa' \<Longrightarrow> sized fa'"
  by (simp add: sized_def same_shape_def)

lemma allocate_page_ok:
  assumes inv: "fa_inv fa" and i: "i < process_count fa" and pick: "picks first"
    and free: "1 \<le> free_blocks fa" and sized: "sized fa"
  shows "\<exists>b fa'. allocate_page first i fa = Inr (Some b, fa') \<and> fa_inv fa' \<and> same_shape fa fa' \<and>
    1 \<le> free_blocks fa' \<and> b < total_page_count fa \<and> b \<in> clean_pools fa' ! i"
proof -
  have core: "fa_core fa" using inv by (simp add: fa_inv_def)
  obtain fa1 where fa1: "(if should_reclaim fa then fa_evict first fa else Inr fa) = Inr fa1" "fa_inv fa1"
    "same_shape fa fa1" "2 \<le> free_blocks fa1"
  proof (cases "free_blocks fa = 1")
    case True
    show ?thesis
      using fa_evict_ok [OF inv pick True] sized that should_reclaim_iff [OF core] True by (auto simp: sized_def)
  next
    case False
    then show ?thesis using that [of fa] inv free should_reclaim_iff [OF core] by simp
  qed
  then have i1: "i < process_count fa1" using i by (simp add: same_shape_def)
  obtain b fa' where fa': "allocate_one_page i fa1 = Inr (Some b, fa')" "fa_inv fa'" "same_shape fa1 fa'"
    "b < total_page_count fa1" "free_blocks fa1 = Suc (free_blocks fa')"
    "clean_pools fa' = (clean_pools fa1)[i := insert b (clean_pools fa1 ! i)]"
    using allocate_one_page_ok [OF fa1(2) i1] fa1(4) by auto
  have "i < length (clean_pools fa1)" using i1 fa1(2) by (simp add: fa_inv_def fa_core_def)
  then show ?thesis
    using fa1 fa' same_shape_trans [OF fa1(3) fa'(3)] by (auto simp: allocate_page_def same_shape_def)
qed

lemma fa_convert_ok:
  assumes inv: "fa_inv fa" and i: "i < process_count fa"
  shows "\<exists>fa'. fa_convert_to_dirty i b fa = Inr fa' \<and> fa_inv fa' \<and> same_shape fa fa' \<and>
    global_clean_pool fa' = global_clean_pool fa \<and> global_dirty_pool fa' = global_dirty_pool fa \<and>
    (\<forall>j. clean_pools fa' ! j \<union> dirty_pools fa' ! j = clean_pools fa ! j \<union> dirty_pools fa ! j) \<and>
    b \<notin> clean_pools fa' ! i"
proof -
  have core: "fa_core fa" using inv by (simp add: fa_inv_def)
  have lens: "i < length (clean_pools fa)" "i < length (dirty_pools fa)" "finite (clean_pools fa ! i)"
      "finite (dirty_pools fa ! i)"
    using core i by (auto simp: fa_core_def)
  show ?thesis
  proof (cases "b \<in> clean_pools fa ! i")
    case False
    then show ?thesis using lens inv by (simp add: fa_convert_to_dirty_def)
  next
    case True
    have new: "b \<notin> dirty_pools fa ! i"
    proof
      assume "b \<in> dirty_pools fa ! i"
      then have "b \<in># pool_blocks (dirty_pools fa)" by (rule in_pool_blocks [OF lens(2,4)])
      moreover have "b \<in># pool_blocks (clean_pools fa)" using True by (rule in_pool_blocks [OF lens(1,3)])
      moreover have "count (all_blocks fa) b \<le> 1" by (rule fa_core_distinct [OF core])
      ultimately show False
        by (simp add: all_blocks_def count_greater_zero_iff [symmetric] del: count_greater_zero_iff)
    qed
    define fa' where "fa' = fa\<lparr>clean_pools := (clean_pools fa)[i := clean_pools fa ! i - {b}],
                 dirty_pools := (dirty_pools fa)[i := insert b (dirty_pools fa ! i)]\<rparr>"
    note put = pool_put [OF lens(2,4) new] and take = pool_take [OF lens(1,3) True]
    have "fa_core fa'"
      using core put take lens by (auto simp: fa'_def fa_core_def all_blocks_def
          dest!: set_update_subset_insert [THEN subsetD])
    moreover have "card (clean_pools fa ! i) = Suc (card (clean_pools fa ! i - {b}))"
      using card.remove [OF lens(3) True] .
    ultimately have "fa_inv fa'"
      using inv lens new by (auto simp: fa'_def fa_inv_def nth_list_update)
    moreover have "fa_convert_to_dirty i b fa = Inr fa'"
      using True lens by (simp add: fa_convert_to_dirty_def fa'_def)
    ultimately show ?thesis
      using lens True by (auto simp: fa'_def same_shape_def nth_list_update)
  qed
qed

section \<open>Runs of the allocator\<close>

lemma FairAllocator_new_ok:
  assumes ps: "page_size zinfo = 2 ^ page_shift zinfo" "page_shift zinfo < 64"
    and total: "unat (drop_bit (page_shift zinfo) mem_size) < 2 ^ 31"
  shows "\<exists>fa. FairAllocator_new zinfo n mem_size = Inr fa \<and> fa_inv fa \<and> process_count fa = n \<and>
    total_page_count fa = drop_bit (page_shift zinfo) mem_size \<and>
    free_blocks fa = unat (drop_bit (page_shift zinfo) mem_size) \<and>
    (2 ^ 27 \<le> mem_size \<longrightarrow> fa_min_free_pages fa \<le> total_page_count fa)"
proof -
  define m :: u64 where "m = Min_c (Max_c (u64_of_dbl (dmul 4 (dsqrt (dbl_of_u64 mem_size)))) (push_bit 17 2))
                       (push_bit 26 2)"
  have nz: "page_size zinfo \<noteq> 0" using ps by (simp add: unat_2_power flip: unat_eq_0)
  have m27: "m \<le> 2 ^ 27" by (auto simp: m_def Min_c_def push_bit_eq_mult)
  have small: "m div page_size zinfo \<le> drop_bit (page_shift zinfo) mem_size" if "2 ^ 27 \<le> mem_size"
    using m27 that by (simp add: ps drop_bit_eq_div word_le_nat_alt unat_div_2_power ps div_le_mono)
  have empty: "pool_blocks (replicate n {}) = {#}" "pool_count (replicate n {}) = 0"
    by (induction n) (simp_all add: pool_blocks_def pool_count_def)
  show ?thesis
    using nz small total empty
    by (auto simp: FairAllocator_new_def divE_def Let_def m_def fa_inv_def fa_core_def all_blocks_def free_blocks_def
        simp del: mset_upt mset_map)
qed

text \<open>What the walker does with the allocator, in any order and for any process.\<close>

datatype fa_op = Alloc nat | To_dirty nat address

primrec fa_step :: "(address set \<Rightarrow> address) \<Rightarrow> fa_op \<Rightarrow> FairAllocator \<Rightarrow> FairAllocator res" where
  "fa_step first (Alloc i) fa = bindE (allocate_page first i fa) (\<lambda>(_, fa). Inr fa)"
| "fa_step first (To_dirty i b) fa = fa_convert_to_dirty i b fa"

primrec op_process :: "fa_op \<Rightarrow> nat" where
  "op_process (Alloc i) = i"
| "op_process (To_dirty i b) = i"

definition live :: "FairAllocator \<Rightarrow> bool" where
  "live fa \<longleftrightarrow> fa_inv fa \<and> sized fa \<and> 1 \<le> free_blocks fa"

lemma fa_step_live:
  assumes "live fa" and "op_process op < process_count fa" and "picks first"
  shows "\<exists>fa'. fa_step first op fa = Inr fa' \<and> live fa' \<and> same_shape fa fa'"
proof (cases op)
  case (Alloc i)
  then show ?thesis
    using allocate_page_ok [of fa i first] assms by (fastforce simp: live_def dest: sized_same)
next
  case (To_dirty i b)
  then show ?thesis
    using fa_convert_ok [of fa i b] assms by (fastforce simp: live_def free_blocks_def dest: sized_same)
qed

lemma fa_steps_live:
  assumes "live fa" and "\<forall>op\<in>set ops. op_process op < process_count fa" and "picks first"
  shows "\<exists>fa'. foldE (fa_step first) ops fa = Inr fa' \<and> live fa' \<and> same_shape fa fa'"
  using assms
proof (induction ops arbitrary: fa)
  case (Cons op ops)
  obtain fa1 where fa1: "fa_step first op fa = Inr fa1" "live fa1" "same_shape fa fa1"
    using fa_step_live [of fa op first] Cons.prems by auto
  obtain fa' where "foldE (fa_step first) ops fa1 = Inr fa'" "live fa'" "same_shape fa1 fa'"
    using Cons.IH [OF fa1(2)] Cons.prems(2,3) fa1(3) by (auto simp: same_shape_def)
  then show ?case using fa1 by (auto intro: same_shape_trans)
qed simp

lemma count_pool_blocks:
  assumes "\<forall>p\<in>set ps. finite p"
  shows "count (pool_blocks ps) b = card {k. k < length ps \<and> b \<in> ps ! k}"
proof -
  have "count (pool_blocks ps) b = length (filter (\<lambda>p. b \<in> p) ps)"
    using assms by (induction ps) (auto simp: pool_blocks_def)
  then show ?thesis by (simp add: length_filter_conv_card)
qed

lemma exclusive_owner:
  assumes core: "fa_core fa" and i: "i < process_count fa" "b \<in> clean_pools fa ! i \<union> dirty_pools fa ! i"
  shows "b \<notin> set (global_clean_pool fa) \<union> set (global_dirty_pool fa)"
    and "j < process_count fa \<Longrightarrow> b \<in> clean_pools fa ! j \<union> dirty_pools fa ! j \<Longrightarrow> j = i"
    and "b < total_page_count fa"
proof -
  define C where "C = {k. k < process_count fa \<and> b \<in> clean_pools fa ! k}"
  define D where "D = {k. k < process_count fa \<and> b \<in> dirty_pools fa ! k}"
  define g where "g = count (mset (global_clean_pool fa) + mset (global_dirty_pool fa)) b"
  have shape: "length (clean_pools fa) = process_count fa" "length (dirty_pools fa) = process_count fa"
      "\<forall>p\<in>set (clean_pools fa). finite p" "\<forall>p\<in>set (dirty_pools fa). finite p"
    using core by (auto simp: fa_core_def)
  have fin: "finite C" "finite D" by (simp_all add: C_def D_def)
  have "g + card C + card D \<le> 1"
    using fa_core_distinct [OF core, of b] shape by (simp add: all_blocks_def count_pool_blocks C_def D_def g_def)
  moreover have mem: "i \<in> C \<or> i \<in> D" using i by (auto simp: C_def D_def)
  then have "0 < card C + card D" using fin by (auto simp: card_gt_0_iff)
  ultimately have one: "g = 0" "card C + card D = 1" by auto
  show "b \<notin> set (global_clean_pool fa) \<union> set (global_dirty_pool fa)"
    using one(1) by (simp add: g_def count_eq_zero_iff)
  show "j = i" if "j < process_count fa" "b \<in> clean_pools fa ! j \<union> dirty_pools fa ! j"
  proof -
    have "j \<in> C \<or> j \<in> D" using that by (auto simp: C_def D_def)
    moreover have "card C = 0 \<and> card D = 1 \<or> card C = 1 \<and> card D = 0" using one(2) by linarith
    ultimately show ?thesis using mem fin by (auto simp: card_1_singleton_iff)
  qed
  have "b \<in># all_blocks fa"
    using mem shape in_pool_blocks [of i "clean_pools fa" b] in_pool_blocks [of i "dirty_pools fa" b]
    by (auto simp: C_def D_def all_blocks_def)
  then show "b < total_page_count fa" by (rule all_blocks_less [OF core])
qed

definition min_first :: "address set \<Rightarrow> address" where
  "min_first S = Min S"

lemma picks_min_first: "picks min_first"
  by (simp add: picks_def min_first_def)

text \<open>
  The configurations covered: the page size is the power of two of the page shift, and the
  buffer has 128 MB at least and fewer than \<open>2 ^ 31\<close> blocks.
\<close>

definition buffer_config :: "GlobSimInfo \<Rightarrow> address \<Rightarrow> bool" where
  "buffer_config zinfo mem_size \<longleftrightarrow>
     page_size zinfo = 2 ^ page_shift zinfo \<and> page_shift zinfo < 27 \<and> 2 ^ 27 \<le> mem_size \<and>
     unat (drop_bit (page_shift zinfo) mem_size) < 2 ^ 31"

lemma FairAllocator_new_live:
  assumes "buffer_config zinfo mem_size"
  shows "\<exists>fa. FairAllocator_new zinfo n mem_size = Inr fa \<and> live fa \<and> process_count fa = n \<and>
    total_page_count fa = drop_bit (page_shift zinfo) mem_size"
proof -
  define s where "s = page_shift zinfo"
  have "2 ^ 27 \<le> unat mem_size" "s < 27" using assms by (simp_all add: buffer_config_def word_le_nat_alt s_def)
  then have "2 ^ 27 div 2 ^ s \<le> unat mem_size div 2 ^ s" by (intro div_le_mono) simp
  moreover have "(2 :: nat) ^ 1 \<le> 2 ^ 27 div 2 ^ s"
    using \<open>s < 27\<close> by (simp only: power_diff [symmetric] less_imp_le) (intro power_increasing, simp_all)
  ultimately have "2 \<le> drop_bit s mem_size"
    using \<open>s < 27\<close> by (simp add: word_le_nat_alt drop_bit_eq_div unat_div_2_power)
  then show ?thesis
    using FairAllocator_new_ok [of zinfo mem_size n] assms
    by (auto simp: live_def sized_def buffer_config_def s_def word_le_nat_alt)
qed

lemma buffer_run_live:
  assumes "buffer_config zinfo mem_size" and "picks first" and "\<forall>op\<in>set ops. op_process op < n"
  shows "\<exists>fa. bindE (FairAllocator_new zinfo n mem_size) (foldE (fa_step first) ops) = Inr fa \<and> live fa \<and>
    process_count fa = n \<and> total_page_count fa = drop_bit (page_shift zinfo) mem_size"
  using FairAllocator_new_live [OF assms(1), of n] fa_steps_live [of _ ops first] assms(2,3)
  by (fastforce simp: same_shape_def)

lemma find_owner_true:
  assumes "\<forall>j\<in>set js. j < length (clean_pools fa) \<and> j < length (dirty_pools fa)"
    and "i \<in> set js" and "b \<in> clean_pools fa ! i \<union> dirty_pools fa ! i"
  shows "find_owner b js fa = Inr True"
  using assms by (induction js) auto

text \<open>
  C6. A DRAM buffer of at least 128 MB, with pages of less than 128 MB and fewer than \<open>2^31\<close> blocks,
  never runs out: created by the constructor and used by
  any sequence of page allocations and dirty marks of its processes, it fails no assertion,
  and in every state reached at least one block is free and the free blocks and the busy
  counter add up to the size of the buffer.
\<close>

theorem dram_buffer_never_exhausted:
  assumes "buffer_config zinfo mem_size" and "picks first" and "\<forall>op\<in>set ops. op_process op < n"
  shows "\<exists>fa. bindE (FairAllocator_new zinfo n mem_size) (foldE (fa_step first) ops) = Inr fa \<and>
    1 \<le> free_blocks fa \<and>
    free_blocks fa + unat (busy_pages fa) = unat (drop_bit (page_shift zinfo) mem_size)"
  using buffer_run_live [OF assms] fa_core_free by (fastforce simp: live_def fa_inv_def)

theorem dram_buffer_never_exhausted_witness:
  "\<exists>fa. bindE (FairAllocator_new example_zinfo 2 (2 ^ 27))
      (foldE (fa_step min_first) [Alloc 0, Alloc 1, To_dirty 1 1]) = Inr fa \<and> 1 \<le> free_blocks fa \<and>
    free_blocks fa + unat (busy_pages fa) = 2 ^ 15"
  using dram_buffer_never_exhausted [of example_zinfo "2 ^ 27" min_first "[Alloc 0, Alloc 1, To_dirty 1 1]" 2]
  by (simp add: example_zinfo_def buffer_config_def picks_min_first drop_bit_eq_div)

text \<open>
  C28. In every state such a sequence reaches, a block belongs to one process at most: a block
  in a pool of a process is in no pool of another process and in no free list, it is a block
  of the buffer, and \<open>get_page_ptr\<close> finds it.
\<close>

theorem dram_block_exclusive:
  assumes "buffer_config zinfo mem_size" and "picks first"
    and "\<forall>op\<in>set ops. op_process op < numProcs zinfo"
    and "bindE (FairAllocator_new zinfo (numProcs zinfo) mem_size) (foldE (fa_step first) ops) = Inr fa"
    and "i < numProcs zinfo" and "b \<in> clean_pools fa ! i \<union> dirty_pools fa ! i"
  shows "b \<notin> set (global_clean_pool fa) \<union> set (global_dirty_pool fa) \<and>
    (\<forall>j<numProcs zinfo. b \<in> clean_pools fa ! j \<union> dirty_pools fa ! j \<longrightarrow> j = i) \<and>
    b < drop_bit (page_shift zinfo) mem_size \<and> fa_get_page_ptr zinfo b fa = Inr (Some b)"
proof -
  have fa: "fa_core fa" "process_count fa = numProcs zinfo"
      "total_page_count fa = drop_bit (page_shift zinfo) mem_size"
    using buffer_run_live [OF assms(1-3)] assms(4) by (auto simp: live_def fa_inv_def)
  then have i: "i < process_count fa" using assms(5) by simp
  note excl = exclusive_owner [OF fa(1) i assms(6)]
  have "find_owner b [0..<numProcs zinfo] fa = Inr True"
    using fa assms(5,6) by (intro find_owner_true [of _ _ i]) (auto simp: fa_core_def)
  then have "fa_get_page_ptr zinfo b fa = Inr (Some b)"
    using excl(3) by (simp add: fa_get_page_ptr_def buffer_array_at_def)
  then show ?thesis using excl fa(2,3) by auto
qed

theorem dram_block_exclusive_witness:
  "\<exists>fa b. bindE (FairAllocator_new example_zinfo 1 (2 ^ 27)) (foldE (fa_step min_first) [Alloc 0]) = Inr fa \<and>
    b \<in> clean_pools fa ! 0 \<and> b \<notin> set (global_clean_pool fa) \<union> set (global_dirty_pool fa) \<and>
    fa_get_page_ptr example_zinfo b fa = Inr (Some b)"
proof -
  have cfg: "buffer_config example_zinfo (2 ^ 27)" "numProcs example_zinfo = 1"
    by (simp_all add: example_zinfo_def buffer_config_def drop_bit_eq_div)
  obtain fa0 where fa0: "FairAllocator_new example_zinfo 1 (2 ^ 27) = Inr fa0" "live fa0" "process_count fa0 = 1"
    using FairAllocator_new_live [OF cfg(1)] by blast
  then obtain b fa where fa: "allocate_page min_first 0 fa0 = Inr (Some b, fa)" "b \<in> clean_pools fa ! 0"
    using allocate_page_ok [of fa0 0 min_first] picks_min_first by (auto simp: live_def)
  have run: "bindE (FairAllocator_new example_zinfo 1 (2 ^ 27)) (foldE (fa_step min_first) [Alloc 0]) = Inr fa"
    using fa0 fa by simp
  show ?thesis
    using dram_block_exclusive [OF cfg(1) picks_min_first, of "[Alloc 0]" fa 0 b] cfg(2) run fa(2) by auto
qed

text \<open>
  C29. When one block is left in a buffer of two blocks or more that has at least as many blocks as
  the configured minimum of free pages, eviction takes at least one block from every process that
  owns any, fails no assertion and keeps the partition of the blocks; afterwards two blocks at least
  are free.
\<close>

theorem evict_takes_from_every_owner:
  assumes "fa_inv fa" and "picks first" and "free_blocks fa = 1"
    and "2 \<le> total_page_count fa" and "fa_min_free_pages fa \<le> total_page_count fa"
  shows "\<exists>fa'. fa_evict first fa = Inr fa' \<and> fa_inv fa' \<and> 2 \<le> free_blocks fa' \<and>
    (\<forall>i<process_count fa. 0 < owned i fa \<longrightarrow> owned i fa' < owned i fa)"
  using fa_evict_ok [OF assms] by blast

definition full_buffer :: FairAllocator where
  "full_buffer = \<lparr>process_count = 2, memory_capacity = 0x4000, total_page_count = 4, busy_pages = 3,
     fa_min_free_pages = 2, proc_busy_pages = [2, 1], clean_pools = [{0, 1}, {}], dirty_pools = [{}, {2}],
     global_clean_pool = [3], global_dirty_pool = []\<rparr>"

lemma full_buffer_inv: "fa_inv full_buffer"
proof -
  have "[0..<4] = [0, 1, 2, 3 :: nat]" by code_simp
  then have "fa_core full_buffer"
    by (simp add: full_buffer_def fa_core_def all_blocks_def pool_blocks_def pool_count_def add_mset_commute
        del: mset_upt mset_map)
  then show ?thesis by (auto simp: fa_inv_def full_buffer_def less_2_cases_iff)
qed

theorem evict_takes_from_every_owner_witness:
  "\<exists>fa'. fa_evict min_first full_buffer = Inr fa' \<and> fa_inv fa' \<and> 2 \<le> free_blocks fa' \<and>
    owned 0 fa' < 2 \<and> owned 1 fa' < 1"
proof -
  have vals: "free_blocks full_buffer = 1" "2 \<le> total_page_count full_buffer"
      "fa_min_free_pages full_buffer \<le> total_page_count full_buffer" "process_count full_buffer = 2"
      "owned 0 full_buffer = 2" "owned 1 full_buffer = 1"
    by (simp_all add: full_buffer_def free_blocks_def owned_def)
  obtain fa' where fa': "fa_evict min_first full_buffer = Inr fa'" "fa_inv fa'" "2 \<le> free_blocks fa'"
      "\<forall>i<2. 0 < owned i full_buffer \<longrightarrow> owned i fa' < owned i full_buffer"
    using evict_takes_from_every_owner [OF full_buffer_inv picks_min_first vals(1-3)] vals(4) by auto
  have "owned 0 fa' < 2" "owned 1 fa' < 1" using fa'(4) [rule_format, of 0] fa'(4) [rule_format, of 1] vals(5,6) by simp_all
  then show ?thesis using fa' by blast
qed




end
