(* ===== verification/Paging_Classes.thy ===== *)
theory Paging_Classes
  imports LongMode_Paging Legacy_Paging PAE_Paging Memory_Node DRAM_Buffer
begin

text \<open>
  The inverted page table of \<open>page-table/reversed_page_table.h\<close> and \<open>.cpp\<close>, which wraps a
  64-bit paging object, the factory of \<open>page-table/page_table.h\<close>, and the dispatch of the
  virtual methods of \<open>class BasePaging\<close> (\<open>memory_hierarchy.h\<close>) over the four paging classes.
\<close>

section \<open>The inverted page table\<close>

text \<open>
  \<open>Content\<close>: a pointer to a page table entry, that is a table and an index, and the virtual
  page that the entry maps.
\<close>

record Content =
  pgt_entry :: "nat \<times> u32"
  content_vpn :: address

record ReversedPaging =
  rp_paging :: LongModePaging
  reversed_pgt :: "u32 \<Rightarrow> Content option"

definition ReversedPaging_new :: "GlobSimInfo \<Rightarrow> PagingStyle \<Rightarrow> (ReversedPaging \<times> GlobSimInfo) res" where
  "ReversedPaging_new zinfo mode =
     bindE (LongModePaging_new zinfo mode) (\<lambda>(p, zinfo).
     Inr (\<lparr>rp_paging = p, reversed_pgt = (\<lambda>_. None)\<rparr>, zinfo))"

definition rp_access ::
  "GlobSimInfo \<Rightarrow> ReversedPaging \<Rightarrow> mem_objs \<Rightarrow> MemReq \<Rightarrow>
   (address \<times> MemReq \<times> ReversedPaging \<times> mem_objs) res" where
  "rp_access zinfo p os req =
     bindE (lm_access zinfo (rp_paging p) os req) (\<lambda>(a, req, lp, os).
     Inr (a, req, p\<lparr>rp_paging := lp\<rparr>, os))"

text \<open>The keys of the inverted table are 32-bit words.\<close>

definition rp_get_vpn :: "ReversedPaging \<Rightarrow> address \<Rightarrow> address res" where
  "rp_get_vpn p ppn =
     (case reversed_pgt p (ucast ppn) of None \<Rightarrow> Inl Assert_failed | Some c \<Rightarrow> Inr (content_vpn c))"

definition rp_unmap_page_table :: "ReversedPaging \<Rightarrow> address \<Rightarrow> (bool \<times> ReversedPaging) res" where
  "rp_unmap_page_table p addr =
     bindE (lm_unmap_page_table (rp_paging p) addr) (\<lambda>(r, lp). Inr (r, p\<lparr>rp_paging := lp\<rparr>))"

definition rp_allocate_page_table :: "ReversedPaging \<Rightarrow> address \<Rightarrow> address \<Rightarrow> (bool \<times> ReversedPaging) res" where
  "rp_allocate_page_table p addr sz =
     bindE (lm_allocate_page_table_range (rp_paging p) addr sz) (\<lambda>(r, lp). Inr (r, p\<lparr>rp_paging := lp\<rparr>))"

definition rp_remove_root_directory :: "ReversedPaging \<Rightarrow> ReversedPaging res" where
  "rp_remove_root_directory p =
     bindE (lm_remove_root_directory (rp_paging p)) (\<lambda>lp. Inr (p\<lparr>rp_paging := lp\<rparr>))"

text \<open>\<open>remove_page_table\<close> calls itself, not the wrapped object.\<close>

definition rp_remove_page_table :: "ReversedPaging \<Rightarrow> address \<Rightarrow> address \<Rightarrow> (bool \<times> ReversedPaging) res" where
  "rp_remove_page_table p addr sz = Inl Diverges"

definition mapped_ppn :: "GlobSimInfo \<Rightarrow> mem_objs \<Rightarrow> void_ptr \<Rightarrow> bool \<Rightarrow> address res" where
  "mapped_ppn zinfo os pg_ptr pbuffer =
     (if pbuffer then
        bindE (as_block os pg_ptr) (\<lambda>b. Inr (drop_bit (block_shift zinfo) (block_id_to_addr zinfo (block_id b))))
      else bindE (as_page os pg_ptr) (\<lambda>pg. Inr (pageNo pg)))"

definition rp_map_page_table ::
  "GlobSimInfo \<Rightarrow> mem_objs \<Rightarrow> ReversedPaging \<Rightarrow> address \<Rightarrow> void_ptr \<Rightarrow> bool \<Rightarrow> (u32 \<times> ReversedPaging) res" where
  "rp_map_page_table zinfo os p addr pg_ptr pbuffer =
     bindE (lm_map_page_table zinfo (rp_paging p) addr pg_ptr pbuffer) (\<lambda>(latency, mapped_entry, lp).
     bindE (mapped_ppn zinfo os pg_ptr pbuffer) (\<lambda>ppn.
       let p = p\<lparr>rp_paging := lp\<rparr>
       in case mapped_entry of
            None \<Rightarrow> Inr (latency, p)
          | Some e \<Rightarrow>
              bindE (assertE (reversed_pgt p (ucast ppn) = None)) (\<lambda>_.
              Inr (latency, p\<lparr>reversed_pgt := (reversed_pgt p)(ucast ppn \<mapsto>
                     \<lparr>pgt_entry = e, content_vpn = drop_bit (page_shift zinfo) addr\<rparr>)\<rparr>))))"

text \<open>
  The page or cache block with a page number. A block that no process owns has no pointer.
\<close>

definition find_obj ::
  "GlobSimInfo \<Rightarrow> raw_memory \<Rightarrow> FairAllocator \<Rightarrow> address \<Rightarrow> bool \<Rightarrow> MemoryNode option \<Rightarrow>
   (void_ptr \<times> MemoryNode option) res" where
  "find_obj zinfo raw fa ppn in_dram node =
     (if \<not> in_dram then
        bindE (derefE node) (\<lambda>nd.
        bindE (get_page_ptr raw ppn nd) (\<lambda>nd. Inr (PagePtr ppn, Some nd)))
      else
        bindE (fa_get_page_ptr zinfo (dram_addr_to_block_id zinfo (push_bit (block_shift zinfo) ppn)) fa) (\<lambda>b.
        Inr (case b of None \<Rightarrow> NullPtr | Some b \<Rightarrow> BlockPtr b, node)))"

text \<open>One half of \<open>remap_page_table\<close>: the entry that the inverted table has for \<open>ppn\<close>.\<close>

definition rp_retarget ::
  "GlobSimInfo \<Rightarrow> address \<Rightarrow> void_ptr \<Rightarrow> bool \<Rightarrow> u64 \<times> ReversedPaging \<Rightarrow> (u64 \<times> ReversedPaging) res" where
  "rp_retarget zinfo ppn ptr in_dram r =
     (case r of (latency, p) \<Rightarrow>
       (case reversed_pgt p (ucast ppn) of
          None \<Rightarrow> Inr (latency, p)
        | Some c \<Rightarrow>
            bindE (entry_upd (lm_heap (rp_paging p)) (fst (pgt_entry c)) (snd (pgt_entry c))
                     (\<lambda>e. set_buffer in_dram (pte_set_next_level_address ptr e))) (\<lambda>hp.
            Inr (latency + ucast (mem_access_time zinfo), p\<lparr>rp_paging := (rp_paging p)\<lparr>lm_heap := hp\<rparr>\<rparr>))))"

definition rp_remap_page_table ::
  "GlobSimInfo \<Rightarrow> raw_memory \<Rightarrow> FairAllocator \<Rightarrow> ReversedPaging \<Rightarrow> address \<Rightarrow> address \<Rightarrow> bool \<Rightarrow> bool \<Rightarrow>
   MemoryNode option \<Rightarrow> (u64 \<times> ReversedPaging \<times> MemoryNode option) res" where
  "rp_remap_page_table zinfo raw fa p ppn dst_ppn src_dram dst_dram node =
     bindE (find_obj zinfo raw fa ppn src_dram node) (\<lambda>(page_ptr, node).
     bindE (find_obj zinfo raw fa dst_ppn dst_dram node) (\<lambda>(dst_ptr, node).
     bindE (assertE (page_ptr \<noteq> NullPtr)) (\<lambda>_.
     bindE (assertE (dst_ptr \<noteq> NullPtr)) (\<lambda>_.
     bindE (rp_retarget zinfo ppn dst_ptr dst_dram (0, p)) (\<lambda>r.
     bindE (rp_retarget zinfo dst_ppn page_ptr src_dram r) (\<lambda>(latency, p).
     Inr (latency, p, node)))))))"

section \<open>Virtual methods\<close>

datatype BasePaging =
    Normal_paging NormalPaging
  | PAE_paging PAEPaging
  | LongMode_paging LongModePaging
  | Reversed_paging ReversedPaging

definition CreatePaging :: "GlobSimInfo \<Rightarrow> PagingStyle \<Rightarrow> (BasePaging \<times> GlobSimInfo) res" where
  "CreatePaging zinfo mode =
     (if pagingmode_to_string mode = ''Legacy'' then
        bindE (NormalPaging_new zinfo mode) (\<lambda>(p, zinfo). Inr (Normal_paging p, zinfo))
      else if pagingmode_to_string mode = ''PAE'' then
        bindE (PAEPaging_new zinfo mode) (\<lambda>(p, zinfo). Inr (PAE_paging p, zinfo))
      else if pagingmode_to_string mode = ''LongMode'' then
        bindE (LongModePaging_new zinfo mode) (\<lambda>(p, zinfo). Inr (LongMode_paging p, zinfo))
      else bindE (NormalPaging_new zinfo Legacy_Normal) (\<lambda>(p, zinfo). Inr (Normal_paging p, zinfo)))"

text \<open>\<open>raw_id\<close> is the index that \<open>PAEPaging::access\<close> leaves unset.\<close>

fun paging_access ::
  "u32 \<Rightarrow> GlobSimInfo \<Rightarrow> mem_objs \<Rightarrow> MemReq \<Rightarrow> BasePaging \<Rightarrow> (address \<times> MemReq \<times> BasePaging \<times> mem_objs) res" where
  "paging_access raw_id zinfo os req (Normal_paging p) =
     bindE (np_access zinfo p os req) (\<lambda>(a, req, p, os). Inr (a, req, Normal_paging p, os))"
| "paging_access raw_id zinfo os req (PAE_paging p) =
     bindE (pae_access raw_id zinfo p os req) (\<lambda>(a, req, p, os). Inr (a, req, PAE_paging p, os))"
| "paging_access raw_id zinfo os req (LongMode_paging p) =
     bindE (lm_access zinfo p os req) (\<lambda>(a, req, p, os). Inr (a, req, LongMode_paging p, os))"
| "paging_access raw_id zinfo os req (Reversed_paging p) =
     bindE (rp_access zinfo p os req) (\<lambda>(a, req, p, os). Inr (a, req, Reversed_paging p, os))"

text \<open>\<open>map_page_table(addr, pg_ptr, pbuffer)\<close>; its latency is an \<open>int\<close>.\<close>

fun paging_map ::
  "GlobSimInfo \<Rightarrow> mem_objs \<Rightarrow> address \<Rightarrow> void_ptr \<Rightarrow> bool \<Rightarrow> BasePaging \<Rightarrow> (u32 \<times> BasePaging) res" where
  "paging_map zinfo os addr pg_ptr pbuffer (Normal_paging p) =
     bindE (np_map_page_table zinfo p addr pg_ptr pbuffer) (\<lambda>(lat, _, p). Inr (lat, Normal_paging p))"
| "paging_map zinfo os addr pg_ptr pbuffer (PAE_paging p) =
     bindE (pae_map_page_table zinfo p addr pg_ptr pbuffer) (\<lambda>(lat, _, p). Inr (lat, PAE_paging p))"
| "paging_map zinfo os addr pg_ptr pbuffer (LongMode_paging p) =
     bindE (lm_map_page_table zinfo p addr pg_ptr pbuffer) (\<lambda>(lat, _, p). Inr (lat, LongMode_paging p))"
| "paging_map zinfo os addr pg_ptr pbuffer (Reversed_paging p) =
     bindE (rp_map_page_table zinfo os p addr pg_ptr pbuffer) (\<lambda>(lat, p). Inr (lat, Reversed_paging p))"

text \<open>Only the inverted page table overrides \<open>remap_page_table\<close>.\<close>

fun paging_remap ::
  "GlobSimInfo \<Rightarrow> raw_memory \<Rightarrow> FairAllocator \<Rightarrow> address \<Rightarrow> address \<Rightarrow> bool \<Rightarrow> bool \<Rightarrow> MemoryNode option \<Rightarrow>
   BasePaging \<Rightarrow> (u64 \<times> BasePaging \<times> MemoryNode option) res" where
  "paging_remap zinfo raw fa ppn dst_ppn src_dram dst_dram node (Reversed_paging p) =
     bindE (rp_remap_page_table zinfo raw fa p ppn dst_ppn src_dram dst_dram node) (\<lambda>(lat, p, node).
     Inr (lat, Reversed_paging p, node))"
| "paging_remap zinfo raw fa ppn dst_ppn src_dram dst_dram node p = Inr (0, p, node)"

end
