(* ===== verification/Buddy_Allocator.thy ===== *)
theory Buddy_Allocator
  imports Memory_Node
begin

text \<open>
  The buddy allocator, \<open>MMU/memory_management.cpp\<close>. It allocates blocks of \<open>2^order\<close> pages
  from the free lists of a zone, splitting larger blocks, and keeps single pages in per-CPU
  caches.

  The free lists of a zone stand for a multiset of page numbers. Allocation is shown to take
  exactly one aligned block of free pages out of it.
\<close>

record BuddyAllocator =
  total_memsize :: u64
  ba_mode :: PagingStyle
  free_page_num :: u64
  mem_node :: "MemoryNode option"

definition BuddyAllocator_new ::
  "GlobSimInfo \<Rightarrow> PagingStyle \<Rightarrow> MemoryNode option \<Rightarrow> BuddyAllocator res" where
  "BuddyAllocator_new zinfo paging_mode node =
     bindE (assertE (memory_size zinfo > 0)) (\<lambda>_.
     Inr \<lparr>total_memsize = memory_size zinfo, ba_mode = paging_mode,
          free_page_num = drop_bit (page_shift zinfo) (memory_size zinfo), mem_node = node\<rparr>)"

section \<open>Allocation\<close>

text \<open>
  \<open>expand\<close> gives the upper halves of a block of order \<open>high\<close> back until a block of order
  \<open>low\<close> is left. It works on the zone and on the page descriptors of the node.
\<close>

primrec expand ::
  "raw_memory \<Rightarrow> address \<Rightarrow> nat \<Rightarrow> nat \<Rightarrow> Zone \<Rightarrow> MemoryNode \<Rightarrow> (Zone \<times> MemoryNode) res" where
  "expand raw page_id low_order 0 z nd = Inr (z, nd)"
| "expand raw page_id low_order (Suc high_order) z nd =
     (if low_order < Suc high_order then
        bindE (nthE (free_area z) high_order) (\<lambda>area.
          let new_page_id = page_id + 2 ^ high_order
          in bindE (get_page_ptr raw new_page_id nd) (\<lambda>nd.
             bindE (fl_push_block_back (block_list area) new_page_id (node_mem_map nd)) (\<lambda>(bl, ps).
             bindE (set_page_order raw new_page_id (of_nat high_order) (nd\<lparr>node_mem_map := ps\<rparr>)) (\<lambda>nd.
             expand raw page_id low_order high_order
               (z\<lparr>free_area := (free_area z)[high_order :=
                    area\<lparr>block_list := bl, nr_free := nr_free area + 1\<rparr>]\<rparr>) nd))))
      else Inr (z, nd))"

text \<open>
  The loop of \<open>rmqueue_page_smallest\<close> over the orders still to try. \<open>1UL >> order\<close> is as in
  the source.
\<close>

primrec rmqueue_orders ::
  "raw_memory \<Rightarrow> nat \<Rightarrow> nat list \<Rightarrow> u64 \<Rightarrow> Zone \<Rightarrow> MemoryNode \<Rightarrow>
   (address option \<times> u64 \<times> Zone \<times> MemoryNode) res" where
  "rmqueue_orders raw order [] fpn z nd = Inr (None, fpn, z, nd)"
| "rmqueue_orders raw order (current_order # rest) fpn z nd =
     bindE (nthE (free_area z) current_order) (\<lambda>area.
       if fl_get_size (block_list area) = 0 then rmqueue_orders raw order rest fpn z nd
       else
         bindE (fl_fetch_head (block_list area) (node_mem_map nd)) (\<lambda>(page, bl, ps).
         bindE (derefE (ps page)) (\<lambda>p.
           let nd = nd\<lparr>node_mem_map :=
                 ps(page \<mapsto> p\<lparr>map_count := -1, page_private := 0, page_count := 1\<rparr>)\<rparr>;
               z = z\<lparr>free_area := (free_area z)[current_order :=
                       area\<lparr>block_list := bl, nr_free := nr_free area - 1\<rparr>],
                     free_pages := free_pages z - drop_bit order 1\<rparr>
           in bindE (expand raw (pageNo p) order current_order z nd) (\<lambda>(z, nd).
              Inr (Some page, fpn - push_bit order 1, z, nd)))))"

definition rmqueue_page_smallest ::
  "raw_memory \<Rightarrow> ZoneType \<Rightarrow> nat \<Rightarrow> BuddyAllocator \<Rightarrow> (address option \<times> BuddyAllocator) res" where
  "rmqueue_page_smallest raw zone order ba =
     bindE (derefE (mem_node ba)) (\<lambda>nd.
     bindE (derefE (node_zones nd zone)) (\<lambda>z.
     bindE (rmqueue_orders raw order [order..<MAXORDER + 1] (free_page_num ba) z nd) (\<lambda>(page, fpn, z, nd).
     Inr (page, ba\<lparr>free_page_num := fpn,
                   mem_node := Some (nd\<lparr>node_zones := (node_zones nd)(zone \<mapsto> z)\<rparr>)\<rparr>))))"

definition allocate_pages_zone ::
  "raw_memory \<Rightarrow> ZoneType \<Rightarrow> nat \<Rightarrow> BuddyAllocator \<Rightarrow> (address option \<times> BuddyAllocator) res" where
  "allocate_pages_zone raw zone order ba =
     bindE (assertE (mem_node ba \<noteq> None)) (\<lambda>_. rmqueue_page_smallest raw zone order ba)"

definition gfp_zone :: "u32 \<Rightarrow> BuddyAllocator \<Rightarrow> ZoneType option res" where
  "gfp_zone flag ba =
     (case mem_node ba of
        None \<Rightarrow> Inr None
      | Some nd \<Rightarrow>
          if node_zones nd Zone_DMA \<noteq> None \<and> flag AND GFP_DMA \<noteq> 0 then Inr (Some Zone_DMA)
          else if node_zones nd Zone_DMA32 \<noteq> None \<and> flag AND GFP_DMA32 \<noteq> 0 then Inr (Some Zone_DMA32)
          else if node_zones nd Zone_HighMem \<noteq> None \<and> flag AND GFP_HighMem \<noteq> 0
            then Inr (Some Zone_HighMem)
          else bindE (assertE (node_zones nd Zone_Normal \<noteq> None)) (\<lambda>_. Inr (Some Zone_Normal)))"

definition allocate_pages ::
  "raw_memory \<Rightarrow> u32 \<Rightarrow> nat \<Rightarrow> BuddyAllocator \<Rightarrow> (address option \<times> BuddyAllocator) res" where
  "allocate_pages raw gfp_mask order ba =
     (if order \<ge> MAXORDER then Inr (None, ba)
      else bindE (gfp_zone gfp_mask ba) (\<lambda>zone.
        case zone of Some z \<Rightarrow> allocate_pages_zone raw z order ba | None \<Rightarrow> Inr (None, ba)))"

definition ba_page_at :: "address \<Rightarrow> BuddyAllocator \<Rightarrow> Page res" where
  "ba_page_at page ba =
     bindE (derefE (mem_node ba)) (\<lambda>nd. derefE (node_mem_map nd page))"

definition get_free_pages ::
  "raw_memory \<Rightarrow> GlobSimInfo \<Rightarrow> u32 \<Rightarrow> nat \<Rightarrow> BuddyAllocator \<Rightarrow> (address \<times> BuddyAllocator) res" where
  "get_free_pages raw zinfo gfp_mask order ba =
     bindE (allocate_pages raw gfp_mask order ba) (\<lambda>(page, ba).
     bindE (derefE page) (\<lambda>page.
     bindE (ba_page_at page ba) (\<lambda>p.
     Inr (drop_bit (page_shift zinfo) (pageNo p), ba))))"

definition get_dma_pages ::
  "raw_memory \<Rightarrow> GlobSimInfo \<Rightarrow> u32 \<Rightarrow> nat \<Rightarrow> BuddyAllocator \<Rightarrow> (address \<times> BuddyAllocator) res" where
  "get_dma_pages raw zinfo gfp_mask order ba =
     get_free_pages raw zinfo (gfp_mask OR GFP_DMA) order ba"

text \<open>\<open>n\<close> more rounds of \<open>allocate_bulk\<close>; the result counts the pages appended.\<close>

primrec bulk_rounds ::
  "raw_memory \<Rightarrow> ZoneType \<Rightarrow> nat \<Rightarrow> nat \<Rightarrow> u64 \<Rightarrow> address list \<Rightarrow> BuddyAllocator \<Rightarrow>
   (u64 \<times> address list \<times> BuddyAllocator) res" where
  "bulk_rounds raw zone order 0 i xs ba = Inr (i, xs, ba)"
| "bulk_rounds raw zone order (Suc n) i xs ba =
     bindE (allocate_pages_zone raw zone order ba) (\<lambda>(page, ba).
       case page of None \<Rightarrow> Inr (i, xs, ba)
       | Some p \<Rightarrow> bulk_rounds raw zone order n (i + 1) (xs @ [p]) ba)"

definition allocate_bulk ::
  "raw_memory \<Rightarrow> ZoneType \<Rightarrow> nat \<Rightarrow> u64 \<Rightarrow> address list \<Rightarrow> BuddyAllocator \<Rightarrow>
   (u32 \<times> address list \<times> BuddyAllocator) res" where
  "allocate_bulk raw zone order cnt xs ba =
     bindE (bulk_rounds raw zone order (unat cnt) 0 xs ba) (\<lambda>(i, xs, ba). Inr (ucast i, xs, ba))"

section \<open>Per-CPU page caches\<close>

text \<open>The cache of a CPU in a zone, the hot or the cold one.\<close>

type_synonym pcp_ptr = "ZoneType \<times> nat \<times> bool"

definition get_pcp :: "pcp_ptr \<Rightarrow> BuddyAllocator \<Rightarrow> PerCpuPages res" where
  "get_pcp = (\<lambda>(zone, cpu_id, cold) ba.
     bindE (derefE (mem_node ba)) (\<lambda>nd.
     bindE (derefE (node_zones nd zone)) (\<lambda>z.
     if cold then get_cpu_cold_pages z cpu_id else get_cpu_hot_pages z cpu_id)))"

definition put_pcp :: "pcp_ptr \<Rightarrow> PerCpuPages \<Rightarrow> BuddyAllocator \<Rightarrow> BuddyAllocator res" where
  "put_pcp = (\<lambda>(zone, cpu_id, cold) pps ba.
     bindE (derefE (mem_node ba)) (\<lambda>nd.
     bindE (derefE (node_zones nd zone)) (\<lambda>z.
     bindE (nthE (page_set z) cpu_id) (\<lambda>ps.
       let ps = (if cold then ps\<lparr>pcp_cold := pps\<rparr> else ps\<lparr>pcp_hot := pps\<rparr>)
       in Inr (ba\<lparr>mem_node := Some (nd\<lparr>node_zones := (node_zones nd)
            (zone \<mapsto> z\<lparr>page_set := (page_set z)[cpu_id := ps]\<rparr>)\<rparr>)\<rparr>)))))"

definition buffered_rmqueue ::
  "raw_memory \<Rightarrow> u32 \<Rightarrow> ZoneType \<Rightarrow> nat \<Rightarrow> nat \<Rightarrow> BuddyAllocator \<Rightarrow>
   (address option \<times> BuddyAllocator) res" where
  "buffered_rmqueue raw gfp_mask zone order cpu_id ba =
     (if order = 0 then
        let ptr = (zone, cpu_id, gfp_mask AND GFP_COLD \<noteq> 0)
        in bindE (get_pcp ptr ba) (\<lambda>pps.
           bindE (if page_list pps = [] then
                    bindE (allocate_bulk raw zone order (ucast (pcp_batch pps)) (page_list pps) ba)
                      (\<lambda>(n, xs, ba). Inr (pps\<lparr>pcp_count := pcp_count pps + n, page_list := xs\<rparr>, ba))
                  else if pcp_count pps \<le> pcp_low pps then
                    bindE (allocate_bulk raw zone order (ucast (pcp_batch pps - pcp_count pps))
                             (page_list pps) ba)
                      (\<lambda>(n, xs, ba). Inr (pps\<lparr>pcp_count := pcp_count pps + n, page_list := xs\<rparr>, ba))
                  else Inr (pps, ba)) (\<lambda>(pps, ba).
           case page_list pps of
             [] \<Rightarrow> bindE (put_pcp ptr pps ba) (allocate_pages_zone raw zone order)
           | page # _ \<Rightarrow>
               bindE (put_pcp ptr (pps\<lparr>pcp_count := pcp_count pps - 1\<rparr>) ba) (\<lambda>ba.
               Inr (Some page, ba))))
      else allocate_pages_zone raw zone order ba)"

section \<open>Freeing\<close>

definition find_buddy_index :: "u64 \<Rightarrow> nat \<Rightarrow> u64" where
  "find_buddy_index page_no order = page_no XOR scast (push_bit order 1 :: u32)"

definition page_is_buddy ::
  "raw_memory \<Rightarrow> u64 \<Rightarrow> u64 \<Rightarrow> nat \<Rightarrow> MemoryNode \<Rightarrow> (bool \<times> MemoryNode) res" where
  "page_is_buddy raw page_id buddy_id order nd =
     bindE (page_at raw buddy_id nd) (\<lambda>(b, nd).
       if page_private b = of_nat order then
         bindE (page_at raw page_id nd) (\<lambda>(p, nd).
         Inr (page_node p = page_node b \<and> page_zone p = page_zone b, nd))
       else Inr (False, nd))"

definition upd_nr_free :: "nat \<Rightarrow> (u64 \<Rightarrow> u64) \<Rightarrow> Zone \<Rightarrow> Zone res" where
  "upd_nr_free order f z =
     bindE (nthE (free_area z) order) (\<lambda>area.
     Inr (z\<lparr>free_area := (free_area z)[order := area\<lparr>nr_free := f (nr_free area)\<rparr>]\<rparr>))"

text \<open>
  The merge loop; \<open>n\<close> bounds the rounds, and \<open>MAXORDER - 1 - order\<close> of them reach the top
  order.
\<close>

primrec merge_loop ::
  "raw_memory \<Rightarrow> u64 \<Rightarrow> nat \<Rightarrow> u64 \<Rightarrow> nat \<Rightarrow> Zone \<Rightarrow> MemoryNode \<Rightarrow>
   (u64 \<times> nat \<times> Zone \<times> MemoryNode) res" where
  "merge_loop raw page_no 0 page_id order z nd = Inr (page_id, order, z, nd)"
| "merge_loop raw page_no (Suc n) page_id order z nd =
     (let buddy_id = find_buddy_index page_id order
      in bindE (page_is_buddy raw page_no buddy_id order nd) (\<lambda>(b, nd).
         if \<not> b then Inr (page_id, order, z, nd)
         else
           bindE (upd_nr_free order (\<lambda>n. n - 1) z) (\<lambda>z.
           bindE (clear_page_buddy raw buddy_id nd) (\<lambda>nd.
           bindE (set_page_private raw buddy_id 0 nd) (\<lambda>nd.
           merge_loop raw page_no n (buddy_id AND page_no) (order + 1) z nd)))))"

definition free_one_page ::
  "raw_memory \<Rightarrow> ZoneType \<Rightarrow> u64 \<Rightarrow> nat \<Rightarrow> BuddyAllocator \<Rightarrow> BuddyAllocator res" where
  "free_one_page raw zone page_no order ba =
     bindE (derefE (mem_node ba)) (\<lambda>nd.
     bindE (derefE (node_zones nd zone)) (\<lambda>z.
     bindE (merge_loop raw page_no (MAXORDER - 1 - order) (page_no AND (2 ^ MAXORDER - 1)) order z nd)
       (\<lambda>(page_id, order, z, nd).
     bindE (set_page_order raw page_id (of_nat order) nd) (\<lambda>nd.
     bindE (upd_nr_free order (\<lambda>n. n + 1) z) (\<lambda>z.
     Inr (ba\<lparr>mem_node := Some (nd\<lparr>node_zones := (node_zones nd)(zone \<mapsto> z)\<rparr>)\<rparr>))))))"

primrec free_pcppages_rounds ::
  "raw_memory \<Rightarrow> ZoneType \<Rightarrow> nat \<Rightarrow> pcp_ptr \<Rightarrow> BuddyAllocator \<Rightarrow> BuddyAllocator res" where
  "free_pcppages_rounds raw zone 0 ptr ba = Inr ba"
| "free_pcppages_rounds raw zone (Suc n) ptr ba =
     bindE (get_pcp ptr ba) (\<lambda>pps.
       case page_list pps of
         [] \<Rightarrow> Inr ba
       | page # rest \<Rightarrow>
           bindE (put_pcp ptr (pps\<lparr>page_list := rest, pcp_count := pcp_count pps + 1\<rparr>) ba) (\<lambda>ba.
           bindE (ba_page_at page ba) (\<lambda>p.
           bindE (free_one_page raw zone (pageNo p) 0 ba) (\<lambda>ba.
           free_pcppages_rounds raw zone n ptr ba))))"

definition free_pcppages_bulk ::
  "raw_memory \<Rightarrow> ZoneType \<Rightarrow> u32 \<Rightarrow> pcp_ptr \<Rightarrow> BuddyAllocator \<Rightarrow> BuddyAllocator res" where
  "free_pcppages_bulk raw zone cnt ptr ba = free_pcppages_rounds raw zone (unat cnt) ptr ba"

definition free_hot_cold_page ::
  "raw_memory \<Rightarrow> address \<Rightarrow> nat \<Rightarrow> bool \<Rightarrow> BuddyAllocator \<Rightarrow> BuddyAllocator res" where
  "free_hot_cold_page raw page cpu_id cold ba =
     bindE (ba_page_at page ba) (\<lambda>p.
       case page_zone p of
         Garbage _ \<Rightarrow> Inl Uninitialised
       | ZonePtr zone \<Rightarrow>
           let ptr = (zone, cpu_id, cold)
           in bindE (get_pcp ptr ba) (\<lambda>pps.
              let pps = pps\<lparr>page_list := page_list pps @ [page], pcp_count := pcp_count pps + 1\<rparr>
              in bindE (put_pcp ptr pps ba) (\<lambda>ba.
                 if pcp_count pps > pcp_high pps then
                   bindE (free_pcppages_bulk raw zone (pcp_batch pps) ptr ba) (\<lambda>ba.
                   bindE (get_pcp ptr ba) (\<lambda>pps.
                   put_pcp ptr (pps\<lparr>pcp_count := pcp_count pps - pcp_batch pps\<rparr>) ba))
                 else Inr ba)))"

definition get_free_memory_size :: "GlobSimInfo \<Rightarrow> BuddyAllocator \<Rightarrow> u64" where
  "get_free_memory_size zinfo ba = drop_bit (page_shift zinfo) (free_page_num ba)"

section \<open>Splitting a block\<close>

lemma block_in_node:
  assumes "blocks_ok (unat (n :: u64)) bl (block_pages k p)"
  shows "unat p + 2 ^ k \<le> unat n"
proof -
  have "(1 :: nat) \<le> 2 ^ k" by simp
  then have "unat p + 2 ^ k - 1 \<in># free_mset bl + block_pages k p"
    unfolding union_iff in_block_pages by linarith
  then have "unat p + 2 ^ k - 1 < unat n"
    using assms by (simp only: blocks_ok_def)
  then show ?thesis by simp
qed

text \<open>One round of \<open>expand\<close>.\<close>

lemma expand_round:
  assumes lists: "lists_rep (node_mem_map nd) (free_area z) bl" and nok: "node_ok (node_mem_map nd)"
    and ok: "blocks_ok (unat (node_page_num nd)) bl (block_pages (Suc h) p)"
    and al: "2 ^ Suc h dvd unat p" and h: "low \<le> h" "Suc h \<le> MAXORDER"
    and pg: "node_mem_map nd p = Some pg"
  obtains fa ps bl' m where
    "expand raw p low (Suc h) z nd =
       expand raw p low h (z\<lparr>free_area := fa\<rparr>) (nd\<lparr>node_mem_map := ps\<rparr>)"
    "lists_rep ps fa bl'" "node_ok ps" "blocks_ok (unat (node_page_num nd)) bl' (block_pages h p)"
    "free_mset bl' + block_pages h p = free_mset bl + block_pages (Suc h) p"
    "ps p = Some (pg\<lparr>next_page := m\<rparr>)"
proof -
  define x where "x = p + 2 ^ h"
  have room: "unat p + 2 ^ Suc h < 2 ^ 64"
    using block_in_node [OF ok] unat_less_2p64 [of "node_page_num nd"] by linarith
  have split: "block_pages (Suc h) p = block_pages h p + block_pages h x"
    unfolding x_def using room by (rule block_pages_Suc)
  have x: "unat x = unat p + 2 ^ h"
    using room h(2) by (simp add: x_def unat_word_ariths unat_2_power MAXORDER_def)
  have x_in: "unat x \<in># block_pages (Suc h) p" by (simp add: split)
  then have "unat x < unat (node_page_num nd)"
    using ok by (auto simp: blocks_ok_def)
  then have x_less: "x < node_page_num nd" by (simp add: word_less_nat_alt)
  obtain ps1 where get: "get_page_ptr raw x nd = Inr (nd\<lparr>node_mem_map := ps1\<rparr>)"
    and le: "node_mem_map nd \<subseteq>\<^sub>m ps1" and x1: "x \<in> dom ps1" and nok1: "node_ok ps1"
    using get_page_ptr_ok [OF x_less nok] .
  have lists1: "lists_rep ps1 (free_area z) bl" using lists_rep_mono [OF le lists] .
  have h': "h \<le> MAXORDER" using h(2) by simp
  obtain l' ps2 where push: "fl_push_block_back (block_list (free_area z ! h)) x ps1 = Inr (l', ps2)"
    and lists2: "lists_rep ps2 ((free_area z)[h := (free_area z ! h)\<lparr>block_list := l',
        nr_free := nr_free (free_area z ! h) + 1\<rparr>]) (bl(h := bl h @ [x]))" (is "lists_rep _ ?fa ?bl")
    and dom2: "dom ps2 = dom ps1" and strip2: "strip ps2 = strip ps1"
    using lists_push [OF lists1 ok x_in x1 h'] .
  obtain px where px: "ps2 x = Some px" using x1 dom2 by auto
  define ps3 where "ps3 = ps2(x \<mapsto> px\<lparr>page_private := of_nat h, map_count := PAGE_BUDDY_MAPCOUNT_VALUE\<rparr>)"
  have ord: "set_page_order raw x (of_nat h) (nd\<lparr>node_mem_map := ps2\<rparr>) = Inr (nd\<lparr>node_mem_map := ps3\<rparr>)"
    using set_page_order_ok [of x "nd\<lparr>node_mem_map := ps2\<rparr>" px raw] x_less px by (simp add: ps3_def)
  have "expand raw p low (Suc h) z nd = expand raw p low h (z\<lparr>free_area := ?fa\<rparr>) (nd\<lparr>node_mem_map := ps3\<rparr>)"
    using lists h h' get push ord by (simp add: lists_rep_def x_def [symmetric] Let_def)
  moreover have "lists_rep ps3 ?fa ?bl"
    by (rule lists_rep_nexts [OF _ lists2]) (use px in \<open>auto simp: ps3_def nexts_upd nexts_def\<close>)
  moreover have "node_ok ps3"
    using node_ok_strip [OF strip2 nok1] px by (auto simp: node_ok_def ps3_def)
  moreover have eq: "free_mset ?bl + block_pages h p = free_mset bl + block_pages (Suc h) p"
    using free_mset_upd [OF h', of bl "bl h @ [x]"] by (simp add: split)
  moreover have "blocks_ok (unat (node_page_num nd)) ?bl (block_pages h p)"
  proof (rule blocks_ok_move [OF ok eq])
    show "b \<in> set (bl k) \<or> 2 ^ k dvd unat b" if "b \<in> set (?bl k)" for k b
      using that al x by (auto split: if_splits intro: dvd_add dest: dvd_mult_left)
  qed
  moreover have "\<exists>m. ps3 p = Some (pg\<lparr>next_page := m\<rparr>)"
  proof -
    have "x \<noteq> p" using x by auto
    moreover have "ps1 p = Some pg" using le pg by (metis domI map_le_def)
    ultimately show ?thesis
      using strip_field [of ps2 p ps1 pg] strip2 by (auto simp: ps3_def)
  qed
  ultimately show thesis using that by blast
qed

lemma expand_ok:
  assumes "lists_rep (node_mem_map nd) (free_area z) bl" and "node_ok (node_mem_map nd)"
    and "blocks_ok (unat (node_page_num nd)) bl (block_pages high p)"
    and "2 ^ high dvd unat p" and "low \<le> high" and "high \<le> MAXORDER"
    and "node_mem_map nd p = Some pg"
  shows "\<exists>fa ps bl' m. expand raw p low high z nd = Inr (z\<lparr>free_area := fa\<rparr>, nd\<lparr>node_mem_map := ps\<rparr>) \<and>
    lists_rep ps fa bl' \<and> node_ok ps \<and> blocks_ok (unat (node_page_num nd)) bl' (block_pages low p) \<and>
    free_mset bl' + block_pages low p = free_mset bl + block_pages high p \<and>
    ps p = Some (pg\<lparr>next_page := m\<rparr>)"
  using assms
proof (induction high arbitrary: z nd bl pg)
  case 0
  then show ?case
    by (intro exI [of _ "free_area z"] exI [of _ "node_mem_map nd"] exI [of _ bl] exI [of _ "next_page pg"]) simp
next
  case (Suc h)
  show ?case
  proof (cases "low = Suc h")
    case True
    with Suc.prems show ?thesis
      by (intro exI [of _ "free_area z"] exI [of _ "node_mem_map nd"] exI [of _ bl] exI [of _ "next_page pg"]) simp
  next
    case False
    with Suc.prems have "low \<le> h" by simp
    obtain fa ps bl1 m where 1: "expand raw p low (Suc h) z nd =
        expand raw p low h (z\<lparr>free_area := fa\<rparr>) (nd\<lparr>node_mem_map := ps\<rparr>)"
      "lists_rep ps fa bl1" "node_ok ps" "blocks_ok (unat (node_page_num nd)) bl1 (block_pages h p)"
      "free_mset bl1 + block_pages h p = free_mset bl + block_pages (Suc h) p"
      "ps p = Some (pg\<lparr>next_page := m\<rparr>)"
      using expand_round [OF Suc.prems(1-4) \<open>low \<le> h\<close> Suc.prems(6,7)] .
    have "2 ^ h dvd unat p" using Suc.prems(4) by (auto dest: dvd_mult_left)
    then obtain fa' ps' bl' m' where 2:
      "expand raw p low h (z\<lparr>free_area := fa\<rparr>) (nd\<lparr>node_mem_map := ps\<rparr>) =
         Inr (z\<lparr>free_area := fa'\<rparr>, nd\<lparr>node_mem_map := ps'\<rparr>)"
      "lists_rep ps' fa' bl'" "node_ok ps'" "blocks_ok (unat (node_page_num nd)) bl' (block_pages low p)"
      "free_mset bl' + block_pages low p = free_mset bl1 + block_pages h p"
      "ps' p = Some (pg\<lparr>next_page := m'\<rparr>)"
      using Suc.IH [of "nd\<lparr>node_mem_map := ps\<rparr>" "z\<lparr>free_area := fa\<rparr>" bl1 "pg\<lparr>next_page := m\<rparr>"]
        1 \<open>low \<le> h\<close> Suc.prems(6) by auto
    show ?thesis
      using 1(1,5) 2 by (intro exI [of _ fa'] exI [of _ ps'] exI [of _ bl'] exI [of _ m']) simp
  qed
qed


section \<open>Allocation takes one block of free pages\<close>

text \<open>
  A free list is not longer than the node has pages, so with fewer than \<open>2^32\<close> pages the 32-bit
  size of a non-empty list is not 0.
\<close>

lemma size_list_pages: "length bs \<le> size (list_pages k bs)"
proof (induction bs)
  case (Cons b bs)
  have "1 \<le> size (block_pages k b)" by (simp add: block_pages_def del: mset_upt)
  with Cons show ?case by simp
qed simp

lemma list_size_nonzero:
  assumes ok: "blocks_ok n bl rest" and k: "k \<le> MAXORDER" and "bl k \<noteq> []" and n: "n < 2 ^ 32"
  shows "(of_nat (length (bl k)) :: u32) \<noteq> 0"
proof -
  have "free_mset bl \<subseteq># mset [0..<n]"
  proof (rule mset_subset_eqI)
    fix v
    have once: "count (free_mset bl) v \<le> 1"
      using ok by (simp add: blocks_ok_def) (metis add_leD1)
    show "count (free_mset bl) v \<le> count (mset [0..<n]) v"
    proof (cases "v \<in># free_mset bl")
      case True
      then have "v < n" using ok by (auto simp: blocks_ok_def)
      then have "count (mset [0..<n]) v = 1"
        by (simp add: distinct_count_atmost_1 [THEN iffD1, rule_format] del: mset_upt)
      then show ?thesis using once by simp
    qed (simp add: not_in_iff)
  qed
  then have "size (free_mset bl) \<le> n"
    by (metis length_upt diff_zero size_mset size_mset_mono)
  moreover have "size (list_pages k (bl k)) \<le> size (free_mset bl)"
    using free_mset_remove [OF k, of bl] by simp
  ultimately have "length (bl k) < 2 ^ 32"
    using size_list_pages [of "bl k" k] n by simp
  then show ?thesis
    using assms(3) by (simp add: word_of_nat_eq_0_iff) (metis dvd_imp_le length_greater_0_conv not_less)
qed

text \<open>The loop takes the head of the first non-empty list.\<close>

lemma rmqueue_take:
  assumes lists: "lists_rep (node_mem_map nd) (free_area z) bl" and nok: "node_ok (node_mem_map nd)"
    and ok: "blocks_ok (unat (node_page_num nd)) bl {#}" and pages: "unat (node_page_num nd) < 2 ^ 32"
    and k: "order \<le> k" "k \<le> MAXORDER" "bl k = x # xs"
  shows "\<exists>fa ps bl' pg. rmqueue_orders raw order (k # os) fpn z nd =
      Inr (Some x, fpn - push_bit order 1,
        z\<lparr>free_pages := free_pages z - drop_bit order 1, free_area := fa\<rparr>, nd\<lparr>node_mem_map := ps\<rparr>) \<and>
    lists_rep ps fa bl' \<and> node_ok ps \<and> blocks_ok (unat (node_page_num nd)) bl' {#} \<and>
    free_mset bl = free_mset bl' + block_pages order x \<and> 2 ^ order dvd unat x \<and>
    ps x = Some pg \<and> pageNo pg = x \<and> page_count pg = 1 \<and> map_count pg = -1 \<and> page_private pg = 0"
proof -
  obtain l' ps1 where fetch: "fl_fetch_head (block_list (free_area z ! k)) (node_mem_map nd) = Inr (x, l', ps1)"
    and lists1: "lists_rep ps1 ((free_area z)[k := (free_area z ! k)\<lparr>block_list := l',
        nr_free := nr_free (free_area z ! k) - 1\<rparr>]) (bl(k := xs))" (is "lists_rep _ ?fa ?bl")
    and dom1: "dom ps1 = dom (node_mem_map nd)" and strip1: "strip ps1 = strip (node_mem_map nd)"
    using lists_fetch [OF lists ok k(2,3)] .
  have rep: "fl_rep (node_mem_map nd) (block_list (free_area z ! k)) (bl k)"
    using lists k(2) by (simp add: lists_rep_def)
  have sz: "k < length (free_area z)" "fl_get_size (block_list (free_area z ! k)) \<noteq> 0"
    using lists k flexi.rep_size [OF rep] list_size_nonzero [OF ok k(2) _ pages] by (auto simp: lists_rep_def)
  obtain p where p: "ps1 x = Some p"
    using fl_rep_present [OF rep, of x] k(3) dom1 by auto
  have nok1: "node_ok ps1" using node_ok_strip [OF strip1 nok] .
  then have pno: "pageNo p = x" using p by (simp add: node_ok_def)
  define p' where "p' = p\<lparr>map_count := -1, page_private := 0, page_count := 1\<rparr>"
  define ps2 where "ps2 = ps1(x \<mapsto> p')"
  define fp where "fp = free_pages z - drop_bit order 1"
  have eq: "free_mset ?bl + block_pages k x = free_mset bl + {#}"
    using free_mset_upd [OF k(2), of bl xs] k(3) by simp
  have lists2: "lists_rep ps2 ?fa ?bl"
    by (rule lists_rep_nexts [OF _ lists1]) (use p in \<open>auto simp: ps2_def p'_def nexts_upd nexts_def\<close>)
  have nok2: "node_ok ps2" using nok1 pno by (auto simp: node_ok_def ps2_def p'_def)
  have ok2: "blocks_ok (unat (node_page_num nd)) ?bl (block_pages k x)"
    by (rule blocks_ok_move [OF ok eq]) (use k(3) in \<open>auto split: if_splits\<close>)
  have al: "2 ^ k dvd unat x" using ok k by (auto simp: blocks_ok_def)
  obtain fa ps bl' m where e: "expand raw x order k (z\<lparr>free_area := ?fa, free_pages := fp\<rparr>)
        (nd\<lparr>node_mem_map := ps2\<rparr>) =
      Inr (z\<lparr>free_pages := fp, free_area := fa\<rparr>, nd\<lparr>node_mem_map := ps\<rparr>)"
    "lists_rep ps fa bl'" "node_ok ps" "blocks_ok (unat (node_page_num nd)) bl' (block_pages order x)"
    "free_mset bl' + block_pages order x = free_mset ?bl + block_pages k x"
    "ps x = Some (p'\<lparr>next_page := m\<rparr>)"
    using expand_ok [of "nd\<lparr>node_mem_map := ps2\<rparr>" "z\<lparr>free_area := ?fa, free_pages := fp\<rparr>" ?bl k x order p' raw]
      lists2 nok2 ok2 al k(1,2) by (auto simp: ps2_def)
  have "rmqueue_orders raw order (k # os) fpn z nd =
      Inr (Some x, fpn - push_bit order 1, z\<lparr>free_pages := fp, free_area := fa\<rparr>, nd\<lparr>node_mem_map := ps\<rparr>)"
    using sz fetch p e(1) by (simp add: Let_def pno ps2_def p'_def fp_def)
  moreover have "blocks_ok (unat (node_page_num nd)) bl' {#}"
    using e(4) by (auto simp: blocks_ok_def intro: add_leD1)
  moreover have "2 ^ order dvd unat x"
    using al k(1) by (rule dvd_trans [OF le_imp_power_dvd, rotated])
  ultimately show ?thesis
    using e eq pno by (intro exI [of _ fa] exI [of _ ps] exI [of _ bl'] exI [of _ "p'\<lparr>next_page := m\<rparr>"])
      (simp add: p'_def fp_def)
qed

section \<open>The allocator invariant\<close>

definition buddy_inv :: "BuddyAllocator \<Rightarrow> ZoneType \<Rightarrow> free_lists \<Rightarrow> bool" where
  "buddy_inv ba zone bl \<longleftrightarrow>
     (\<exists>nd z. mem_node ba = Some nd \<and> node_zones nd zone = Some z \<and>
        lists_rep (node_mem_map nd) (free_area z) bl \<and> node_ok (node_mem_map nd) \<and>
        blocks_ok (unat (node_page_num nd)) bl {#} \<and> unat (node_page_num nd) < 2 ^ 32)"

lemma rmqueue_skip:
  assumes "lists_rep (node_mem_map nd) (free_area z) bl" and "\<forall>k\<in>set os. k \<le> MAXORDER \<and> bl k = []"
  shows "rmqueue_orders raw order (os @ rest) fpn z nd = rmqueue_orders raw order rest fpn z nd"
  using assms(2)
proof (induction os)
  case Nil
  then show ?case by simp
next
  case (Cons k os)
  then have "k \<le> MAXORDER" "bl k = []" by auto
  then have "k < length (free_area z)" "fl_get_size (block_list (free_area z ! k)) = 0"
    using assms(1) flexi.rep_size by (auto simp: lists_rep_def)
  then show ?case using Cons by simp
qed

lemma allocate_none:
  assumes "buddy_inv ba zone bl" and "\<forall>k. order \<le> k \<and> k \<le> MAXORDER \<longrightarrow> bl k = []"
  shows "allocate_pages_zone raw zone order ba = Inr (None, ba)"
proof -
  obtain nd z where nd: "mem_node ba = Some nd" "node_zones nd zone = Some z"
    and lists: "lists_rep (node_mem_map nd) (free_area z) bl"
    using assms(1) by (auto simp: buddy_inv_def)
  have "rmqueue_orders raw order ([order..<MAXORDER + 1] @ []) (free_page_num ba) z nd =
      Inr (None, free_page_num ba, z, nd)"
    by (subst rmqueue_skip [OF lists]) (use assms(2) in auto)
  moreover have "nd\<lparr>node_zones := (node_zones nd)(zone \<mapsto> z)\<rparr> = nd"
    using nd(2) by (simp add: fun_upd_idem)
  moreover have "ba\<lparr>free_page_num := free_page_num ba, mem_node := Some nd\<rparr> = ba"
    using nd(1) by simp
  ultimately show ?thesis
    using nd by (simp add: allocate_pages_zone_def rmqueue_page_smallest_def)
qed

lemma first_non_empty:
  assumes "order \<le> k" "k \<le> m" "P k"
  shows "\<exists>j rest. [order..<m + 1] = [order..<j] @ j # rest \<and> order \<le> j \<and> j \<le> m \<and> P j \<and>
    (\<forall>i. order \<le> i \<and> i < j \<longrightarrow> \<not> P i)"
proof -
  define j where "j = (LEAST j. order \<le> j \<and> P j)"
  have j: "order \<le> j" "P j" "\<And>i. order \<le> i \<Longrightarrow> i < j \<Longrightarrow> \<not> P i"
    unfolding j_def using LeastI [of "\<lambda>j. order \<le> j \<and> P j" k] assms not_less_Least by blast+
  have "j \<le> m"
    using Least_le [of "\<lambda>j. order \<le> j \<and> P j" k] assms by (simp add: j_def)
  then have "[order..<m + 1] = [order..<j] @ j # [Suc j..<m + 1]"
    using upt_add_eq_append [of order j "m + 1 - j"] j(1) by (simp add: upt_conv_Cons)
  then show ?thesis using j \<open>j \<le> m\<close> by blast
qed

lemma allocate_some:
  assumes inv: "buddy_inv ba zone bl" and k: "order \<le> k" "k \<le> MAXORDER" "bl k \<noteq> []"
  shows "\<exists>page ba' bl' nd nd' z z' pg. allocate_pages_zone raw zone order ba = Inr (Some page, ba') \<and>
    buddy_inv ba' zone bl' \<and> free_mset bl = free_mset bl' + block_pages order page \<and>
    2 ^ order dvd unat page \<and> free_page_num ba' = free_page_num ba - 2 ^ order \<and>
    mem_node ba = Some nd \<and> node_zones nd zone = Some z \<and>
    mem_node ba' = Some nd' \<and> node_zones nd' zone = Some z' \<and>
    free_pages z' = free_pages z - drop_bit order 1 \<and>
    node_mem_map nd' page = Some pg \<and> pageNo pg = page \<and> page_count pg = 1 \<and> map_count pg = -1 \<and>
    page_private pg = 0"
proof -
  obtain nd z where nd: "mem_node ba = Some nd" "node_zones nd zone = Some z"
    and lists: "lists_rep (node_mem_map nd) (free_area z) bl" and nok: "node_ok (node_mem_map nd)"
    and ok: "blocks_ok (unat (node_page_num nd)) bl {#}" and pages: "unat (node_page_num nd) < 2 ^ 32"
    using inv by (auto simp: buddy_inv_def)
  obtain j rest where j: "[order..<MAXORDER + 1] = [order..<j] @ j # rest" "order \<le> j" "j \<le> MAXORDER"
    "bl j \<noteq> []" "\<forall>i. order \<le> i \<and> i < j \<longrightarrow> bl i = []"
    using first_non_empty [of order k MAXORDER "\<lambda>j. bl j \<noteq> []"] k by blast
  obtain x xs where x: "bl j = x # xs" using j(4) by (cases "bl j") auto
  obtain fa ps bl' pg where take: "rmqueue_orders raw order (j # rest) (free_page_num ba) z nd =
      Inr (Some x, free_page_num ba - push_bit order 1,
        z\<lparr>free_pages := free_pages z - drop_bit order 1, free_area := fa\<rparr>, nd\<lparr>node_mem_map := ps\<rparr>)"
    and res: "lists_rep ps fa bl'" "node_ok ps" "blocks_ok (unat (node_page_num nd)) bl' {#}"
    "free_mset bl = free_mset bl' + block_pages order x" "2 ^ order dvd unat x"
    "ps x = Some pg" "pageNo pg = x" "page_count pg = 1" "map_count pg = -1" "page_private pg = 0"
    using rmqueue_take [OF lists nok ok pages j(2,3) x] by blast
  have skip: "rmqueue_orders raw order [order..<MAXORDER + 1] (free_page_num ba) z nd =
      rmqueue_orders raw order (j # rest) (free_page_num ba) z nd"
    unfolding j(1) by (rule rmqueue_skip [OF lists]) (use j(3,5) in auto)
  define z' where "z' = z\<lparr>free_pages := free_pages z - drop_bit order 1, free_area := fa\<rparr>"
  define nd' where "nd' = nd\<lparr>node_mem_map := ps, node_zones := (node_zones nd)(zone \<mapsto> z')\<rparr>"
  define ba' where "ba' = ba\<lparr>free_page_num := free_page_num ba - push_bit order 1, mem_node := Some nd'\<rparr>"
  have run: "allocate_pages_zone raw zone order ba = Inr (Some x, ba')"
    using nd skip take by (simp add: allocate_pages_zone_def rmqueue_page_smallest_def ba'_def nd'_def z'_def)
  have inv': "buddy_inv ba' zone bl'"
    using res(1-3) pages by (simp add: buddy_inv_def ba'_def nd'_def z'_def)
  show ?thesis
    by (intro exI [of _ x] exI [of _ ba'] exI [of _ bl'] exI [of _ nd] exI [of _ nd'] exI [of _ z]
        exI [of _ z'] exI [of _ pg])
      (use run inv' res nd in \<open>simp add: ba'_def nd'_def z'_def push_bit_eq_mult\<close>)
qed

section \<open>The interface of a page allocator\<close>

text \<open>
  \<open>free s F\<close>: in state \<open>s\<close> the pages \<open>F\<close> are free. A successful allocation of order \<open>n\<close>
  takes an aligned block of \<open>2^n\<close> free pages; single pages are refused only when no page is
  free.
\<close>

locale page_allocator =
  fixes free :: "'s \<Rightarrow> nat multiset \<Rightarrow> bool"
    and alloc :: "nat \<Rightarrow> 's \<Rightarrow> (address option \<times> 's) res"
    and max_order :: nat
  assumes free_once: "free s F \<Longrightarrow> count F v \<le> 1"
    and alloc_total: "free s F \<Longrightarrow> n \<le> max_order \<Longrightarrow> \<exists>r s'. alloc n s = Inr (r, s')"
    and alloc_law: "free s F \<Longrightarrow> n \<le> max_order \<Longrightarrow> alloc n s = Inr (Some b, s') \<Longrightarrow>
      \<exists>F'. free s' F' \<and> F = F' + block_pages n b \<and> 2 ^ n dvd unat b"
    and refuse_law: "free s F \<Longrightarrow> n \<le> max_order \<Longrightarrow> alloc n s = Inr (None, s') \<Longrightarrow> s' = s"
    and single_law: "free s F \<Longrightarrow> alloc 0 s = Inr (None, s') \<Longrightarrow> F = {#}"

text \<open>A sequence of requests; the blocks handed out, with their orders.\<close>

primrec alloc_list ::
  "(nat \<Rightarrow> 's \<Rightarrow> (address option \<times> 's) res) \<Rightarrow> nat list \<Rightarrow> 's \<Rightarrow> ((nat \<times> address) list \<times> 's) res" where
  "alloc_list alloc [] s = Inr ([], s)"
| "alloc_list alloc (n # ns) s =
     bindE (alloc n s) (\<lambda>(r, s).
     bindE (alloc_list alloc ns s) (\<lambda>(bs, s).
     Inr ((case r of None \<Rightarrow> bs | Some b \<Rightarrow> (n, b) # bs), s)))"

context page_allocator
begin

lemma alloc_list_ok:
  assumes "free s F" and "\<forall>n\<in>set ns. n \<le> max_order"
  shows "\<exists>bs s' F'. alloc_list alloc ns s = Inr (bs, s') \<and> free s' F' \<and>
    F = F' + sum_list (map (\<lambda>(n, b). block_pages n b) bs) \<and> (\<forall>(n, b)\<in>set bs. 2 ^ n dvd unat b)"
  using assms
proof (induction ns arbitrary: s F)
  case Nil
  then show ?case by simp
next
  case (Cons n ns)
  then obtain r s1 where r: "alloc n s = Inr (r, s1)" using alloc_total by fastforce
  show ?case
  proof (cases r)
    case None
    then have "s1 = s" using refuse_law [OF Cons.prems(1)] Cons.prems(2) r by auto
    then show ?thesis using Cons.IH [OF Cons.prems(1)] Cons.prems(2) r None by auto
  next
    case (Some b)
    obtain F1 where 1: "free s1 F1" "F = F1 + block_pages n b" "2 ^ n dvd unat b"
      using alloc_law [of s F n b s1] Cons.prems r Some by auto
    then obtain bs s' F' where "alloc_list alloc ns s1 = Inr (bs, s')" "free s' F'"
      "F1 = F' + sum_list (map (\<lambda>(n, b). block_pages n b) bs)" "\<forall>(n, b)\<in>set bs. 2 ^ n dvd unat b"
      using Cons.IH [OF 1(1)] Cons.prems(2) by auto
    then show ?thesis using r Some 1 by (auto simp: ac_simps)
  qed
qed

text \<open>Single pages, as many as are free: every free page once.\<close>

lemma alloc_all:
  assumes "free s F"
  shows "\<exists>bs s'. alloc_list alloc (replicate (size F) 0) s = Inr (bs, s') \<and> free s' {#} \<and>
    mset (map (unat \<circ> snd) bs) = F"
  using assms
proof (induction "size F" arbitrary: s F)
  case 0
  then show ?case by simp
next
  case (Suc m)
  obtain r s1 where r: "alloc 0 s = Inr (r, s1)" using alloc_total [OF Suc.prems] by fastforce
  then obtain b where b: "r = Some b"
    using single_law [OF Suc.prems, of s1] Suc.hyps(2) by (cases r) auto
  obtain F1 where 1: "free s1 F1" "F = F1 + block_pages 0 b"
    using alloc_law [OF Suc.prems] r b by blast
  then have "m = size F1" using Suc.hyps(2) by (simp add: block_pages_def)
  then obtain bs s' where "alloc_list alloc (replicate m 0) s1 = Inr (bs, s')" "free s' {#}"
    "mset (map (unat \<circ> snd) bs) = F1"
    using Suc.hyps(1) [OF _ 1(1)] by auto
  then show ?case using Suc.hyps(2) [symmetric] r b 1(2) by (simp add: block_pages_def)
qed

end

lemma free_mset_empty: "free_mset bl = {#} \<longleftrightarrow> (\<forall>k\<le>MAXORDER. bl k = [])"
proof
  assume "free_mset bl = {#}"
  then have none: "list_pages k (bl k) = {#}" if "k \<le> MAXORDER" for k
    using free_mset_remove [OF that, of bl] by simp
  show "\<forall>k\<le>MAXORDER. bl k = []"
  proof (intro allI impI)
    fix k assume "k \<le> MAXORDER"
    then show "bl k = []"
      using none [of k] block_start [of "hd (bl k)" k] by (cases "bl k") auto
  qed
qed (simp add: free_mset_def)

interpretation buddy: page_allocator "\<lambda>ba F. \<exists>bl. buddy_inv ba zone bl \<and> F = free_mset bl"
  "allocate_pages_zone raw zone" MAXORDER for raw zone
proof unfold_locales
  fix ba F v
  assume "\<exists>bl. buddy_inv ba zone bl \<and> F = free_mset bl"
  then show "count F v \<le> 1" by (auto simp: buddy_inv_def blocks_ok_def)
next
  fix ba F n
  assume "\<exists>bl. buddy_inv ba zone bl \<and> F = free_mset bl"
  then show "\<exists>r ba'. allocate_pages_zone raw zone n ba = Inr (r, ba')"
    using allocate_none allocate_some by metis
next
  fix ba F n b ba'
  assume "\<exists>bl. buddy_inv ba zone bl \<and> F = free_mset bl"
    and run: "allocate_pages_zone raw zone n ba = Inr (Some b, ba')"
  then obtain bl where bl: "buddy_inv ba zone bl" "F = free_mset bl" by blast
  then obtain k where "n \<le> k" "k \<le> MAXORDER" "bl k \<noteq> []"
    using allocate_none [of ba zone bl n raw] run by auto
  from allocate_some [OF bl(1) this, of raw] run bl(2)
  show "\<exists>F'. (\<exists>bl. buddy_inv ba' zone bl \<and> F' = free_mset bl) \<and> F = F' + block_pages n b \<and> 2 ^ n dvd unat b"
    by auto
next
  fix ba F n ba'
  assume "\<exists>bl. buddy_inv ba zone bl \<and> F = free_mset bl"
    and run: "allocate_pages_zone raw zone n ba = Inr (None, ba')"
  then obtain bl where bl: "buddy_inv ba zone bl" by blast
  then have "bl k = []" if "n \<le> k" "k \<le> MAXORDER" for k
    using allocate_some [OF bl that, of raw] run by auto
  then show "ba' = ba" using allocate_none [OF bl, of n raw] run by simp
next
  fix ba F ba'
  assume "\<exists>bl. buddy_inv ba zone bl \<and> F = free_mset bl"
    and run: "allocate_pages_zone raw zone 0 ba = Inr (None, ba')"
  then obtain bl where bl: "buddy_inv ba zone bl" "F = free_mset bl" by blast
  then have "bl k = []" if "k \<le> MAXORDER" for k
    using allocate_some [OF bl(1) le0 that, of raw] run by auto
  then show "F = {#}" by (simp add: bl(2) free_mset_empty)
qed

text \<open>With no zone modifier the request goes to the normal zone; order \<open>MAXORDER\<close> is refused.\<close>

lemma allocate_pages_normal:
  assumes "buddy_inv ba Zone_Normal bl" and "n \<le> MAXORDER - 1"
  shows "allocate_pages raw 0 n ba = allocate_pages_zone raw Zone_Normal n ba"
proof -
  obtain nd z where "mem_node ba = Some nd" "node_zones nd Zone_Normal = Some z"
    using assms(1) by (auto simp: buddy_inv_def)
  moreover have "n < MAXORDER" using assms(2) by (simp add: MAXORDER_def)
  ultimately show ?thesis by (simp add: allocate_pages_def gfp_zone_def)
qed

interpretation buddy_gfp: page_allocator
  "\<lambda>ba F. \<exists>bl. buddy_inv ba Zone_Normal bl \<and> F = free_mset bl" "allocate_pages raw 0" "MAXORDER - 1" for raw
proof -
  have le: "n \<le> MAXORDER" if "n \<le> MAXORDER - 1" for n using that by simp
  show "page_allocator (\<lambda>ba F. \<exists>bl. buddy_inv ba Zone_Normal bl \<and> F = free_mset bl)
      (allocate_pages raw 0) (MAXORDER - 1)"
    using buddy.free_once [where zone = Zone_Normal] buddy.alloc_total [where zone = Zone_Normal, OF _ le]
      buddy.alloc_law [where zone = Zone_Normal, OF _ le] buddy.refuse_law [where zone = Zone_Normal, OF _ le]
      buddy.single_law [where zone = Zone_Normal] allocate_pages_normal
    by unfold_locales (metis le0)+
qed

lemma distinct_sub_mset:
  assumes "mset xs \<subseteq># mset ys" and "distinct ys"
  shows "distinct xs"
proof -
  have "count (mset xs) a \<le> 1" for a
  proof -
    have "count (mset xs) a \<le> count (mset ys) a" using assms(1) by (rule mset_subset_eq_count)
    also have "\<dots> \<le> 1" using assms(2) by (simp add: distinct_count_atmost_1)
    finally show ?thesis .
  qed
  then show ?thesis
    by (metis One_nat_def count_greater_zero_iff distinct_count_atmost_1 le_antisym not_gr0 set_mset_mset Suc_leI)
qed

lemma new_allocator_inv:
  assumes "zone_cfg_ok zinfo" and "single_zone zinfo n" and "n \<noteq> 0" and "memory_size zinfo \<noteq> 0"
  shows "\<exists>nd ba bl. MemoryNode_new raw zinfo nid 0 = Inr nd \<and>
    BuddyAllocator_new zinfo mode (Some nd) = Inr ba \<and> buddy_inv ba Zone_Normal bl \<and>
    free_mset bl = mset [0..<unat n - unat n mod 2]"
  using MemoryNode_new_ok [OF assms(1-3), of raw nid] assms(2,4)
  by (auto simp: single_zone_def BuddyAllocator_new_def buddy_inv_def word_gt_0 bindE_Inr_iff)

lemma example_mem_cfg_ok:
  "zone_cfg_ok example_mem_cfg" "single_zone example_mem_cfg 64" "memory_size example_mem_cfg \<noteq> 0"
  by (simp_all add: zone_cfg_ok_def single_zone_def example_mem_cfg_def example_zinfo_def)

section \<open>Properties\<close>

text \<open>
  C5. \<open>BuddyAllocator::allocate_pages(Zone*, order)\<close> returns NULL and changes nothing exactly
  when no free list of the order or above has a block. Otherwise it returns the first page
  of an aligned block of \<open>2^order\<close> pages that were all free; the pages that are free
  afterwards are those that were free before without this block, and the free lists keep
  their invariant (linked lists of disjoint aligned blocks inside a node of fewer than \<open>2^32\<close>
  pages, so that the 32-bit size of a list is 0 for the empty list only). The descriptor
  of the returned page is reset, the page count of the allocator drops by \<open>2^order\<close>, and
  that of the zone by \<open>1 >> order\<close>, which is 0 for every order but 0.
\<close>

theorem buddy_allocate:
  assumes "buddy_inv ba zone bl"
  shows "if \<forall>k. order \<le> k \<and> k \<le> MAXORDER \<longrightarrow> bl k = []
    then allocate_pages_zone raw zone order ba = Inr (None, ba)
    else \<exists>page ba' bl' nd nd' z z' pg. allocate_pages_zone raw zone order ba = Inr (Some page, ba') \<and>
      buddy_inv ba' zone bl' \<and> free_mset bl = free_mset bl' + block_pages order page \<and>
      2 ^ order dvd unat page \<and> free_page_num ba' = free_page_num ba - 2 ^ order \<and>
      mem_node ba = Some nd \<and> node_zones nd zone = Some z \<and>
      mem_node ba' = Some nd' \<and> node_zones nd' zone = Some z' \<and>
      free_pages z' = free_pages z - drop_bit order 1 \<and>
      node_mem_map nd' page = Some pg \<and> pageNo pg = page \<and> page_count pg = 1 \<and>
      map_count pg = -1 \<and> page_private pg = 0"
proof (cases "\<forall>k. order \<le> k \<and> k \<le> MAXORDER \<longrightarrow> bl k = []")
  case True
  then show ?thesis using allocate_none [OF assms] by simp
next
  case False
  then obtain k where "order \<le> k" "k \<le> MAXORDER" "bl k \<noteq> []" by blast
  then show ?thesis unfolding if_not_P [OF False] by (rule allocate_some [OF assms])
qed

theorem buddy_allocate_witness:
  "\<exists>nd ba bl. MemoryNode_new example_raw example_mem_cfg 0 0 = Inr nd \<and>
     BuddyAllocator_new example_mem_cfg LongMode_Normal (Some nd) = Inr ba \<and>
     buddy_inv ba Zone_Normal bl \<and>
     (\<exists>page ba'. allocate_pages_zone example_raw Zone_Normal 0 ba = Inr (Some page, ba') \<and>
        unat page < 64)"
proof -
  obtain nd ba bl where ba: "MemoryNode_new example_raw example_mem_cfg 0 0 = Inr nd"
    "BuddyAllocator_new example_mem_cfg LongMode_Normal (Some nd) = Inr ba"
    "buddy_inv ba Zone_Normal bl" "free_mset bl = mset [0..<64]"
    using new_allocator_inv [OF example_mem_cfg_ok(1,2) _ example_mem_cfg_ok(3), of example_raw 0 LongMode_Normal]
    by auto
  then have "\<not> (\<forall>k. 0 \<le> k \<and> k \<le> MAXORDER \<longrightarrow> bl k = [])"
    using free_mset_empty [of bl] by (simp add: ba(4) del: mset_upt)
  with buddy_allocate [OF ba(3), of 0 example_raw, unfolded if_not_P [OF this]]
  obtain page ba' bl' where al: "allocate_pages_zone example_raw Zone_Normal 0 ba = Inr (Some page, ba')"
    "free_mset bl = free_mset bl' + block_pages 0 page" by blast
  then have "unat page \<in># mset [0..<64]" using ba(4) block_start [of page 0] by (metis union_iff)
  then have "unat page < 64" by simp
  then show ?thesis using ba al by blast
qed

text \<open>
  C19. On a new memory node whose memory is one normal zone of \<open>n < 2^32\<close> pages, any sequence of
  requests \<open>allocate_pages(0, order)\<close> with orders below \<open>MAXORDER\<close> runs without failing,
  and the blocks it hands out are aligned, lie inside the zone and have no page in common.
\<close>

theorem buddy_blocks_disjoint:
  assumes "zone_cfg_ok zinfo" and "single_zone zinfo n" and "n \<noteq> 0"
    and "MemoryNode_new raw zinfo nid 0 = Inr nd" and "BuddyAllocator_new zinfo mode (Some nd) = Inr ba"
    and orders: "\<forall>k\<in>set ks. k < MAXORDER"
  shows "\<exists>bs ba'. alloc_list (allocate_pages raw 0) ks ba = Inr (bs, ba') \<and>
    distinct (concat (map (\<lambda>(k, b). [unat b..<unat b + 2 ^ k]) bs)) \<and>
    (\<forall>(k, b)\<in>set bs. 2 ^ k dvd unat b \<and> unat b + 2 ^ k \<le> unat n)"
proof -
  have "memory_size zinfo \<noteq> 0"
    using assms(5) by (auto simp: BuddyAllocator_new_def bindE_Inr_iff assertE_Inr_iff)
  then obtain bl where bl: "buddy_inv ba Zone_Normal bl" "free_mset bl = mset [0..<unat n - unat n mod 2]"
    using new_allocator_inv [OF assms(1-3), of raw nid mode] assms(4,5) by auto
  have "\<forall>k\<in>set ks. k \<le> MAXORDER - 1" using orders by auto
  then obtain bs ba' F' where run: "alloc_list (allocate_pages raw 0) ks ba = Inr (bs, ba')"
    and F: "free_mset bl = F' + sum_list (map (\<lambda>(k, b). block_pages k b) bs)"
    and al: "\<forall>(k, b)\<in>set bs. 2 ^ k dvd unat b"
    using buddy_gfp.alloc_list_ok [of ba "free_mset bl" ks raw] bl(1) by blast
  let ?pages = "concat (map (\<lambda>(k, b). [unat b..<unat b + 2 ^ k]) bs)"
  have "mset ?pages = sum_list (map (\<lambda>(k, b). block_pages k b) bs)"
    by (induction bs) (auto simp: block_pages_def)
  then have all: "mset [0..<unat n - unat n mod 2] = F' + mset ?pages" using F bl(2) by simp
  then have le: "mset ?pages \<subseteq># mset [0..<unat n - unat n mod 2]" by (simp only: mset_subset_eq_add_right)
  have dist: "distinct ?pages" using le by (rule distinct_sub_mset) simp
  have "set ?pages \<subseteq> set [0..<unat n - unat n mod 2]"
    using set_mset_mono [OF le] by (simp only: set_mset_mset)
  then have sub: "set ?pages \<subseteq> {0..<unat n}" by (rule subset_trans) auto
  have "unat b + 2 ^ k \<le> unat n" if "(k, b) \<in> set bs" for k b
  proof -
    have "(1 :: nat) \<le> 2 ^ k" by simp
    then have "unat b + 2 ^ k - 1 \<in> set [unat b..<unat b + 2 ^ k]"
      unfolding set_upt atLeastLessThan_iff by linarith
    then have "unat b + 2 ^ k - 1 \<in> set ?pages" using that by (auto intro!: bexI [of _ "(k, b)"])
    then have "unat b + 2 ^ k - 1 < unat n" using sub by (simp only: subset_iff atLeastLessThan_iff)
    then show ?thesis by simp
  qed
  then show ?thesis using run dist al by auto
qed

theorem buddy_blocks_disjoint_witness:
  "\<exists>nd ba bs ba'. MemoryNode_new example_raw example_mem_cfg 0 0 = Inr nd \<and>
     BuddyAllocator_new example_mem_cfg LongMode_Normal (Some nd) = Inr ba \<and>
     alloc_list (allocate_pages example_raw 0) [3, 0, 2] ba = Inr (bs, ba') \<and>
     distinct (concat (map (\<lambda>(k, b). [unat b..<unat b + 2 ^ k]) bs))"
proof -
  obtain nd ba where ba: "MemoryNode_new example_raw example_mem_cfg 0 0 = Inr nd"
    "BuddyAllocator_new example_mem_cfg LongMode_Normal (Some nd) = Inr ba"
    using new_allocator_inv [OF example_mem_cfg_ok(1,2) _ example_mem_cfg_ok(3), of example_raw 0 LongMode_Normal]
    by auto
  have "\<forall>k\<in>set [3, 0, 2]. k < MAXORDER" by (simp add: MAXORDER_def)
  from buddy_blocks_disjoint [OF example_mem_cfg_ok(1,2) _ ba this] ba
  show ?thesis by simp blast
qed

text \<open>
  C20. On a new memory node with one normal zone of \<open>n < 2^32\<close> pages, \<open>n - n mod 2\<close> requests for a
  single page hand out each of the pages \<open>0, ..., n - n mod 2 - 1\<close> exactly once, and the
  next request returns NULL. With an odd number of pages the last page is never allocated,
  because \<open>free_area_init_zone\<close> builds no list of order 0.
\<close>

theorem buddy_every_page_once:
  assumes "zone_cfg_ok zinfo" and "single_zone zinfo n" and "n \<noteq> 0"
    and "MemoryNode_new raw zinfo nid 0 = Inr nd" and "BuddyAllocator_new zinfo mode (Some nd) = Inr ba"
  shows "\<exists>bs ba'. alloc_list (allocate_pages raw 0) (replicate (unat n - unat n mod 2) 0) ba = Inr (bs, ba') \<and>
    mset (map (unat \<circ> snd) bs) = mset [0..<unat n - unat n mod 2] \<and>
    allocate_pages raw 0 0 ba' = Inr (None, ba')"
proof -
  have "memory_size zinfo \<noteq> 0"
    using assms(5) by (auto simp: BuddyAllocator_new_def bindE_Inr_iff assertE_Inr_iff)
  then obtain bl where bl: "buddy_inv ba Zone_Normal bl" "free_mset bl = mset [0..<unat n - unat n mod 2]"
    using new_allocator_inv [OF assms(1-3), of raw nid mode] assms(4,5) by auto
  moreover have "size (free_mset bl) = unat n - unat n mod 2" by (simp only: bl(2) size_mset length_upt)
  ultimately obtain bs ba' bl' where run:
    "alloc_list (allocate_pages raw 0) (replicate (unat n - unat n mod 2) 0) ba = Inr (bs, ba')"
    "buddy_inv ba' Zone_Normal bl'" "free_mset bl' = {#}" "mset (map (unat \<circ> snd) bs) = free_mset bl"
    using buddy_gfp.alloc_all [of ba "free_mset bl" raw] by metis
  then have "allocate_pages raw 0 0 ba' = Inr (None, ba')"
    using allocate_pages_normal [OF run(2), of 0 raw] allocate_none [OF run(2), of 0 raw]
    by (simp add: free_mset_empty)
  then show ?thesis using run bl(2) by auto
qed

theorem buddy_every_page_once_witness:
  "\<exists>nd ba bs ba'. MemoryNode_new example_raw example_mem_cfg 0 0 = Inr nd \<and>
     BuddyAllocator_new example_mem_cfg LongMode_Normal (Some nd) = Inr ba \<and>
     alloc_list (allocate_pages example_raw 0) (replicate 64 0) ba = Inr (bs, ba') \<and>
     mset (map (unat \<circ> snd) bs) = mset [0..<64] \<and> allocate_pages example_raw 0 0 ba' = Inr (None, ba')"
proof -
  obtain nd ba where ba: "MemoryNode_new example_raw example_mem_cfg 0 0 = Inr nd"
    "BuddyAllocator_new example_mem_cfg LongMode_Normal (Some nd) = Inr ba"
    using new_allocator_inv [OF example_mem_cfg_ok(1,2) _ example_mem_cfg_ok(3), of example_raw 0 LongMode_Normal]
    by auto
  have n: "unat (64 :: u64) - unat (64 :: u64) mod 2 = 64" by simp
  have nz: "(64 :: u64) \<noteq> 0" by simp
  from buddy_every_page_once [OF example_mem_cfg_ok(1,2) nz ba, unfolded n] ba
  show ?thesis by blast
qed

section \<open>Freeing does not touch the lists\<close>

text \<open>What the page operations keep: the links of the descriptors that exist.\<close>

lemma nexts_map_le: "ps \<subseteq>\<^sub>m ps' \<Longrightarrow> nexts ps \<subseteq>\<^sub>m nexts ps'"
  by (auto simp: map_le_def nexts_def dom_def)

definition links_kept :: "MemoryNode \<Rightarrow> MemoryNode \<Rightarrow> bool" where
  "links_kept nd nd' \<longleftrightarrow>
     (\<exists>ps. nd' = nd\<lparr>node_mem_map := ps\<rparr> \<and> nexts (node_mem_map nd) \<subseteq>\<^sub>m nexts ps)"

lemma links_keptI: "nexts (node_mem_map nd) \<subseteq>\<^sub>m nexts ps \<Longrightarrow> links_kept nd (nd\<lparr>node_mem_map := ps\<rparr>)"
  unfolding links_kept_def by blast

lemma links_kept_trans [trans]: "links_kept a b \<Longrightarrow> links_kept b c \<Longrightarrow> links_kept a c"
proof -
  assume "links_kept a b" and "links_kept b c"
  then obtain ps ps' where "b = a\<lparr>node_mem_map := ps\<rparr>" "nexts (node_mem_map a) \<subseteq>\<^sub>m nexts ps"
    "c = b\<lparr>node_mem_map := ps'\<rparr>" "nexts (node_mem_map b) \<subseteq>\<^sub>m nexts ps'"
    by (auto simp: links_kept_def)
  then show ?thesis
    by (auto intro!: links_keptI elim: map_le_trans)
qed

lemma page_at_links:
  assumes "page_at raw x nd = Inr (p, nd')"
  shows "links_kept nd nd' \<and> node_mem_map nd' x = Some p"
proof -
  obtain nd1 where get: "get_page_ptr raw x nd = Inr nd1" "nd' = nd1" "node_mem_map nd1 x = Some p"
    using assms by (auto simp: page_at_def res_simps)
  have "links_kept nd nd1"
  proof (cases "node_mem_map nd x")
    case None
    then have "node_mem_map nd \<subseteq>\<^sub>m (node_mem_map nd)(x \<mapsto> Page_new (raw_page raw x) x)"
      by (auto simp: map_le_def)
    then show ?thesis
      using get None by (auto simp: get_page_ptr_def res_simps intro!: links_keptI nexts_map_le)
  next
    case (Some p)
    then show ?thesis
      using get links_keptI [of nd "node_mem_map nd"] by (auto simp: get_page_ptr_def res_simps)
  qed
  then show ?thesis using get by simp
qed

lemma page_upd_links:
  assumes "page_upd raw x f nd = Inr nd'" and "\<And>p. next_page (f p) = next_page p"
  shows "links_kept nd nd'"
proof -
  obtain p nd1 where at: "page_at raw x nd = Inr (p, nd1)"
    and nd': "nd' = nd1\<lparr>node_mem_map := (node_mem_map nd1)(x \<mapsto> f p)\<rparr>"
    using assms(1) by (auto simp: page_upd_def bindE_Inr_iff)
  have "nexts (node_mem_map nd') = nexts (node_mem_map nd1)"
    using page_at_links [OF at] assms(2) by (auto simp: nd' nexts_upd nexts_def)
  then have "links_kept nd1 nd'" by (auto simp: links_kept_def nd')
  then show ?thesis using page_at_links [OF at] links_kept_trans by blast
qed

lemma links_kept_ops:
  "page_is_buddy_flag raw x nd = Inr (b, nd') \<Longrightarrow> links_kept nd nd'"
  "set_page_private raw x k nd = Inr nd' \<Longrightarrow> links_kept nd nd'"
  "set_page_buddy raw x nd = Inr nd' \<Longrightarrow> links_kept nd nd'"
  by (auto simp: page_is_buddy_flag_def set_page_private_def set_page_buddy_def bindE_Inr_iff
      dest: page_at_links page_upd_links)

lemma links_kept_clear:
  assumes "clear_page_buddy raw x nd = Inr nd'"
  shows "links_kept nd nd'"
proof -
  obtain b nd1 where "page_is_buddy_flag raw x nd = Inr (b, nd1)"
    "page_upd raw x (\<lambda>p. p\<lparr>map_count := -1\<rparr>) nd1 = Inr nd'"
    using assms by (auto simp: clear_page_buddy_def bindE_Inr_iff)
  then show ?thesis using links_kept_ops(1) page_upd_links links_kept_trans by fastforce
qed

lemma links_kept_order: "set_page_order raw x k nd = Inr nd' \<Longrightarrow> links_kept nd nd'"
  unfolding set_page_order_def bindE_Inr_iff using links_kept_ops(2,3) links_kept_trans by blast

lemma links_kept_page_is_buddy:
  assumes "page_is_buddy raw x y k nd = Inr (b, nd')"
  shows "links_kept nd nd'"
proof -
  obtain p nd1 where at: "page_at raw y nd = Inr (p, nd1)"
    and "nd' = nd1 \<or> (\<exists>q. page_at raw x nd1 = Inr (q, nd'))"
    using assms by (auto simp: page_is_buddy_def bindE_Inr_iff split: if_splits)
  then show ?thesis using page_at_links links_kept_trans by blast
qed

lemma upd_nr_free_lists:
  assumes "upd_nr_free k f z = Inr z'"
  shows "\<exists>fa. z' = z\<lparr>free_area := fa\<rparr> \<and> map block_list fa = map block_list (free_area z)"
proof -
  have "k < length (free_area z)" "z' = z\<lparr>free_area := (free_area z)[k := (free_area z ! k)\<lparr>nr_free := f (nr_free (free_area z ! k))\<rparr>]\<rparr>"
    using assms by (auto simp: upd_nr_free_def bindE_Inr_iff nthE_Inr_iff)
  moreover from this(1) have "map block_list ((free_area z)[k := (free_area z ! k)\<lparr>nr_free := v\<rparr>]) =
      map block_list (free_area z)" for v
    by (auto simp: map_update intro: list_update_same_conv [THEN iffD2])
  ultimately show ?thesis by blast
qed

lemma merge_loop_lists:
  assumes "merge_loop raw page_no n page_id order z nd = Inr (page_id', order', z', nd')"
  shows "links_kept nd nd' \<and>
    (\<exists>fa. z' = z\<lparr>free_area := fa\<rparr> \<and> map block_list fa = map block_list (free_area z))"
  using assms
proof (induction n arbitrary: page_id order z nd)
  case 0
  then have "nd' = nd" "z' = z" by auto
  then show ?case by (auto simp: links_kept_def intro: exI [of _ "node_mem_map nd"] exI [of _ "free_area z"])
next
  case (Suc n)
  define buddy_id where "buddy_id = find_buddy_index page_id order"
  obtain b nd1 where b: "page_is_buddy raw page_no buddy_id order nd = Inr (b, nd1)"
    using Suc.prems by (auto simp: bindE_Inr_iff Let_def buddy_id_def)
  note kept1 = links_kept_page_is_buddy [OF b]
  show ?case
  proof (cases b)
    case False
    then have "nd' = nd1" "z' = z"
      using Suc.prems b by (auto simp: Let_def buddy_id_def)
    then show ?thesis using kept1 by (auto intro: exI [of _ "free_area z"])
  next
    case True
    then obtain z1 nd2 nd3 where 1: "upd_nr_free order (\<lambda>n. n - 1) z = Inr z1"
      "clear_page_buddy raw buddy_id nd1 = Inr nd2" "set_page_private raw buddy_id 0 nd2 = Inr nd3"
      "merge_loop raw page_no n (buddy_id AND page_no) (order + 1) z1 nd3 = Inr (page_id', order', z', nd')"
      using Suc.prems b by (auto simp: Let_def buddy_id_def bindE_Inr_iff)
    have "links_kept nd nd3"
      using kept1 links_kept_clear [OF 1(2)] links_kept_ops(2) [OF 1(3)] links_kept_trans by blast
    then show ?thesis
      using Suc.IH [OF 1(4)] upd_nr_free_lists [OF 1(1)] links_kept_trans by auto
  qed
qed

lemma fl_rep_links:
  assumes "nexts ps \<subseteq>\<^sub>m nexts ps'" and "fl_rep ps l xs"
  shows "fl_rep ps' l xs"
proof -
  have "nexts ps x = nexts ps' x" if "x \<in> set xs" for x
  proof -
    have "x \<in> dom (nexts ps)" using fl_rep_present [OF assms(2) that] by (auto simp: nexts_def)
    then show ?thesis using assms(1) by (simp add: map_le_def)
  qed
  then show ?thesis using fl_rep_cong [of xs ps ps' l] assms(2) by simp
qed

text \<open>
  C21. \<open>free_one_page\<close> puts no page back: whatever it merges, the free lists of the zone hold
  the same blocks in the same order as before, and the allocator's count of free pages is
  unchanged. So a call to it does not make a page available to the next allocation.
\<close>

theorem free_one_page_keeps_lists:
  assumes run: "free_one_page raw zone page_no order ba = Inr ba'"
    and ba: "mem_node ba = Some nd" "node_zones nd zone = Some z"
  shows "\<exists>nd' z'. mem_node ba' = Some nd' \<and> node_zones nd' zone = Some z' \<and>
    map block_list (free_area z') = map block_list (free_area z) \<and>
    (\<forall>l xs. fl_rep (node_mem_map nd) l xs \<longrightarrow> fl_rep (node_mem_map nd') l xs) \<and>
    free_page_num ba' = free_page_num ba"
proof -
  obtain page_id k z1 nd1 nd2 z2 where
    m: "merge_loop raw page_no (MAXORDER - 1 - order) (page_no AND (2 ^ MAXORDER - 1)) order z nd =
      Inr (page_id, k, z1, nd1)"
    and o: "set_page_order raw page_id (of_nat k) nd1 = Inr nd2"
    and u: "upd_nr_free k (\<lambda>n. n + 1) z1 = Inr z2"
    and ba': "ba' = ba\<lparr>mem_node := Some (nd2\<lparr>node_zones := (node_zones nd2)(zone \<mapsto> z2)\<rparr>)\<rparr>"
    using run ba by (auto simp: free_one_page_def bindE_Inr_iff)
  have "links_kept nd nd2" using merge_loop_lists [OF m] links_kept_order [OF o] links_kept_trans by blast
  then have "nexts (node_mem_map nd) \<subseteq>\<^sub>m nexts (node_mem_map nd2)" by (auto simp: links_kept_def)
  then have "fl_rep (node_mem_map nd2) l xs" if "fl_rep (node_mem_map nd) l xs" for l xs
    using fl_rep_links that by blast
  moreover have "map block_list (free_area z2) = map block_list (free_area z)"
    using merge_loop_lists [OF m] upd_nr_free_lists [OF u] by auto
  ultimately show ?thesis using ba' by auto
qed

definition example_alloc :: "PerCpuPages \<Rightarrow> BuddyAllocator" where
  "example_alloc pps =
     \<lparr>total_memsize = 0x40000, ba_mode = LongMode_Normal, free_page_num = 64,
      mem_node = Some ((raw_node example_raw)\<lparr>node_page_num := 64,
        node_zones := (\<lambda>_. None)(Zone_Normal \<mapsto> example_zone\<lparr>
          free_area := replicate (MAXORDER + 1) \<lparr>block_list = FlexiList_new, nr_free = 0\<rparr>,
          page_set := [\<lparr>pcp_hot = pps, pcp_cold = example_pcp\<rparr>]\<rparr>)\<rparr>)\<rparr>"

definition example_raw_order :: raw_memory where
  "example_raw_order = example_raw\<lparr>raw_page := (\<lambda>_. example_page\<lparr>page_private := 99\<rparr>)\<rparr>"

lemma example_free_runs:
  "case free_one_page example_raw_order Zone_Normal 1 0 (example_alloc example_pcp) of Inl _ \<Rightarrow> False | Inr _ \<Rightarrow> True"
  by code_simp

theorem free_one_page_keeps_lists_witness:
  "\<exists>ba' nd' z'. free_one_page example_raw_order Zone_Normal 1 0 (example_alloc example_pcp) = Inr ba' \<and>
     mem_node ba' = Some nd' \<and> node_zones nd' Zone_Normal = Some z' \<and>
     map block_list (free_area z') = replicate 12 FlexiList_new \<and> free_page_num ba' = 64"
proof -
  obtain ba' where run: "free_one_page example_raw_order Zone_Normal 1 0 (example_alloc example_pcp) = Inr ba'"
    using example_free_runs by (auto split: sum.splits)
  obtain nd z where nd: "mem_node (example_alloc example_pcp) = Some nd" "node_zones nd Zone_Normal = Some z"
    and z: "map block_list (free_area z) = replicate 12 FlexiList_new"
    by (simp add: example_alloc_def MAXORDER_def numeral_eq_Suc)
  have "free_page_num (example_alloc example_pcp) = 64" by (simp add: example_alloc_def)
  then show ?thesis using free_one_page_keeps_lists [OF run nd] z run by auto
qed

section \<open>The per-CPU caches\<close>

lemma bulk_rounds_append:
  "bulk_rounds raw zone order n i xs ba = Inr (j, xs', ba') \<Longrightarrow> \<exists>ys. xs' = xs @ ys"
proof (induction n arbitrary: i xs ba)
  case (Suc n)
  then obtain r ba1 where "allocate_pages_zone raw zone order ba = Inr (r, ba1)"
    by (auto simp: bindE_Inr_iff)
  with Suc show ?case by (cases r) fastforce+
qed simp

lemma get_put_pcp:
  assumes "put_pcp ptr pps ba = Inr ba'"
  shows "get_pcp ptr ba' = Inr pps"
proof (cases ptr)
  case (fields zone cpu_id cold)
  then show ?thesis
    using assms
    by (cases cold) (auto simp: put_pcp_def get_pcp_def get_cpu_cold_pages_def get_cpu_hot_pages_def bindE_Inr_iff
        derefE_Inr_iff nthE_Inr_iff Let_def split: if_splits)
qed

lemma put_pcp_total:
  assumes "get_pcp ptr ba = Inr pps"
  shows "\<exists>ba'. put_pcp ptr pps' ba = Inr ba'"
  using assms
  by (cases ptr) (auto simp: put_pcp_def get_pcp_def get_cpu_cold_pages_def get_cpu_hot_pages_def bindE_Inr_iff
      derefE_Inr_iff nthE_Inr_iff Let_def split: if_splits)

lemma buffered_hit:
  assumes "get_pcp (zone, cpu_id, gfp_mask AND GFP_COLD \<noteq> 0) ba = Inr pps" and "page_list pps = p # ps"
    and "pcp_low pps < pcp_count pps"
  shows "\<exists>ba'. buffered_rmqueue raw gfp_mask zone 0 cpu_id ba = Inr (Some p, ba') \<and>
    get_pcp (zone, cpu_id, gfp_mask AND GFP_COLD \<noteq> 0) ba' = Inr (pps\<lparr>pcp_count := pcp_count pps - 1\<rparr>)"
proof -
  obtain ba' where "put_pcp (zone, cpu_id, gfp_mask AND GFP_COLD \<noteq> 0) (pps\<lparr>pcp_count := pcp_count pps - 1\<rparr>) ba = Inr ba'"
    using put_pcp_total [OF assms(1)] by blast
  then show ?thesis
    using assms get_put_pcp by (auto simp: buffered_rmqueue_def)
qed

text \<open>
  C22. \<open>buffered_rmqueue\<close> never removes the page that it returns from the per-CPU cache: as
  long as the cache is not empty, a single-page request returns its first page, and leaves
  that page first. Two requests in a row return the same page.
\<close>

theorem buffered_rmqueue_same_page:
  assumes pps: "get_pcp (zone, cpu_id, gfp_mask AND GFP_COLD \<noteq> 0) ba = Inr pps" "page_list pps = p # ps"
    and run: "buffered_rmqueue raw gfp_mask zone 0 cpu_id ba = Inr (r, ba')"
  shows "r = Some p \<and> (\<exists>pps' ps'. get_pcp (zone, cpu_id, gfp_mask AND GFP_COLD \<noteq> 0) ba' = Inr pps' \<and>
    page_list pps' = p # ps')"
proof -
  let ?ptr = "(zone, cpu_id, gfp_mask AND GFP_COLD \<noteq> 0)"
  obtain pps1 ba1 where step: "(if page_list pps = [] then
        bindE (allocate_bulk raw zone 0 (ucast (pcp_batch pps)) (page_list pps) ba)
          (\<lambda>(n, xs, ba). Inr (pps\<lparr>pcp_count := pcp_count pps + n, page_list := xs\<rparr>, ba))
      else if pcp_count pps \<le> pcp_low pps then
        bindE (allocate_bulk raw zone 0 (ucast (pcp_batch pps - pcp_count pps)) (page_list pps) ba)
          (\<lambda>(n, xs, ba). Inr (pps\<lparr>pcp_count := pcp_count pps + n, page_list := xs\<rparr>, ba))
      else Inr (pps, ba)) = Inr (pps1, ba1)"
    and rest: "(case page_list pps1 of
        [] \<Rightarrow> bindE (put_pcp ?ptr pps1 ba1) (allocate_pages_zone raw zone 0)
      | page # _ \<Rightarrow> bindE (put_pcp ?ptr (pps1\<lparr>pcp_count := pcp_count pps1 - 1\<rparr>) ba1) (\<lambda>ba. Inr (Some page, ba)))
      = Inr (r, ba')"
    using run pps(1) by (auto simp: buffered_rmqueue_def Let_def bindE_Inr_iff)
  have "\<exists>ys. page_list pps1 = p # ys"
    using step pps(2) bulk_rounds_append
    by (fastforce simp: allocate_bulk_def bindE_Inr_iff split: if_splits)
  then obtain ys where ys: "page_list pps1 = p # ys" by blast
  then have "put_pcp ?ptr (pps1\<lparr>pcp_count := pcp_count pps1 - 1\<rparr>) ba1 = Inr ba'" "r = Some p"
    using rest by (auto simp: bindE_Inr_iff)
  then show ?thesis using get_put_pcp ys by fastforce
qed

definition example_hot :: PerCpuPages where
  "example_hot = \<lparr>pcp_count = 2, pcp_low = 0, pcp_high = 6, pcp_batch = 2, page_list = [3, 4]\<rparr>"

theorem buffered_rmqueue_same_page_witness:
  "\<exists>ba1 ba2. buffered_rmqueue example_raw 0 Zone_Normal 0 0 (example_alloc example_hot) = Inr (Some 3, ba1) \<and>
     buffered_rmqueue example_raw 0 Zone_Normal 0 0 ba1 = Inr (Some 3, ba2)"
proof -
  have pps: "get_pcp (Zone_Normal, 0, (0 :: u32) AND GFP_COLD \<noteq> 0) (example_alloc example_hot) = Inr example_hot"
    by (simp add: get_pcp_def example_alloc_def get_cpu_hot_pages_def)
  obtain ba1 where run1: "buffered_rmqueue example_raw 0 Zone_Normal 0 0 (example_alloc example_hot) = Inr (Some 3, ba1)"
    and pps1: "get_pcp (Zone_Normal, 0, (0 :: u32) AND GFP_COLD \<noteq> 0) ba1 = Inr (example_hot\<lparr>pcp_count := 1\<rparr>)"
    using buffered_hit [OF pps, of 3 "[4]" example_raw] by (auto simp: example_hot_def)
  obtain r ba2 where run2: "buffered_rmqueue example_raw 0 Zone_Normal 0 0 ba1 = Inr (r, ba2)"
    using buffered_hit [OF pps1, of 3 "[4]" example_raw] by (auto simp: example_hot_def)
  have "r = Some 3"
    using buffered_rmqueue_same_page [OF pps1 _ run2] by (simp add: example_hot_def)
  then show ?thesis using run1 run2 by blast
qed

end
