(* ===== verification/Tlb_Entry.thy ===== *)
theory Tlb_Entry
  imports Mem_Objects
begin

text \<open>
  The entries of the TLBs, \<open>tlb/tlb_entry.h\<close>. The TLB classes are templates over the entry
  class \<open>T\<close>; it is a value of \<open>entry_class\<close> here, which selects the methods that
  \<open>TlbEntry\<close> and \<open>ExtendTlbEntry\<close> override. One record holds the fields of both: the last
  two belong to \<open>ExtendTlbEntry\<close> only, and no method of \<open>TlbEntry\<close> reads them.
\<close>

section \<open>Entries\<close>

record BaseTlbEntry =
  v_page_no :: address
  p_page_no :: address
  te_flag :: u16
  te_lru_seq :: u64
  access_counter :: address
  te_life_time :: u32

datatype entry_class = TlbEntry | ExtendTlbEntry

definition GLOBAL_flag :: u16 where "GLOBAL_flag = 0x01"
definition UNCACHEABLE_flag :: u16 where "UNCACHEABLE_flag = 0x02"
definition PAT_flag :: u16 where "PAT_flag = 0x08"
definition DRAMVALID_flag :: u16 where "DRAMVALID_flag = 0x20"
definition VALID_flag :: u16 where "VALID_flag = 0x80"

lemmas tlb_flag_defs = GLOBAL_flag_def UNCACHEABLE_flag_def PAT_flag_def DRAMVALID_flag_def VALID_flag_def

definition te_set :: "u16 \<Rightarrow> BaseTlbEntry \<Rightarrow> BaseTlbEntry" where
  "te_set f e = e\<lparr>te_flag := te_flag e OR f\<rparr>"

definition te_clear :: "u16 \<Rightarrow> BaseTlbEntry \<Rightarrow> BaseTlbEntry" where
  "te_clear f e = e\<lparr>te_flag := te_flag e AND NOT f\<rparr>"

definition is_page_global :: "BaseTlbEntry \<Rightarrow> bool" where
  "is_page_global e \<longleftrightarrow> te_flag e AND GLOBAL_flag \<noteq> 0"

definition is_page_cacheable :: "BaseTlbEntry \<Rightarrow> bool" where
  "is_page_cacheable e \<longleftrightarrow> te_flag e AND UNCACHEABLE_flag = 0"

definition PAT_enabled :: "BaseTlbEntry \<Rightarrow> bool" where
  "PAT_enabled e \<longleftrightarrow> te_flag e AND PAT_flag \<noteq> 0"

definition te_set_page_global :: "bool \<Rightarrow> BaseTlbEntry \<Rightarrow> BaseTlbEntry" where
  "te_set_page_global select e = (if select then te_set GLOBAL_flag e else te_clear GLOBAL_flag e)"

definition set_page_cacheable :: "bool \<Rightarrow> BaseTlbEntry \<Rightarrow> BaseTlbEntry" where
  "set_page_cacheable select e = (if select then te_clear UNCACHEABLE_flag e else te_set UNCACHEABLE_flag e)"

definition enable_PAT :: "bool \<Rightarrow> BaseTlbEntry \<Rightarrow> BaseTlbEntry" where
  "enable_PAT select e = (if select then te_set PAT_flag e else te_clear PAT_flag e)"

text \<open>The dirty bit of an entry is the \<open>DIRTY\<close> of \<open>DRAMBufferBlockFlag\<close>.\<close>

definition te_is_dirty :: "BaseTlbEntry \<Rightarrow> bool" where
  "te_is_dirty e \<longleftrightarrow> te_flag e AND DIRTY_flag \<noteq> 0"

definition te_set_dirty :: "BaseTlbEntry \<Rightarrow> BaseTlbEntry" where
  "te_set_dirty e = te_set DIRTY_flag e"

definition te_is_valid :: "BaseTlbEntry \<Rightarrow> bool" where
  "te_is_valid e \<longleftrightarrow> te_flag e AND VALID_flag \<noteq> 0"

definition te_set_valid :: "BaseTlbEntry \<Rightarrow> BaseTlbEntry" where
  "te_set_valid e = te_set VALID_flag e"

definition te_set_clean :: "BaseTlbEntry \<Rightarrow> BaseTlbEntry" where
  "te_set_clean e = te_clear DIRTY_flag e"

definition te_set_invalid :: "BaseTlbEntry \<Rightarrow> BaseTlbEntry" where
  "te_set_invalid e = e\<lparr>te_flag := 0\<rparr>"

definition te_map :: "address \<Rightarrow> address \<Rightarrow> BaseTlbEntry \<Rightarrow> BaseTlbEntry" where
  "te_map vpn ppn e = e\<lparr>v_page_no := vpn, p_page_no := ppn\<rparr>"

definition update_vpn :: "address \<Rightarrow> BaseTlbEntry \<Rightarrow> BaseTlbEntry" where
  "update_vpn new_vpn e = e\<lparr>v_page_no := new_vpn\<rparr>"

definition update_ppn :: "address \<Rightarrow> BaseTlbEntry \<Rightarrow> BaseTlbEntry" where
  "update_ppn new_ppn e = e\<lparr>p_page_no := new_ppn\<rparr>"

section \<open>Methods that depend on the class\<close>

definition set_in_dram :: "bool \<Rightarrow> BaseTlbEntry \<Rightarrow> BaseTlbEntry" where
  "set_in_dram is_dram e =
     te_set_clean (if is_dram then te_set DRAMVALID_flag e else te_clear DRAMVALID_flag e)"

text \<open>
  The constructor \<open>T(vpn, ppn, is_dram)\<close>; \<open>raw\<close> is the memory of the object, whose
  \<open>life_time\<close> the constructor of \<open>ExtendTlbEntry\<close> does not set.
\<close>

definition TlbEntry_new :: "entry_class \<Rightarrow> BaseTlbEntry \<Rightarrow> address \<Rightarrow> address \<Rightarrow> bool \<Rightarrow> BaseTlbEntry" where
  "TlbEntry_new T raw vpn ppn is_dram =
     (let e = raw\<lparr>v_page_no := vpn, p_page_no := ppn, te_flag := 0, te_lru_seq := 0\<rparr>
      in case T of TlbEntry \<Rightarrow> e | ExtendTlbEntry \<Rightarrow> set_in_dram is_dram (e\<lparr>access_counter := 0\<rparr>))"

text \<open>\<open>operator =\<close>: the sequence number of the target stays.\<close>

definition te_assign :: "entry_class \<Rightarrow> BaseTlbEntry \<Rightarrow> BaseTlbEntry \<Rightarrow> BaseTlbEntry" where
  "te_assign T dst src =
     (let e = dst\<lparr>v_page_no := v_page_no src, p_page_no := p_page_no src, te_flag := te_flag src\<rparr>
      in case T of
           TlbEntry \<Rightarrow> e
         | ExtendTlbEntry \<Rightarrow> e\<lparr>access_counter := access_counter src, te_life_time := te_life_time src\<rparr>)"

definition te_remap :: "entry_class \<Rightarrow> address \<Rightarrow> bool \<Rightarrow> BaseTlbEntry \<Rightarrow> BaseTlbEntry" where
  "te_remap T ppn is_dram e =
     (case T of TlbEntry \<Rightarrow> e
      | ExtendTlbEntry \<Rightarrow> set_in_dram is_dram (e\<lparr>p_page_no := ppn, access_counter := 0\<rparr>))"

definition is_in_dram :: "entry_class \<Rightarrow> BaseTlbEntry \<Rightarrow> bool" where
  "is_in_dram T e =
     (case T of TlbEntry \<Rightarrow> False | ExtendTlbEntry \<Rightarrow> te_flag e AND DRAMVALID_flag \<noteq> 0)"

definition get_counter :: "entry_class \<Rightarrow> BaseTlbEntry \<Rightarrow> address" where
  "get_counter T e = (case T of TlbEntry \<Rightarrow> INVALID_PAGE_ADDR | ExtendTlbEntry \<Rightarrow> access_counter e)"

definition te_clear_counter :: "entry_class \<Rightarrow> BaseTlbEntry \<Rightarrow> BaseTlbEntry" where
  "te_clear_counter T e =
     (case T of TlbEntry \<Rightarrow> e | ExtendTlbEntry \<Rightarrow> e\<lparr>access_counter := 0\<rparr>)"

section \<open>Access counters\<close>

datatype TLBSearchResult = OverThres | unOverThres | InDRAM

definition set_counter :: "address \<Rightarrow> BaseTlbEntry \<Rightarrow> BaseTlbEntry" where
  "set_counter counter e = e\<lparr>access_counter := counter\<rparr>"

definition incre_counter ::
  "GlobSimInfo \<Rightarrow> bool \<Rightarrow> u32 \<Rightarrow> u32 \<Rightarrow> u32 \<Rightarrow> BaseTlbEntry \<Rightarrow> TLBSearchResult \<times> BaseTlbEntry" where
  "incre_counter zinfo is_write write_incre_step read_incre_step thres e =
     (if \<not> is_in_dram ExtendTlbEntry e then
        let e = (if multi_queue zinfo then e\<lparr>te_life_time := life_time_cfg zinfo\<rparr> else e);
            e = e\<lparr>access_counter := access_counter e +
                   (if is_write then ucast write_incre_step else ucast read_incre_step)\<rparr>
        in (if access_counter e \<ge> ucast thres then OverThres else unOverThres, e)
      else (InDRAM, e))"

definition decre_lifetime :: "GlobSimInfo \<Rightarrow> BaseTlbEntry \<Rightarrow> BaseTlbEntry res" where
  "decre_lifetime zinfo e =
     bindE (assertE (multi_queue zinfo)) (\<lambda>_.
       let e = e\<lparr>te_life_time := te_life_time e - 1\<rparr>
       in Inr (if te_life_time e = 0
               then e\<lparr>access_counter := drop_bit 2 (access_counter e), te_life_time := life_time_cfg zinfo\<rparr>
               else e))"

section \<open>Facts\<close>

lemma flag_push_bit:
  "GLOBAL_flag = push_bit 0 1" "UNCACHEABLE_flag = push_bit 1 1" "PAT_flag = push_bit 3 1"
  "DRAMVALID_flag = push_bit 5 1" "VALID_flag = push_bit 7 1" "DIRTY_flag = push_bit 1 1"
  by (simp_all add: tlb_flag_defs DIRTY_flag_def push_bit_eq_mult)

lemma te_bits:
  "is_page_global e \<longleftrightarrow> bit (te_flag e) 0" "is_page_cacheable e \<longleftrightarrow> \<not> bit (te_flag e) 1"
  "PAT_enabled e \<longleftrightarrow> bit (te_flag e) 3" "te_is_dirty e \<longleftrightarrow> bit (te_flag e) 1"
  "te_is_valid e \<longleftrightarrow> bit (te_flag e) 7" "is_in_dram ExtendTlbEntry e \<longleftrightarrow> bit (te_flag e) 5"
  by (simp_all add: bit_iff_and_push_bit_not_eq_0 flag_push_bit is_page_global_def is_page_cacheable_def
      PAT_enabled_def te_is_dirty_def te_is_valid_def is_in_dram_def)

lemma flag_bits [simp]:
  "bit GLOBAL_flag n \<longleftrightarrow> n = 0" "bit UNCACHEABLE_flag n \<longleftrightarrow> n = 1" "bit PAT_flag n \<longleftrightarrow> n = 3"
  "bit DRAMVALID_flag n \<longleftrightarrow> n = 5" "bit VALID_flag n \<longleftrightarrow> n = 7" "bit DIRTY_flag n \<longleftrightarrow> n = 1"
  unfolding flag_push_bit bit_push_bit_iff by (auto simp: bit_1_iff)

lemma te_set_bits:
  "bit (te_flag (te_set f e)) n \<longleftrightarrow> bit (te_flag e) n \<or> bit f n"
  "bit (te_flag (te_clear f e)) n \<longleftrightarrow> bit (te_flag e) n \<and> \<not> bit f n"
  by (auto simp: te_set_def te_clear_def bit_simps dest: bit_imp_le_length)

lemmas te_flag_methods = te_set_page_global_def set_page_cacheable_def enable_PAT_def te_set_dirty_def
  te_set_valid_def te_set_clean_def set_in_dram_def

lemma te_valid_simps [simp]:
  "te_is_valid (te_set_valid e)" "\<not> te_is_valid (te_set_invalid e)"
  "te_is_valid (te_set_dirty e) = te_is_valid e" "te_is_valid (set_in_dram b e) = te_is_valid e"
  "is_in_dram ExtendTlbEntry (te_set_valid e) = is_in_dram ExtendTlbEntry e"
  "is_in_dram ExtendTlbEntry (te_set_dirty e) = is_in_dram ExtendTlbEntry e"
  "is_in_dram ExtendTlbEntry (set_in_dram b e) = b" "\<not> te_is_dirty (set_in_dram b e)"
  "te_is_dirty (te_set_dirty e)" "te_is_dirty (te_set_valid e) = te_is_dirty e"
  by (simp_all add: te_bits te_flag_methods te_set_bits te_set_invalid_def)

lemma te_fields [simp]:
  "v_page_no (te_set f e) = v_page_no e" "p_page_no (te_set f e) = p_page_no e"
  "te_lru_seq (te_set f e) = te_lru_seq e" "access_counter (te_set f e) = access_counter e"
  "v_page_no (te_clear f e) = v_page_no e" "p_page_no (te_clear f e) = p_page_no e"
  "te_lru_seq (te_clear f e) = te_lru_seq e" "access_counter (te_clear f e) = access_counter e"
  "v_page_no (te_set_valid e) = v_page_no e" "p_page_no (te_set_valid e) = p_page_no e"
  "te_lru_seq (te_set_valid e) = te_lru_seq e" "access_counter (te_set_valid e) = access_counter e"
  "v_page_no (te_set_invalid e) = v_page_no e" "p_page_no (te_set_invalid e) = p_page_no e"
  "te_lru_seq (te_set_invalid e) = te_lru_seq e"
  "v_page_no (te_set_dirty e) = v_page_no e" "p_page_no (te_set_dirty e) = p_page_no e"
  "te_lru_seq (te_set_dirty e) = te_lru_seq e"
  "v_page_no (set_in_dram b e) = v_page_no e" "p_page_no (set_in_dram b e) = p_page_no e"
  "te_lru_seq (set_in_dram b e) = te_lru_seq e" "access_counter (set_in_dram b e) = access_counter e"
  by (simp_all add: te_set_def te_clear_def te_set_valid_def te_set_invalid_def te_set_dirty_def
      set_in_dram_def te_set_clean_def)

lemma te_new_fields [simp]:
  "v_page_no (TlbEntry_new T raw vpn ppn d) = vpn" "p_page_no (TlbEntry_new T raw vpn ppn d) = ppn"
  by (simp_all add: TlbEntry_new_def Let_def split: entry_class.split)

lemma te_assign_fields [simp]:
  "v_page_no (te_assign T dst src) = v_page_no src" "p_page_no (te_assign T dst src) = p_page_no src"
  by (simp_all add: te_assign_def Let_def split: entry_class.split)

end
