(* ===== verification/Common_Tlb.thy ===== *)
theory Common_Tlb
  imports Tlb_Entry Doubles
begin

text \<open>
  The fully associative TLB \<open>CommonTlb<T>\<close> of \<open>tlb/common_tlb.h\<close>. The entries live in an
  array; \<open>free_entry_list\<close>, \<open>tlb_trie\<close> (by virtual page) and \<open>tlb_trie_pa\<close> (by physical
  page) hold pointers to them, here indices into the array.

  The page table walker is an object of its own that the TLB calls. Its methods are arguments
  of the operations that call them. \<open>access\<close> takes and returns the TLB as well, because a page
  fault shoots down entries of every TLB, also of the one that is waiting; \<open>write_through\<close>
  touches no TLB. The type \<open>'w\<close> is the rest of the machine.
\<close>

section \<open>State\<close>

record CommonTlb =
  tlb_class :: entry_class
  tlb_entry_num :: u32
  hit_latency :: u32
  response_latency :: u32
  insert_num :: u32
  tlb_access_time :: u64
  tlb_hit_time :: u64
  tlb_evict_time :: u64
  tlb :: "BaseTlbEntry list"
  free_entry_list :: "nat list"
  tlb_lru_seq :: u32
  tlb_trie :: "address \<Rightarrow> nat option"
  tlb_trie_pa :: "address \<Rightarrow> nat option"
  evict_policy :: EVICTSTYLE

text \<open>
  \<open>new T\<close> leaves the fields of an entry as the memory had them (\<open>raw\<close>), and the
  constructor does not set \<open>lru_seq\<close> (\<open>raw_seq\<close>).
\<close>

definition CommonTlb_new ::
  "(nat \<Rightarrow> BaseTlbEntry) \<Rightarrow> u32 \<Rightarrow> entry_class \<Rightarrow> u32 \<Rightarrow> u32 \<Rightarrow> u32 \<Rightarrow> EVICTSTYLE \<Rightarrow> CommonTlb res" where
  "CommonTlb_new raw raw_seq T tlb_size hit_lat res_lat policy =
     bindE (assertE (tlb_size > 0)) (\<lambda>_.
     Inr \<lparr>tlb_class = T, tlb_entry_num = tlb_size, hit_latency = hit_lat, response_latency = res_lat,
          insert_num = 0, tlb_access_time = 0, tlb_hit_time = 0, tlb_evict_time = 0,
          tlb = map raw [0..<unat tlb_size], free_entry_list = [0..<unat tlb_size],
          tlb_lru_seq = raw_seq, tlb_trie = (\<lambda>_. None), tlb_trie_pa = (\<lambda>_. None),
          evict_policy = policy\<rparr>)"

section \<open>Look up\<close>

text \<open>
  \<open>++lru_seq\<close> on the 32-bit counter of the TLB, stored into the 64-bit field of the entry
  with the sign extended.
\<close>

definition touch :: "nat \<Rightarrow> CommonTlb \<Rightarrow> CommonTlb" where
  "touch i t =
     (let s = tlb_lru_seq t + 1
      in t\<lparr>tlb_lru_seq := s, tlb := (tlb t)[i := (tlb t ! i)\<lparr>te_lru_seq := scast s\<rparr>]\<rparr>)"

definition ct_look_up :: "address \<Rightarrow> bool \<Rightarrow> CommonTlb \<Rightarrow> nat option \<times> CommonTlb" where
  "ct_look_up vpage_no update_lru t =
     (case tlb_trie t vpage_no of
        None \<Rightarrow> (None, t)
      | Some i \<Rightarrow> (Some i, if te_is_valid (tlb t ! i) \<and> update_lru then touch i t else t))"

section \<open>Eviction\<close>

text \<open>The entry with the smallest sequence number; an invalid entry is passed over.\<close>

definition lru_min :: "BaseTlbEntry list \<Rightarrow> nat \<Rightarrow> nat \<Rightarrow> nat" where
  "lru_min es i min_lru_entry =
     (if te_is_valid (es ! i) \<and> te_lru_seq (es ! i) < te_lru_seq (es ! min_lru_entry)
      then i else min_lru_entry)"

definition lru_evict :: "CommonTlb \<Rightarrow> nat res" where
  "lru_evict t =
     bindE (assertE (free_entry_list t = [])) (\<lambda>_.
     Inr (fold (lru_min (tlb t)) [1..<unat (tlb_entry_num t)] 0))"

definition hot_monitor_tlb_evict ::
  "GlobSimInfo \<Rightarrow> (MemReq \<Rightarrow> 'w \<Rightarrow> (MemReq \<times> 'w) res) \<Rightarrow> CommonTlb \<Rightarrow> 'w \<Rightarrow> (nat \<times> 'w) res" where
  "hot_monitor_tlb_evict zinfo write_through t w =
     bindE (lru_evict t) (\<lambda>i.
       let e = tlb t ! i
       in if multi_queue zinfo \<and> \<not> is_in_dram (tlb_class t) e then
            let wb_req = \<lparr>lineAddr = push_bit (page_shift zinfo) (v_page_no e), type_of = WRITEBACK,
                          childId = ucast (u64_of_dbl (dmul (dbl_of_u64 (get_counter (tlb_class t) e)) (1 / 2))),
                          cycle = 0\<rparr>
            in bindE (write_through wb_req w) (\<lambda>(_, w). Inr (i, w))
          else Inr (i, w))"

definition ct_evict ::
  "GlobSimInfo \<Rightarrow> (MemReq \<Rightarrow> 'w \<Rightarrow> (MemReq \<times> 'w) res) \<Rightarrow> CommonTlb \<Rightarrow> 'w \<Rightarrow> (nat \<times> CommonTlb \<times> 'w) res" where
  "ct_evict zinfo write_through t w =
     bindE (case evict_policy t of
              LRU \<Rightarrow> bindE (lru_evict t) (\<lambda>i. Inr (i, w))
            | HotMonitorTLBLRU \<Rightarrow> hot_monitor_tlb_evict zinfo write_through t w
            | HOTNESSAware \<Rightarrow> Inl Null_deref) (\<lambda>(i, w).
       let e = tlb t ! i
       in bindE (assertE (tlb_trie t (v_page_no e) \<noteq> None)) (\<lambda>_.
          Inr (i, t\<lparr>tlb_trie := (tlb_trie t)(v_page_no e := None),
                    tlb_trie_pa := (tlb_trie_pa t)(p_page_no e := None),
                    tlb := (tlb t)[i := te_set_invalid e],
                    free_entry_list := free_entry_list t @ [i]\<rparr>, w)))"

section \<open>Insertion\<close>

text \<open>The second half of \<open>insert\<close>: the first free entry takes the translation.\<close>

definition fill_entry :: "address \<Rightarrow> BaseTlbEntry \<Rightarrow> nat \<Rightarrow> CommonTlb \<Rightarrow> CommonTlb" where
  "fill_entry vpage_no entry i t =
     (let s = tlb_lru_seq t + 1;
          e = (te_set_valid (te_assign (tlb_class t) (tlb t ! i) entry))\<lparr>te_lru_seq := scast s\<rparr>
      in t\<lparr>tlb_lru_seq := s, tlb := (tlb t)[i := e], tlb_trie := (tlb_trie t)(vpage_no \<mapsto> i),
           tlb_trie_pa := (tlb_trie_pa t)(p_page_no e \<mapsto> i)\<rparr>)"

definition ct_insert ::
  "GlobSimInfo \<Rightarrow> (MemReq \<Rightarrow> 'w \<Rightarrow> (MemReq \<times> 'w) res) \<Rightarrow> address \<Rightarrow> BaseTlbEntry \<Rightarrow> CommonTlb \<Rightarrow> 'w \<Rightarrow>
   (nat option \<times> CommonTlb \<times> 'w) res" where
  "ct_insert zinfo write_through vpage_no entry t w =
     bindE (assertE (tlb_trie t vpage_no = None)) (\<lambda>_.
     bindE (if free_entry_list t = [] then
              bindE (ct_evict zinfo write_through (t\<lparr>tlb_evict_time := tlb_evict_time t + 1\<rparr>) w)
                (\<lambda>(_, t, w). Inr (t, w))
            else Inr (t, w)) (\<lambda>(t, w).
     case free_entry_list t of
       i # is \<Rightarrow> Inr (Some i, fill_entry vpage_no entry i (t\<lparr>free_entry_list := is\<rparr>), w)
     | [] \<Rightarrow> Inr (None, t, w)))"

section \<open>Access\<close>

definition vpn_of :: "GlobSimInfo \<Rightarrow> address \<Rightarrow> address" where
  "vpn_of zinfo virt_addr = drop_bit (page_shift zinfo) virt_addr"

definition paddr_of :: "GlobSimInfo \<Rightarrow> address \<Rightarrow> address \<Rightarrow> address" where
  "paddr_of zinfo ppn virt_addr =
     push_bit (page_shift zinfo) ppn OR (virt_addr AND (page_size zinfo - 1))"

text \<open>A miss: walk the page table and keep the translation.\<close>

definition ct_miss ::
  "GlobSimInfo \<Rightarrow> BaseTlbEntry \<Rightarrow> (MemReq \<Rightarrow> CommonTlb \<Rightarrow> 'w \<Rightarrow> (address \<times> MemReq \<times> CommonTlb \<times> 'w) res) \<Rightarrow>
   (MemReq \<Rightarrow> 'w \<Rightarrow> (MemReq \<times> 'w) res) \<Rightarrow> MemReq \<Rightarrow> CommonTlb \<Rightarrow> 'w \<Rightarrow>
   (address \<times> MemReq \<times> CommonTlb \<times> 'w) res" where
  "ct_miss zinfo raw walk write_through req t w =
     (let vpn = vpn_of zinfo (lineAddr req)
      in bindE (walk req t w) (\<lambda>(ppn, req, t, w).
         let new_entry = te_set_valid (TlbEntry_new (tlb_class t) raw vpn ppn False)
         in bindE (ct_insert zinfo write_through vpn new_entry (t\<lparr>insert_num := insert_num t + 1\<rparr>) w)
              (\<lambda>(_, t, w). Inr (ppn, req, t, w))))"

definition ct_access ::
  "GlobSimInfo \<Rightarrow> BaseTlbEntry \<Rightarrow> (MemReq \<Rightarrow> CommonTlb \<Rightarrow> 'w \<Rightarrow> (address \<times> MemReq \<times> CommonTlb \<times> 'w) res) \<Rightarrow>
   (MemReq \<Rightarrow> 'w \<Rightarrow> (MemReq \<times> 'w) res) \<Rightarrow> MemReq \<Rightarrow> CommonTlb \<Rightarrow> 'w \<Rightarrow>
   (address \<times> MemReq \<times> CommonTlb \<times> 'w) res" where
  "ct_access zinfo raw walk write_through req t w =
     (let virt_addr = lineAddr req;
          (entry, t) = ct_look_up (vpn_of zinfo virt_addr) True (t\<lparr>tlb_access_time := tlb_access_time t + 1\<rparr>)
      in bindE (case entry of
           None \<Rightarrow> ct_miss zinfo raw walk write_through req t w
         | Some i \<Rightarrow> Inr (p_page_no (tlb t ! i), add_cycles req (hit_latency t),
                         t\<lparr>tlb_hit_time := tlb_hit_time t + 1\<rparr>, w)) (\<lambda>(ppn, req, t, w).
         Inr (paddr_of zinfo ppn virt_addr, add_cycles req (response_latency t), t, w)))"

section \<open>Removal\<close>

definition ct_flush_all :: "CommonTlb \<Rightarrow> CommonTlb" where
  "ct_flush_all t =
     t\<lparr>tlb_trie_pa := (\<lambda>_. None), tlb_trie := (\<lambda>_. None), tlb := map te_set_invalid (tlb t),
       free_entry_list := [0..<unat (tlb_entry_num t)]\<rparr>"

definition ct_delete_entry :: "address \<Rightarrow> CommonTlb \<Rightarrow> bool \<times> CommonTlb" where
  "ct_delete_entry vpage_no t =
     (case ct_look_up vpage_no True t of
        (None, t) \<Rightarrow> (False, t)
      | (Some i, t) \<Rightarrow>
          let e = tlb t ! i
          in (True, t\<lparr>tlb_trie := (tlb_trie t)(v_page_no e := None),
                      tlb_trie_pa := (tlb_trie_pa t)(p_page_no e := None),
                      tlb := (tlb t)[i := te_set_invalid e],
                      free_entry_list := free_entry_list t @ [i]\<rparr>))"

definition ct_clear_counter :: "CommonTlb \<Rightarrow> CommonTlb" where
  "ct_clear_counter t = t\<lparr>tlb := map (te_clear_counter (tlb_class t)) (tlb t)\<rparr>"

definition ct_calculate_stats :: "CommonTlb \<Rightarrow> u64" where
  "ct_calculate_stats t = tlb_access_time t"

section \<open>Invariant\<close>

text \<open>
  The hash table by virtual page and the list of free entries share the array between them:
  the table is a bijection with the entries in use. The table by physical page is only sound,
  as two virtual pages may share a physical one.
\<close>

definition used :: "CommonTlb \<Rightarrow> nat \<Rightarrow> bool" where
  "used t i \<longleftrightarrow> i < length (tlb t) \<and> i \<notin> set (free_entry_list t)"

definition tlb_inv :: "CommonTlb \<Rightarrow> bool" where
  "tlb_inv t \<longleftrightarrow>
     length (tlb t) = unat (tlb_entry_num t) \<and> tlb t \<noteq> [] \<and>
     distinct (free_entry_list t) \<and> set (free_entry_list t) \<subseteq> {..<length (tlb t)} \<and>
     (\<forall>v i. tlb_trie t v = Some i \<longleftrightarrow> used t i \<and> v_page_no (tlb t ! i) = v) \<and>
     (\<forall>p i. tlb_trie_pa t p = Some i \<longrightarrow> used t i \<and> p_page_no (tlb t ! i) = p)"

lemma tlb_inv_trie: "tlb_inv t \<Longrightarrow> tlb_trie t v = Some i \<Longrightarrow> used t i \<and> v_page_no (tlb t ! i) = v"
  by (simp add: tlb_inv_def)

lemma tlb_inv_used: "tlb_inv t \<Longrightarrow> used t i \<Longrightarrow> tlb_trie t (v_page_no (tlb t ! i)) = Some i"
  by (simp add: tlb_inv_def)

lemma CommonTlb_new_inv:
  assumes "tlb_size \<noteq> 0"
  shows "\<exists>t. CommonTlb_new raw raw_seq T tlb_size hit_lat res_lat policy = Inr t \<and> tlb_inv t \<and>
    tlb_trie t = (\<lambda>_. None)"
  using assms by (auto simp: CommonTlb_new_def tlb_inv_def used_def word_gt_0 unat_eq_0)

text \<open>Changing statistics or the fields of an entry other than the page numbers keeps it.\<close>

lemma tlb_inv_cong:
  assumes "tlb_inv t" and "tlb_entry_num t' = tlb_entry_num t" and "free_entry_list t' = free_entry_list t"
    and "tlb_trie t' = tlb_trie t" and "tlb_trie_pa t' = tlb_trie_pa t"
    and "map v_page_no (tlb t') = map v_page_no (tlb t)" and "map p_page_no (tlb t') = map p_page_no (tlb t)"
  shows "tlb_inv t'"
proof -
  have len: "length (tlb t') = length (tlb t)" using assms(6) by (rule map_eq_imp_length_eq)
  then have u: "used t' = used t" using assms(3) by (simp add: used_def fun_eq_iff)
  have pages: "v_page_no (tlb t' ! i) = v_page_no (tlb t ! i)" "p_page_no (tlb t' ! i) = p_page_no (tlb t ! i)"
    if "used t i" for i
    using that assms(6,7) len by (metis nth_map used_def)+
  have "tlb_trie t' v = Some i \<longleftrightarrow> used t' i \<and> v_page_no (tlb t' ! i) = v" for v i
    using assms(1) pages unfolding u assms(4) by (auto simp: tlb_inv_def)
  moreover have "tlb_trie_pa t' p = Some i \<longrightarrow> used t' i \<and> p_page_no (tlb t' ! i) = p" for p i
    using assms(1) pages unfolding u assms(5) by (auto simp: tlb_inv_def)
  ultimately show ?thesis
    using assms(1,2,3) len unfolding tlb_inv_def by (metis length_0_conv)
qed

lemma map_list_update_same: "f y = f (xs ! i) \<Longrightarrow> map f (xs[i := y]) = map f xs"
  by (simp add: map_update list_update_same_conv) (metis list_update_id map_update)

lemma touch_inv [intro]: "tlb_inv t \<Longrightarrow> tlb_inv (touch i t)"
  by (erule tlb_inv_cong) (simp_all add: touch_def Let_def map_list_update_same)

lemma ct_look_up_inv: "tlb_inv t \<Longrightarrow> tlb_inv (snd (ct_look_up v b t))"
  by (auto simp: ct_look_up_def split: option.splits)

text \<open>Dropping an entry in use, the common part of \<open>evict\<close> and \<open>delete_entry\<close>.\<close>

definition drop_entry :: "nat \<Rightarrow> CommonTlb \<Rightarrow> CommonTlb" where
  "drop_entry i t =
     t\<lparr>tlb_trie := (tlb_trie t)(v_page_no (tlb t ! i) := None),
       tlb_trie_pa := (tlb_trie_pa t)(p_page_no (tlb t ! i) := None),
       tlb := (tlb t)[i := te_set_invalid (tlb t ! i)],
       free_entry_list := free_entry_list t @ [i]\<rparr>"

lemma drop_entry_inv:
  assumes inv: "tlb_inv t" and i: "used t i"
  shows "tlb_inv (drop_entry i t)"
proof -
  have pages: "v_page_no ((tlb t)[i := te_set_invalid (tlb t ! i)] ! j) = v_page_no (tlb t ! j)"
    "p_page_no ((tlb t)[i := te_set_invalid (tlb t ! i)] ! j) = p_page_no (tlb t ! j)" for j
    using i by (auto simp: nth_list_update used_def)
  have u: "used (drop_entry i t) j \<longleftrightarrow> used t j \<and> j \<noteq> i" for j
    by (auto simp: used_def drop_entry_def)
  have "tlb_trie (drop_entry i t) v = Some j \<longleftrightarrow> used (drop_entry i t) j \<and> v_page_no (tlb (drop_entry i t) ! j) = v"
    for v j
  proof -
    have "tlb_trie t v = Some j \<longleftrightarrow> used t j \<and> v_page_no (tlb t ! j) = v" using inv by (simp add: tlb_inv_def)
    moreover have "tlb_trie t (v_page_no (tlb t ! i)) = Some i" by (rule tlb_inv_used [OF inv i])
    ultimately show ?thesis unfolding u by (auto simp: drop_entry_def pages)
  qed
  moreover have "tlb_trie_pa (drop_entry i t) p = Some j \<longrightarrow>
      used (drop_entry i t) j \<and> p_page_no (tlb (drop_entry i t) ! j) = p" for p j
  proof -
    have "tlb_trie_pa t p = Some j \<longrightarrow> used t j \<and> p_page_no (tlb t ! j) = p" using inv by (simp add: tlb_inv_def)
    then show ?thesis unfolding u by (auto simp: drop_entry_def pages)
  qed
  moreover have "length (tlb (drop_entry i t)) = unat (tlb_entry_num (drop_entry i t))"
      "tlb (drop_entry i t) \<noteq> []" "distinct (free_entry_list (drop_entry i t))"
      "set (free_entry_list (drop_entry i t)) \<subseteq> {..<length (tlb (drop_entry i t))}"
    using inv i by (auto simp: tlb_inv_def drop_entry_def used_def)
  ultimately show ?thesis unfolding tlb_inv_def by blast
qed

lemma fill_entry_inv:
  assumes inv: "tlb_inv t" and free: "free_entry_list t = i # is" and v: "tlb_trie t v = None"
    and e: "v_page_no e = v"
  shows "tlb_inv (fill_entry v e i (t\<lparr>free_entry_list := is\<rparr>))"
proof -
  define t' where "t' = fill_entry v e i (t\<lparr>free_entry_list := is\<rparr>)"
  have i: "i < length (tlb t)" "i \<notin> set is" using inv free by (auto simp: tlb_inv_def)
  have u: "used t' j \<longleftrightarrow> used t j \<or> j = i" for j
    using i free by (auto simp: used_def t'_def fill_entry_def Let_def)
  have ni: "\<not> used t i" using free by (simp add: used_def)
  have pages: "v_page_no (tlb t' ! j) = (if j = i then v else v_page_no (tlb t ! j))"
    "p_page_no (tlb t' ! j) = (if j = i then p_page_no e else p_page_no (tlb t ! j))" for j
    using i e by (auto simp: t'_def fill_entry_def Let_def nth_list_update)
  have "tlb_trie t' x = Some j \<longleftrightarrow> used t' j \<and> v_page_no (tlb t' ! j) = x" for x j
  proof -
    have "tlb_trie t' x = (if x = v then Some i else tlb_trie t x)" by (simp add: t'_def fill_entry_def Let_def)
    moreover have "used t j \<Longrightarrow> v_page_no (tlb t ! j) \<noteq> v" using tlb_inv_used [OF inv] v by fastforce
    moreover have "tlb_trie t x = Some j \<longleftrightarrow> used t j \<and> v_page_no (tlb t ! j) = x"
      using inv by (simp add: tlb_inv_def)
    ultimately show ?thesis using ni unfolding u pages by auto
  qed
  moreover have "tlb_trie_pa t' x = Some j \<longrightarrow> used t' j \<and> p_page_no (tlb t' ! j) = x" for x j
  proof -
    have "tlb_trie_pa t' x = (if x = p_page_no e then Some i else tlb_trie_pa t x)"
      by (simp add: t'_def fill_entry_def Let_def)
    moreover have "tlb_trie_pa t x = Some j \<longrightarrow> used t j \<and> p_page_no (tlb t ! j) = x"
      using inv by (simp add: tlb_inv_def)
    ultimately show ?thesis using ni unfolding u pages by auto
  qed
  moreover have "length (tlb t') = unat (tlb_entry_num t')" "tlb t' \<noteq> []" "distinct (free_entry_list t')"
      "set (free_entry_list t') \<subseteq> {..<length (tlb t')}"
    using inv free by (auto simp: tlb_inv_def t'_def fill_entry_def Let_def)
  ultimately show ?thesis unfolding t'_def tlb_inv_def by blast
qed

lemma fold_lru_min_in: "fold (lru_min es) is m \<in> insert m (set is)"
  by (induction "is" arbitrary: m) (auto simp: lru_min_def)

definition victim :: "CommonTlb \<Rightarrow> nat" where
  "victim t = fold (lru_min (tlb t)) [1..<length (tlb t)] 0"

lemma victim_used:
  assumes "tlb_inv t" and "free_entry_list t = []"
  shows "used t (victim t)"
proof -
  have "tlb t \<noteq> []" using assms(1) by (simp add: tlb_inv_def)
  then have "0 < length (tlb t)" by simp
  then show ?thesis
    using fold_lru_min_in [of "tlb t" "[1..<length (tlb t)]" 0] assms(2) by (auto simp: victim_def used_def)
qed

text \<open>What an eviction with write back needs of the walker.\<close>

definition writes_back :: "(MemReq \<Rightarrow> 'w \<Rightarrow> (MemReq \<times> 'w) res) \<Rightarrow> ('w \<Rightarrow> bool) \<Rightarrow> 'w \<Rightarrow> bool" where
  "writes_back write_through P w \<longleftrightarrow>
     P w \<and> (\<forall>req. type_of req = WRITEBACK \<longrightarrow> (\<exists>req' w'. write_through req w = Inr (req', w') \<and> P w'))"

lemma ct_evict_ok:
  assumes inv: "tlb_inv t" and free: "free_entry_list t = []" and policy: "evict_policy t \<noteq> HOTNESSAware"
    and wb: "writes_back write_through P w"
  shows "\<exists>w'. ct_evict zinfo write_through t w = Inr (victim t, drop_entry (victim t) t, w') \<and> P w'"
proof -
  define c where "c = (case evict_policy t of
              LRU \<Rightarrow> bindE (lru_evict t) (\<lambda>i. Inr (i, w))
            | HotMonitorTLBLRU \<Rightarrow> hot_monitor_tlb_evict zinfo write_through t w
            | HOTNESSAware \<Rightarrow> Inl Null_deref)"
  have lru: "lru_evict t = Inr (victim t)"
    using inv free by (simp add: lru_evict_def victim_def tlb_inv_def)
  have "\<exists>w'. hot_monitor_tlb_evict zinfo write_through t w = Inr (victim t, w') \<and> P w'"
  proof (cases "multi_queue zinfo \<and> \<not> is_in_dram (tlb_class t) (tlb t ! victim t)")
    case True
    define req where "req = \<lparr>lineAddr = push_bit (page_shift zinfo) (v_page_no (tlb t ! victim t)), type_of = WRITEBACK,
      childId = ucast (u64_of_dbl (dmul (dbl_of_u64 (get_counter (tlb_class t) (tlb t ! victim t))) (1 / 2))),
      cycle = 0\<rparr>"
    have "type_of req = WRITEBACK" by (simp add: req_def)
    then obtain req' w' where "write_through req w = Inr (req', w')" "P w'"
      using wb unfolding writes_back_def by blast
    then show ?thesis using True lru by (simp add: hot_monitor_tlb_evict_def Let_def req_def)
  next
    case False
    then show ?thesis using wb lru by (auto simp: hot_monitor_tlb_evict_def Let_def writes_back_def)
  qed
  then obtain w' where c: "c = Inr (victim t, w')" "P w'"
    using wb policy lru unfolding c_def writes_back_def by (cases "evict_policy t") auto
  have "tlb_trie t (v_page_no (tlb t ! victim t)) = Some (victim t)"
    by (rule tlb_inv_used [OF inv victim_used [OF inv free]])
  then show ?thesis
    using c unfolding ct_evict_def c_def [symmetric] by (simp add: drop_entry_def Let_def)
qed

definition make_room :: "CommonTlb \<Rightarrow> CommonTlb" where
  "make_room t =
     (if free_entry_list t = [] then drop_entry (victim t) (t\<lparr>tlb_evict_time := tlb_evict_time t + 1\<rparr>) else t)"

lemma make_room_ok:
  assumes inv: "tlb_inv t"
  shows "tlb_inv (make_room t)" and "free_entry_list (make_room t) \<noteq> []"
    and "tlb_trie (make_room t) v = Some i \<Longrightarrow>
      tlb_trie t v = Some i \<and> p_page_no (tlb (make_room t) ! i) = p_page_no (tlb t ! i)"
proof -
  define t1 where "t1 = t\<lparr>tlb_evict_time := tlb_evict_time t + 1\<rparr>"
  have inv1: "tlb_inv t1" by (rule tlb_inv_cong [OF inv]) (simp_all add: t1_def)
  have v1: "victim t1 = victim t" by (simp add: victim_def t1_def)
  show "tlb_inv (make_room t)"
    using drop_entry_inv [OF inv1, of "victim t"] victim_used [OF inv1] v1 inv
    by (auto simp: make_room_def t1_def)
  show "free_entry_list (make_room t) \<noteq> []" by (simp add: make_room_def drop_entry_def)
  show "tlb_trie t v = Some i \<and> p_page_no (tlb (make_room t) ! i) = p_page_no (tlb t ! i)"
    if "tlb_trie (make_room t) v = Some i"
    using that tlb_inv_trie [OF inv, of v i]
    by (cases "i = victim t") (auto simp: make_room_def drop_entry_def used_def split: if_splits)
qed

lemma ct_insert_ok:
  assumes inv: "tlb_inv t" and v: "tlb_trie t v = None" and policy: "evict_policy t \<noteq> HOTNESSAware"
    and wb: "writes_back write_through P w"
  shows "\<exists>i is w'. ct_insert zinfo write_through v e t w =
      Inr (Some i, fill_entry v e i ((make_room t)\<lparr>free_entry_list := is\<rparr>), w') \<and> P w' \<and>
    free_entry_list (make_room t) = i # is"
proof -
  define t1 where "t1 = t\<lparr>tlb_evict_time := tlb_evict_time t + 1\<rparr>"
  have inv1: "tlb_inv t1" by (rule tlb_inv_cong [OF inv]) (simp_all add: t1_def)
  have v1: "victim t1 = victim t" by (simp add: victim_def t1_def)
  obtain w' where w': "(if free_entry_list t = [] then
              bindE (ct_evict zinfo write_through t1 w) (\<lambda>(_, t, w). Inr (t, w))
            else Inr (t, w)) = Inr (make_room t, w')" "P w'"
  proof (cases "free_entry_list t = []")
    case True
    then show ?thesis
      using ct_evict_ok [OF inv1 _ _ wb, of zinfo] policy v1 that
      by (auto simp: t1_def make_room_def simp del: split_paired_Ex)
  next
    case False
    then show ?thesis using that [of w] wb by (simp add: make_room_def writes_back_def)
  qed
  obtain i "is" where "free_entry_list (make_room t) = i # is"
    using make_room_ok(2) [OF inv] by (cases "free_entry_list (make_room t)") auto
  then show ?thesis
    using w' v unfolding ct_insert_def t1_def [symmetric] by simp
qed

lemma fill_room_inv:
  assumes inv: "tlb_inv t" and v: "tlb_trie t v = None" and e: "v_page_no e = v"
    and free: "free_entry_list (make_room t) = i # is"
  defines "t' \<equiv> fill_entry v e i ((make_room t)\<lparr>free_entry_list := is\<rparr>)"
  shows "tlb_inv t'" and "tlb_trie t' v = Some i" and "p_page_no (tlb t' ! i) = p_page_no e"
    and "x \<noteq> v \<Longrightarrow> tlb_trie t' x = Some j \<Longrightarrow>
      tlb_trie t x = Some j \<and> p_page_no (tlb t' ! j) = p_page_no (tlb t ! j)"
proof -
  note room = make_room_ok [OF inv]
  have v': "tlb_trie (make_room t) v = None" using room(3) [of v] v by (cases "tlb_trie (make_room t) v") auto
  show "tlb_inv t'" unfolding t'_def by (rule fill_entry_inv [OF room(1) free v' e])
  have i: "i < length (tlb (make_room t))" "\<not> used (make_room t) i"
    using room(1) free by (auto simp: tlb_inv_def used_def)
  show "tlb_trie t' v = Some i" "p_page_no (tlb t' ! i) = p_page_no e"
    using i by (simp_all add: t'_def fill_entry_def Let_def)
  assume x: "x \<noteq> v" "tlb_trie t' x = Some j"
  then have "tlb_trie (make_room t) x = Some j" by (simp add: t'_def fill_entry_def Let_def)
  moreover have "j \<noteq> i" using tlb_inv_trie [OF room(1) calculation] i by auto
  ultimately show "tlb_trie t x = Some j \<and> p_page_no (tlb t' ! j) = p_page_no (tlb t ! j)"
    using room(3) by (simp add: t'_def fill_entry_def Let_def)
qed

section \<open>The contract with the walker\<close>

text \<open>
  What a TLB relies on: \<open>good\<close> are the states of the machine in which a walk of a page that the
  TLB does not hold succeeds and leaves the waiting TLB alone; \<open>tr\<close> is the translation the
  machine stands for, by virtual page number. A walk may add translations but changes none, and
  afterwards the page walked for has the translation that was returned.
\<close>

locale tlb_walker =
  fixes zinfo :: GlobSimInfo
    and walk :: "MemReq \<Rightarrow> CommonTlb \<Rightarrow> 'w \<Rightarrow> (address \<times> MemReq \<times> CommonTlb \<times> 'w) res"
    and write_through :: "MemReq \<Rightarrow> 'w \<Rightarrow> (MemReq \<times> 'w) res"
    and good :: "'w \<Rightarrow> bool"
    and tr :: "'w \<Rightarrow> address \<Rightarrow> address option"
  assumes walk_law: "good w \<Longrightarrow> tlb_trie t (vpn_of zinfo (lineAddr req)) = None \<Longrightarrow>
      \<exists>ppn req' w'. walk req t w = Inr (ppn, req', t, w') \<and> good w' \<and>
        tr w' (vpn_of zinfo (lineAddr req)) = Some ppn \<and> tr w \<subseteq>\<^sub>m tr w'"
    and write_through_law: "good w \<Longrightarrow>
      \<exists>req' w'. write_through req w = Inr (req', w') \<and> good w' \<and> tr w' = tr w"

text \<open>The TLB holds only translations of the page table.\<close>

definition coherent :: "(address \<Rightarrow> address option) \<Rightarrow> CommonTlb \<Rightarrow> bool" where
  "coherent tr t \<longleftrightarrow> (\<forall>v i. tlb_trie t v = Some i \<longrightarrow> tr v = Some (p_page_no (tlb t ! i)))"

lemma coherent_mono: "coherent m t \<Longrightarrow> m \<subseteq>\<^sub>m m' \<Longrightarrow> coherent m' t"
  by (fastforce simp: coherent_def map_le_def dom_def)

lemma coherent_fill:
  assumes "tlb_inv t" "tlb_trie t v = None" "v_page_no e = v" "free_entry_list (make_room t) = i # is"
    and "coherent m t" and "m v = Some (p_page_no e)"
  shows "coherent m (fill_entry v e i ((make_room t)\<lparr>free_entry_list := is\<rparr>))"
  using fill_room_inv [OF assms(1-4)] assms(5,6) unfolding coherent_def by (metis option.inject)

lemma touch_trie [simp]: "tlb_trie (touch i t) = tlb_trie t"
  by (simp add: touch_def Let_def)

lemma touch_pages: "p_page_no (tlb (touch i t) ! j) = p_page_no (tlb t ! j)"
proof (cases "i < length (tlb t)")
  case True
  then show ?thesis by (cases "i = j") (simp_all add: touch_def Let_def)
qed (simp add: touch_def Let_def list_update_beyond)

context tlb_walker
begin

lemma writes_back_good: "good w \<Longrightarrow> writes_back write_through (\<lambda>w'. good w' \<and> tr w' = tr w) w"
  using write_through_law by (simp add: writes_back_def)

lemma miss_ok:
  assumes inv: "tlb_inv t" and w: "good w" and coh: "coherent (tr w) t"
    and v: "tlb_trie t (vpn_of zinfo (lineAddr req)) = None"
    and policy: "evict_policy t \<noteq> HOTNESSAware"
  shows "\<exists>ppn req' w' i is t' e. ct_miss zinfo raw walk write_through req t w = Inr (ppn, req', t', w') \<and>
    good w' \<and> tr w \<subseteq>\<^sub>m tr w' \<and> tr w' (vpn_of zinfo (lineAddr req)) = Some ppn \<and>
    t' = fill_entry (vpn_of zinfo (lineAddr req)) e i
      ((make_room (t\<lparr>insert_num := insert_num t + 1\<rparr>))\<lparr>free_entry_list := is\<rparr>) \<and>
    free_entry_list (make_room (t\<lparr>insert_num := insert_num t + 1\<rparr>)) = i # is \<and>
    v_page_no e = vpn_of zinfo (lineAddr req) \<and> tlb_inv t' \<and> coherent (tr w') t'"
proof -
  define v where "v = vpn_of zinfo (lineAddr req)"
  obtain ppn req' w1 where walk: "walk req t w = Inr (ppn, req', t, w1)" "good w1" "tr w1 v = Some ppn"
    "tr w \<subseteq>\<^sub>m tr w1"
    using walk_law [OF w, of t req] assms(4) by (auto simp: v_def)
  define t1 where "t1 = t\<lparr>insert_num := insert_num t + 1\<rparr>"
  have t1: "tlb_inv t1" "tlb_trie t1 v = None" "evict_policy t1 \<noteq> HOTNESSAware" "coherent (tr w) t1"
    using tlb_inv_cong [OF inv, of t1] assms(3-5) by (simp_all add: t1_def v_def coherent_def)
  define e where "e = te_set_valid (TlbEntry_new (tlb_class t) raw v ppn False)"
  obtain i "is" w' where ins: "ct_insert zinfo write_through v e t1 w1 =
      Inr (Some i, fill_entry v e i ((make_room t1)\<lparr>free_entry_list := is\<rparr>), w')"
      "good w'" "tr w' = tr w1" "free_entry_list (make_room t1) = i # is"
    using ct_insert_ok [OF t1(1-3) writes_back_good [OF walk(2)], of zinfo e] by auto
  define t' where "t' = fill_entry v e i ((make_room t1)\<lparr>free_entry_list := is\<rparr>)"
  have e: "v_page_no e = v" "p_page_no e = ppn" by (simp_all add: e_def)
  have "ct_miss zinfo raw walk write_through req t w = Inr (ppn, req', t', w')"
    using walk(1) ins(1) by (simp add: ct_miss_def v_def t1_def e_def t'_def Let_def)
  moreover have "tlb_inv t'" unfolding t'_def by (rule fill_room_inv(1) [OF t1(1,2) e(1) ins(4)])
  moreover have "coherent (tr w1) t'" unfolding t'_def
    using coherent_mono [OF t1(4) walk(4)] walk(3) e(2) by (intro coherent_fill [OF t1(1,2) e(1) ins(4)]) simp_all
  ultimately show ?thesis using walk ins e(1) unfolding v_def [symmetric] t1_def [symmetric] t'_def by metis
qed

lemma access_ok:
  assumes inv: "tlb_inv t" and w: "good w" and coh: "coherent (tr w) t"
    and policy: "evict_policy t \<noteq> HOTNESSAware"
  shows "\<exists>ppn req' t' w'. ct_access zinfo raw walk write_through req t w =
      Inr (paddr_of zinfo ppn (lineAddr req), req', t', w') \<and>
    good w' \<and> tr w \<subseteq>\<^sub>m tr w' \<and> tr w' (vpn_of zinfo (lineAddr req)) = Some ppn \<and>
    tlb_inv t' \<and> coherent (tr w') t' \<and> evict_policy t' = evict_policy t \<and>
    vpn_of zinfo (lineAddr req) \<in> dom (tlb_trie t')"
proof -
  define t1 where "t1 = t\<lparr>tlb_access_time := tlb_access_time t + 1\<rparr>"
  define v where "v = vpn_of zinfo (lineAddr req)"
  have t1: "tlb_inv t1" "evict_policy t1 \<noteq> HOTNESSAware" "coherent (tr w) t1"
    using tlb_inv_cong [OF inv, of t1] policy coh by (simp_all add: t1_def coherent_def)
  show ?thesis
  proof (cases "tlb_trie t1 v")
    case None
    obtain ppn req' w' i "is" t' e where m: "ct_miss zinfo raw walk write_through req t1 w = Inr (ppn, req', t', w')"
      "good w'" "tr w \<subseteq>\<^sub>m tr w'" "tr w' v = Some ppn" "tlb_inv t'" "coherent (tr w') t'"
      "t' = fill_entry v e i ((make_room (t1\<lparr>insert_num := insert_num t1 + 1\<rparr>))\<lparr>free_entry_list := is\<rparr>)"
      using miss_ok [OF t1(1) w t1(3) None [unfolded v_def] t1(2), of raw] unfolding v_def by blast
    have "evict_policy t' = evict_policy t" "v \<in> dom (tlb_trie t')"
      by (simp_all add: m(7) fill_entry_def Let_def make_room_def drop_entry_def t1_def)
    then show ?thesis
      using m(1-6) None unfolding v_def by (auto simp: ct_access_def ct_look_up_def t1_def [symmetric])
  next
    case (Some i)
    define t2 where "t2 = (if te_is_valid (tlb t1 ! i) then touch i t1 else t1)"
    have t2: "tlb_inv t2" "tlb_trie t2 = tlb_trie t1" "evict_policy t2 = evict_policy t"
        "\<And>j. p_page_no (tlb t2 ! j) = p_page_no (tlb t1 ! j)"
      using t1(1) by (auto simp: t2_def touch_pages) (simp_all add: touch_def Let_def t1_def)
    have "tr w v = Some (p_page_no (tlb t1 ! i))" using t1(3) Some by (simp add: coherent_def)
    moreover have "tlb_inv (t2\<lparr>tlb_hit_time := tlb_hit_time t2 + 1\<rparr>)" by (rule tlb_inv_cong [OF t2(1)]) simp_all
    moreover have "coherent (tr w) (t2\<lparr>tlb_hit_time := tlb_hit_time t2 + 1\<rparr>)"
      using t1(3) t2(2,4) by (simp add: coherent_def)
    moreover have "tlb_trie t2 v = Some i" using t2(2) Some by simp
    ultimately show ?thesis
      using Some w t2(3,4) unfolding v_def
      by (auto simp: ct_access_def ct_look_up_def t1_def [symmetric] t2_def [symmetric])
  qed
qed

end

section \<open>Least recently used\<close>

text \<open>The reference: a list of pages, the most recently used one first, cut off at the capacity.\<close>

definition lru_access :: "nat \<Rightarrow> address \<Rightarrow> address list \<Rightarrow> address list" where
  "lru_access n v l = take n (v # removeAll v l)"

primrec lru_hits :: "nat \<Rightarrow> address list \<Rightarrow> address list \<Rightarrow> nat" where
  "lru_hits n [] l = 0"
| "lru_hits n (v # vs) l = (if v \<in> set l then 1 else 0) + lru_hits n vs (lru_access n v l)"

lemma remdups_snoc: "remdups (xs @ [v]) = removeAll v (remdups xs) @ [v]"
  by (induction xs) auto

lemma rev_removeAll: "rev (removeAll v xs) = removeAll v (rev xs)"
  by (simp add: removeAll_filter_not_eq rev_filter)

lemma take_removeAll_take:
  "distinct ys \<Longrightarrow> take n (removeAll v (take (Suc n) ys)) = take n (removeAll v ys)"
proof (induction ys arbitrary: n)
  case (Cons y ys)
  show ?case
  proof (cases "y = v")
    case True
    then have "v \<notin> set ys" using Cons.prems by auto
    moreover have "v \<notin> set (take n ys)" using calculation by (meson in_set_takeD)
    ultimately show ?thesis using True by simp
  next
    case False
    then show ?thesis using Cons by (cases n) auto
  qed
qed simp

text \<open>The pages that the reference holds are the \<open>n\<close> most recently used ones.\<close>

lemma lru_accesses_remdups:
  assumes "0 < n"
  shows "foldl (\<lambda>l v. lru_access n v l) [] vs = take n (rev (remdups vs))"
proof (induction vs rule: rev_induct)
  case (snoc v vs)
  obtain k where k: "n = Suc k" using assms by (cases n) auto
  show ?case
    using take_removeAll_take [of "rev (remdups vs)" k v] snoc
    by (simp add: lru_access_def remdups_snoc rev_removeAll k)
qed simp

definition seq :: "CommonTlb \<Rightarrow> address \<Rightarrow> u64" where
  "seq t v = te_lru_seq (tlb t ! the (tlb_trie t v))"

text \<open>The TLB implements the list \<open>l\<close>: the sequence numbers of the entries in use fall along it.\<close>

definition lru_rel :: "CommonTlb \<Rightarrow> address list \<Rightarrow> bool" where
  "lru_rel t l \<longleftrightarrow> tlb_inv t \<and> set l = dom (tlb_trie t) \<and> sorted_wrt (\<lambda>u v. seq t v < seq t u) l \<and>
     (\<forall>i. used t i \<longrightarrow> te_is_valid (tlb t ! i)) \<and> (\<forall>v\<in>set l. unat (seq t v) \<le> unat (tlb_lru_seq t))"

lemma falling_distinct: "sorted_wrt (\<lambda>u v. f v < (f u :: 'a :: preorder)) l \<Longrightarrow> distinct l"
  by (induction l) auto

lemma lru_rel_distinct: "lru_rel t l \<Longrightarrow> distinct l"
  unfolding lru_rel_def by (blast intro: falling_distinct)

lemma lru_rel_length:
  assumes "lru_rel t l"
  shows "length l + length (free_entry_list t) = length (tlb t)"
proof -
  have inv: "tlb_inv t" and l: "set l = dom (tlb_trie t)" using assms by (simp_all add: lru_rel_def)
  have "dom (tlb_trie t) = (\<lambda>i. v_page_no (tlb t ! i)) ` {i. used t i}"
    using inv by (auto simp: tlb_inv_def dom_def)
  moreover have "inj_on (\<lambda>i. v_page_no (tlb t ! i)) {i. used t i}"
    using tlb_inv_used [OF inv] by (intro inj_onI) (metis mem_Collect_eq option.inject)
  moreover have "{i. used t i} = {..<length (tlb t)} - set (free_entry_list t)" by (auto simp: used_def)
  moreover have "card ({..<length (tlb t)} - set (free_entry_list t)) = length (tlb t) - length (free_entry_list t)"
    using inv unfolding tlb_inv_def by (subst card_Diff_subset) (auto simp: distinct_card)
  ultimately have "length l = length (tlb t) - length (free_entry_list t)"
    using l distinct_card [OF lru_rel_distinct [OF assms]] by (simp add: card_image)
  moreover have "length (free_entry_list t) \<le> length (tlb t)"
  proof -
    have "set (free_entry_list t) \<subseteq> {..<length (tlb t)}" "distinct (free_entry_list t)"
      using inv unfolding tlb_inv_def by blast+
    then show ?thesis using card_mono [of "{..<length (tlb t)}"] by (metis card_lessThan distinct_card finite_lessThan)
  qed
  ultimately show ?thesis by simp
qed

lemma seq_next:
  assumes "Suc (unat s) < 2 ^ 31"
  shows "unat (scast (s + 1 :: u32) :: u64) = Suc (unat s)"
proof -
  define n where "n = Suc (unat s)"
  have "s + 1 = of_nat n" by (simp add: n_def)
  moreover have "n < 2 ^ 31" using assms by (simp add: n_def)
  ultimately have "(scast (s + 1) :: u64) = of_nat n"
    by (simp add: signed_of_nat signed_take_bit_int_eq_self)
  moreover have "unat (of_nat n :: u64) = n" using \<open>n < 2 ^ 31\<close> by (intro unat_of_nat_u64) simp
  ultimately show ?thesis by (simp only: n_def)
qed

text \<open>Putting \<open>v\<close> in front, with a sequence number above all others.\<close>

lemma falling_front:
  assumes sorted: "sorted_wrt (\<lambda>u v. seq t v < seq t u) l" and v: "v \<notin> set l"
    and bound: "\<forall>u\<in>set l. unat (seq t u) \<le> unat (tlb_lru_seq t)" and s: "Suc (unat (tlb_lru_seq t)) < 2 ^ 31"
    and new: "seq t' v = scast (tlb_lru_seq t + 1)" and old: "\<And>u. u \<in> set l \<Longrightarrow> seq t' u = seq t u"
    and counter: "tlb_lru_seq t' = tlb_lru_seq t + 1"
  shows "sorted_wrt (\<lambda>u v. seq t' v < seq t' u) (v # l) \<and>
    (\<forall>u\<in>set (v # l). unat (seq t' u) \<le> unat (tlb_lru_seq t'))"
proof -
  have n: "unat (seq t' v) = Suc (unat (tlb_lru_seq t))" unfolding new by (rule seq_next [OF s])
  have "unat (tlb_lru_seq t') = Suc (unat (tlb_lru_seq t))"
    using s unfolding counter by (simp add: unat_word_ariths)
  moreover have "sorted_wrt (\<lambda>u v. seq t' v < seq t' u) l"
    using sorted by (rule sorted_wrt_mono_rel [rotated]) (simp add: old)
  ultimately show ?thesis using bound n old by (auto simp: word_less_nat_alt le_Suc_eq)
qed

lemma lru_touch:
  assumes rel: "lru_rel t l" and v: "tlb_trie t v = Some i" and s: "Suc (unat (tlb_lru_seq t)) < 2 ^ 31"
  shows "lru_rel (touch i t) (v # removeAll v l)"
proof -
  have inv: "tlb_inv t" using rel by (simp add: lru_rel_def)
  have i: "i < length (tlb t)" "v_page_no (tlb t ! i) = v"
    using tlb_inv_trie [OF inv v] by (simp_all add: used_def)
  define t' where "t' = touch i t"
  have new: "seq t' v = scast (tlb_lru_seq t + 1)" using i v by (simp add: seq_def t'_def touch_def Let_def)
  have old: "seq t' u = seq t u" if u: "u \<in> set (removeAll v l)" for u
  proof -
    obtain j where j: "tlb_trie t u = Some j" using u rel by (auto simp: lru_rel_def)
    then have "j \<noteq> i" using tlb_inv_trie [OF inv j] i(2) u by auto
    then show ?thesis using j by (simp add: seq_def t'_def touch_def Let_def)
  qed
  have "sorted_wrt (\<lambda>u v. seq t v < seq t u) (removeAll v l)"
    using rel by (simp add: lru_rel_def removeAll_filter_not_eq sorted_wrt_filter)
  moreover have "\<forall>u\<in>set (removeAll v l). unat (seq t u) \<le> unat (tlb_lru_seq t)" using rel by (simp add: lru_rel_def)
  moreover have "tlb_lru_seq t' = tlb_lru_seq t + 1" by (simp add: t'_def touch_def Let_def)
  ultimately have "sorted_wrt (\<lambda>u v. seq t' v < seq t' u) (v # removeAll v l) \<and>
    (\<forall>u\<in>set (v # removeAll v l). unat (seq t' u) \<le> unat (tlb_lru_seq t'))"
    using s new old by (intro falling_front) auto
  moreover have "set (v # removeAll v l) = dom (tlb_trie t')" using rel v by (auto simp: lru_rel_def t'_def)
  moreover have "te_is_valid (tlb t' ! j)" if "used t' j" for j
  proof -
    have "used t j" using that by (simp add: used_def t'_def touch_def Let_def)
    then have "te_is_valid (tlb t ! j)" using rel by (simp add: lru_rel_def)
    then show ?thesis using i(1) by (cases "j = i") (simp_all add: t'_def touch_def Let_def te_is_valid_def)
  qed
  ultimately show ?thesis using touch_inv [OF inv, of i] unfolding lru_rel_def t'_def [symmetric] by blast
qed

lemma lru_fill:
  assumes rel: "lru_rel t l" and free: "free_entry_list t = i # is" and v: "v \<notin> set l" and e: "v_page_no e = v"
    and s: "Suc (unat (tlb_lru_seq t)) < 2 ^ 31"
  shows "lru_rel (fill_entry v e i (t\<lparr>free_entry_list := is\<rparr>)) (v # l)"
proof -
  have inv: "tlb_inv t" using rel by (simp add: lru_rel_def)
  have i: "i < length (tlb t)" "\<not> used t i" using inv free by (auto simp: tlb_inv_def used_def)
  have v': "tlb_trie t v = None" using rel v by (auto simp: lru_rel_def)
  define t' where "t' = fill_entry v e i (t\<lparr>free_entry_list := is\<rparr>)"
  have new: "seq t' v = scast (tlb_lru_seq t + 1)" using i by (simp add: seq_def t'_def fill_entry_def Let_def)
  have old: "seq t' u = seq t u" if u: "u \<in> set l" for u
  proof -
    obtain j where j: "tlb_trie t u = Some j" using u rel by (auto simp: lru_rel_def)
    then have "j \<noteq> i" using tlb_inv_trie [OF inv j] i(2) by auto
    then show ?thesis using j u v by (auto simp: seq_def t'_def fill_entry_def Let_def)
  qed
  have "sorted_wrt (\<lambda>u v. seq t' v < seq t' u) (v # l) \<and> (\<forall>u\<in>set (v # l). unat (seq t' u) \<le> unat (tlb_lru_seq t'))"
    using rel v s new old by (intro falling_front) (auto simp: lru_rel_def t'_def fill_entry_def Let_def)
  moreover have "set (v # l) = dom (tlb_trie t')" using rel by (auto simp: lru_rel_def t'_def fill_entry_def Let_def)
  moreover have "te_is_valid (tlb t' ! j)" if "used t' j" for j
  proof (cases "j = i")
    case True
    then show ?thesis using i(1) by (simp add: t'_def fill_entry_def Let_def te_is_valid_def)
      (simp add: te_is_valid_def [symmetric])
  next
    case False
    then have "used t j" using that free by (simp add: used_def t'_def fill_entry_def Let_def)
    then show ?thesis using False rel by (simp add: lru_rel_def t'_def fill_entry_def Let_def)
  qed
  moreover have "tlb_inv t'" unfolding t'_def by (rule fill_entry_inv [OF inv free v' e])
  ultimately show ?thesis unfolding lru_rel_def t'_def [symmetric] by blast
qed

text \<open>The entry with the smallest number is the page used least recently.\<close>

lemma lru_min_least:
  assumes "\<forall>i<length es. te_is_valid (es ! i)" and "n \<le> length es" and "0 < n"
  shows "\<forall>j<n. te_lru_seq (es ! fold (lru_min es) [1..<n] 0) \<le> te_lru_seq (es ! j)"
  using assms(2,3)
proof (induction n)
  case (Suc n)
  define m where "m = fold (lru_min es) [1..<n] 0"
  show ?case
  proof (cases "n = 0")
    case False
    then have IH: "\<forall>j<n. te_lru_seq (es ! m) \<le> te_lru_seq (es ! j)" using Suc by (simp add: m_def)
    have fold: "fold (lru_min es) [1..<Suc n] 0 = lru_min es n m" using False by (simp add: m_def)
    have "lru_min es n m = (if te_lru_seq (es ! n) < te_lru_seq (es ! m) then n else m)"
      using assms(1) Suc.prems(1) by (simp add: lru_min_def)
    then show ?thesis
      unfolding fold using IH by (auto simp: less_Suc_eq not_less intro: less_imp_le less_le_trans)
  qed simp
qed simp

lemma lru_drop:
  assumes rel: "lru_rel t l" and free: "free_entry_list t = []"
  shows "lru_rel (drop_entry (victim t) t) (butlast l)"
proof -
  have inv: "tlb_inv t" using rel by (simp add: lru_rel_def)
  define m where "m = victim t"
  define w where "w = v_page_no (tlb t ! m)"
  have m: "used t m" unfolding m_def by (rule victim_used [OF inv free])
  then have w: "tlb_trie t w = Some m" unfolding w_def by (rule tlb_inv_used [OF inv])
  have all: "used t j \<longleftrightarrow> j < length (tlb t)" for j using free by (simp add: used_def)
  have least: "\<forall>j<length (tlb t). te_lru_seq (tlb t ! m) \<le> te_lru_seq (tlb t ! j)"
    unfolding m_def victim_def using rel m all by (intro lru_min_least) (auto simp: lru_rel_def)
  have "w \<in> set l" using w rel by (auto simp: lru_rel_def)
  then obtain xs x where l: "l = xs @ [x]" by (cases l rule: rev_cases) auto
  have last: "w = x"
  proof (rule ccontr)
    assume "w \<noteq> x"
    then have "w \<in> set xs" using \<open>w \<in> set l\<close> l by auto
    then have "seq t x < seq t w" using rel l by (auto simp: lru_rel_def sorted_wrt_append)
    moreover obtain j where "tlb_trie t x = Some j" using rel l by (fastforce simp: lru_rel_def)
    then have "seq t w \<le> seq t x" using least w tlb_inv_trie [OF inv] all by (simp add: seq_def)
    ultimately show False by simp
  qed
  define t' where "t' = drop_entry m t"
  have dom: "set xs = dom (tlb_trie t')"
  proof -
    have "set xs = set l - {x}" using lru_rel_distinct [OF rel] l by auto
    then show ?thesis using rel last by (auto simp: lru_rel_def t'_def drop_entry_def w_def)
  qed
  have old: "seq t' u = seq t u" if u: "u \<in> set xs" for u
  proof -
    obtain j where j: "tlb_trie t' u = Some j" using u dom by auto
    then have "tlb_trie t u = Some j" "j \<noteq> m" 
      using inv drop_entry_inv [OF inv m] unfolding t'_def 
      by (auto simp: drop_entry_def w_def split: if_splits dest: tlb_inv_trie)
    then show ?thesis using j by (simp add: seq_def t'_def drop_entry_def)
  qed
  have "sorted_wrt (\<lambda>u v. seq t v < seq t u) xs" using rel l by (simp add: lru_rel_def sorted_wrt_append)
  then have "sorted_wrt (\<lambda>u v. seq t' v < seq t' u) xs"
    by (rule sorted_wrt_mono_rel [rotated]) (simp add: old)
  moreover have "te_is_valid (tlb t' ! j)" if "used t' j" for j
  proof -
    have "used t j" "j \<noteq> m" using that by (auto simp: used_def t'_def drop_entry_def)
    then show ?thesis using rel by (simp add: lru_rel_def t'_def drop_entry_def)
  qed
  moreover have "\<forall>u\<in>set xs. unat (seq t' u) \<le> unat (tlb_lru_seq t')"
    using rel old l by (simp add: lru_rel_def t'_def drop_entry_def)
  ultimately show ?thesis
    using drop_entry_inv [OF inv m] dom l unfolding lru_rel_def t'_def m_def by simp
qed

lemma lru_rel_stats [simp]:
  "lru_rel (t\<lparr>tlb_evict_time := x\<rparr>) l = lru_rel t l" "lru_rel (t\<lparr>insert_num := y\<rparr>) l = lru_rel t l"
  "lru_rel (t\<lparr>tlb_access_time := x\<rparr>) l = lru_rel t l" "lru_rel (t\<lparr>tlb_hit_time := x\<rparr>) l = lru_rel t l"
  by (simp_all add: lru_rel_def tlb_inv_def used_def seq_def)

lemma lru_miss:
  assumes rel: "lru_rel t l" and v: "v \<notin> set l" and e: "v_page_no e = v"
    and free: "free_entry_list (make_room t) = i # is" and s: "Suc (unat (tlb_lru_seq t)) < 2 ^ 31"
  shows "lru_rel (fill_entry v e i ((make_room t)\<lparr>free_entry_list := is\<rparr>)) (lru_access (length (tlb t)) v l)"
proof -
  have len: "length l + length (free_entry_list t) = length (tlb t)" by (rule lru_rel_length [OF rel])
  have "tlb t \<noteq> []" using rel by (simp add: lru_rel_def tlb_inv_def)
  then obtain k where k: "length (tlb t) = Suc k" by (cases "tlb t") auto
  define l' where "l' = (if free_entry_list t = [] then butlast l else l)"
  have "lru_rel (make_room t) l'"
  proof (cases "free_entry_list t = []")
    case True
    have "victim (t\<lparr>tlb_evict_time := tlb_evict_time t + 1\<rparr>) = victim t" by (simp add: victim_def)
    then show ?thesis
      using True lru_drop [of "t\<lparr>tlb_evict_time := tlb_evict_time t + 1\<rparr>" l] rel
      by (simp add: make_room_def l'_def)
  qed (use rel in \<open>simp add: make_room_def l'_def\<close>)
  moreover have "v \<notin> set l'" using v by (auto simp: l'_def dest: in_set_butlastD)
  moreover have "tlb_lru_seq (make_room t) = tlb_lru_seq t" by (simp add: make_room_def drop_entry_def)
  ultimately have "lru_rel (fill_entry v e i ((make_room t)\<lparr>free_entry_list := is\<rparr>)) (v # l')"
    using lru_fill [OF _ free _ e] s by simp
  moreover have "v # l' = lru_access (length (tlb t)) v l"
  proof (cases "free_entry_list t")
    case Nil
    then show ?thesis using len k v by (simp add: l'_def lru_access_def butlast_conv_take)
  next
    case (Cons a as)
    then show ?thesis using len k v by (simp add: l'_def lru_access_def)
  qed
  ultimately show ?thesis by simp
qed

context tlb_walker
begin

lemma lru_access_ok:
  fixes req :: MemReq
  assumes rel: "lru_rel t l" and w: "good w" and coh: "coherent (tr w) t"
    and policy: "evict_policy t \<noteq> HOTNESSAware"
    and s: "Suc (unat (tlb_lru_seq t)) < 2 ^ 31"
  defines "v \<equiv> vpn_of zinfo (lineAddr req)"
  shows "\<exists>pa req' t' w'. ct_access zinfo raw walk write_through req t w = Inr (pa, req', t', w') \<and>
    lru_rel t' (lru_access (length (tlb t)) v l) \<and> good w' \<and> coherent (tr w') t' \<and>
    evict_policy t' = evict_policy t \<and> length (tlb t') = length (tlb t) \<and>
    unat (tlb_lru_seq t') = Suc (unat (tlb_lru_seq t)) \<and>
    tlb_hit_time t' = tlb_hit_time t + (if v \<in> set l then 1 else 0)"
proof -
  define t1 where "t1 = t\<lparr>tlb_access_time := tlb_access_time t + 1\<rparr>"
  have rel1: "lru_rel t1 l" using rel by (simp add: t1_def)
  then have t1: "tlb_inv t1" "set l = dom (tlb_trie t1)" by (simp_all add: lru_rel_def)
  have coh1: "coherent (tr w) t1" using coh by (simp add: coherent_def t1_def)
  have seq1: "unat (tlb_lru_seq t1 + 1) = Suc (unat (tlb_lru_seq t))"
    using s by (simp add: t1_def unat_word_ariths)
  show ?thesis
  proof (cases "tlb_trie t1 v")
    case None
    define t2 where "t2 = t1\<lparr>insert_num := insert_num t1 + 1\<rparr>"
    have "evict_policy t1 \<noteq> HOTNESSAware" using policy by (simp add: t1_def)
    then obtain ppn req' w' i "is" t' e where m: "ct_miss zinfo raw walk write_through req t1 w = Inr (ppn, req', t', w')"
      "good w'" "coherent (tr w') t'" "v_page_no e = v"
      "t' = fill_entry v e i ((make_room t2)\<lparr>free_entry_list := is\<rparr>)" "free_entry_list (make_room t2) = i # is"
      using miss_ok [OF t1(1) w coh1 None [unfolded v_def] _, of raw] unfolding v_def t2_def by blast
    have "lru_rel t' (lru_access (length (tlb t2)) v l)"
      unfolding m(5) using rel1 None t1(2) m(4,6) s by (intro lru_miss) (auto simp: t1_def t2_def)
    moreover have "length (tlb t2) = length (tlb t)" by (simp add: t1_def t2_def)
    moreover have "ct_access zinfo raw walk write_through req t w =
        Inr (paddr_of zinfo ppn (lineAddr req), add_cycles req' (response_latency t'), t', w')"
      using None m(1) by (simp add: ct_access_def ct_look_up_def v_def t1_def [symmetric])
    moreover have "v \<notin> set l" using None t1(2) by auto
    moreover have "evict_policy t' = evict_policy t" "length (tlb t') = length (tlb t)"
        "tlb_lru_seq t' = tlb_lru_seq t1 + 1" "tlb_hit_time t' = tlb_hit_time t"
      unfolding m(5) by (simp_all add: fill_entry_def Let_def make_room_def drop_entry_def t1_def t2_def)
    ultimately show ?thesis using m(2,3) seq1 by simp
  next
    case (Some i)
    define t2 where "t2 = (touch i t1)\<lparr>tlb_hit_time := tlb_hit_time t1 + 1\<rparr>"
    have i: "used t1 i" using tlb_inv_trie [OF t1(1) Some] by simp
    then have "te_is_valid (tlb t1 ! i)" using rel1 by (simp add: lru_rel_def)
    then have run: "ct_access zinfo raw walk write_through req t w =
        Inr (paddr_of zinfo (p_page_no (tlb t1 ! i)) (lineAddr req),
             add_cycles (add_cycles req (hit_latency t1)) (response_latency t1), t2, w)"
      using Some unfolding v_def
      by (simp add: ct_access_def ct_look_up_def t1_def [symmetric] touch_pages t2_def) (simp add: touch_def Let_def)
    have vl: "v \<in> set l" using Some t1(2) by auto
    have "length (tlb t) = length l + length (free_entry_list t)" using lru_rel_length [OF rel] by simp
    moreover have "length (v # removeAll v l) \<le> length l"
      using vl length_removeAll_less [of v l] by simp
    ultimately have "lru_access (length (tlb t)) v l = v # removeAll v l" by (simp add: lru_access_def take_all)
    moreover have "lru_rel t2 (v # removeAll v l)"
      unfolding t2_def using lru_touch [OF rel1 Some] s by (simp add: t1_def)
    moreover have "coherent (tr w) t2" using coh1 by (simp add: coherent_def t2_def touch_pages)
    moreover have "evict_policy t2 = evict_policy t" "length (tlb t2) = length (tlb t)"
        "tlb_lru_seq t2 = tlb_lru_seq t1 + 1" "tlb_hit_time t2 = tlb_hit_time t + 1"
      by (simp_all add: t2_def touch_def Let_def t1_def)
    ultimately show ?thesis using run w vl seq1 by simp
  qed
qed

end

end
