(* ===== verification/Hot_Monitor_Tlb.thy ===== *)
theory Hot_Monitor_Tlb
  imports Common_Tlb
begin

text \<open>
  The TLB that counts the accesses to NVM pages, \<open>HotMonitorTlb<T>\<close> of
  \<open>tlb/hot_monitor_tlb.h\<close>. It wraps a \<open>CommonTlb\<close>; the wrapper decides what is inserted,
  writes dirty bits through to the page table, and counts accesses of the memory controller by
  physical page.
\<close>

section \<open>State\<close>

record HotMonitorTlb =
  write_incre_step :: u32
  read_incre_step :: u32
  pcm_tlb_hit :: u64
  pcm_tlb_miss :: u64
  dram_tlb_hit :: u64
  dram_tlb_miss :: u64
  ordinary_tlb :: CommonTlb

definition HotMonitorTlb_new ::
  "(nat \<Rightarrow> BaseTlbEntry) \<Rightarrow> u32 \<Rightarrow> entry_class \<Rightarrow> u32 \<Rightarrow> u32 \<Rightarrow> u32 \<Rightarrow> EVICTSTYLE \<Rightarrow> u32 \<Rightarrow> u32 \<Rightarrow>
   HotMonitorTlb res" where
  "HotMonitorTlb_new raw raw_seq T tlb_size hit_lat res_lat policy write_incre read_incre =
     bindE (CommonTlb_new raw raw_seq T tlb_size hit_lat res_lat policy) (\<lambda>t.
     Inr \<lparr>write_incre_step = write_incre, read_incre_step = read_incre, pcm_tlb_hit = 0, pcm_tlb_miss = 0,
          dram_tlb_hit = 0, dram_tlb_miss = 0, ordinary_tlb = t\<rparr>)"

definition ht_class :: "HotMonitorTlb \<Rightarrow> entry_class" where
  "ht_class h = tlb_class (ordinary_tlb h)"

definition ht_entry :: "HotMonitorTlb \<Rightarrow> nat \<Rightarrow> BaseTlbEntry" where
  "ht_entry h i = tlb (ordinary_tlb h) ! i"

definition ht_put_entry :: "nat \<Rightarrow> BaseTlbEntry \<Rightarrow> HotMonitorTlb \<Rightarrow> HotMonitorTlb" where
  "ht_put_entry i e h =
     h\<lparr>ordinary_tlb := (ordinary_tlb h)\<lparr>tlb := (tlb (ordinary_tlb h))[i := e]\<rparr>\<rparr>"

definition ht_look_up :: "address \<Rightarrow> bool \<Rightarrow> HotMonitorTlb \<Rightarrow> nat option \<times> HotMonitorTlb" where
  "ht_look_up vpage_no update_lru h =
     (case ct_look_up vpage_no update_lru (ordinary_tlb h) of (r, t) \<Rightarrow> (r, h\<lparr>ordinary_tlb := t\<rparr>))"

section \<open>Insertion\<close>

definition ht_insert ::
  "GlobSimInfo \<Rightarrow> BaseTlbEntry \<Rightarrow> (MemReq \<Rightarrow> 'w \<Rightarrow> (MemReq \<times> 'w) res) \<Rightarrow> address \<Rightarrow> address \<Rightarrow> u32 \<Rightarrow>
   HotMonitorTlb \<Rightarrow> 'w \<Rightarrow> (nat option \<times> HotMonitorTlb \<times> 'w) res" where
  "ht_insert zinfo raw write_through vpage_no ppn counter h w =
     (let (entry, h) =
        (if push_bit (page_shift zinfo) ppn \<ge> high_addr zinfo then
           let entry = te_remap (ht_class h) ppn True (TlbEntry_new (ht_class h) raw vpage_no ppn True)
           in (if counter = 1 then te_set_dirty entry else entry, h\<lparr>dram_tlb_miss := dram_tlb_miss h + 1\<rparr>)
         else
           let entry = TlbEntry_new (ht_class h) raw vpage_no ppn False
           in (if multi_queue zinfo then set_counter (ucast counter) entry else entry,
               h\<lparr>pcm_tlb_miss := pcm_tlb_miss h + 1\<rparr>))
      in bindE (ct_insert zinfo write_through vpage_no entry (ordinary_tlb h) w) (\<lambda>(r, t, w).
         Inr (r, h\<lparr>ordinary_tlb := t\<rparr>, w)))"

section \<open>Access\<close>

text \<open>
  A hit. The first write to a clean page of the DRAM cache is written through: a \<open>SETDIRTY\<close>
  request to the page table (its \<open>childId\<close> is never set, \<open>raw_id\<close>) and the move of the block to
  the dirty pool.
\<close>

definition ht_hit ::
  "GlobSimInfo \<Rightarrow> u32 \<Rightarrow> (MemReq \<Rightarrow> 'w \<Rightarrow> (MemReq \<times> 'w) res) \<Rightarrow> (address \<Rightarrow> 'w \<Rightarrow> 'w res) \<Rightarrow>
   MemReq \<Rightarrow> nat \<Rightarrow> HotMonitorTlb \<Rightarrow> 'w \<Rightarrow> (address \<times> MemReq \<times> HotMonitorTlb \<times> 'w) res" where
  "ht_hit zinfo raw_id write_through convert_to_dirty req i h w =
     (let req = add_cycles req (hit_latency (ordinary_tlb h));
          h = h\<lparr>ordinary_tlb := (ordinary_tlb h)\<lparr>tlb_hit_time := tlb_hit_time (ordinary_tlb h) + 1\<rparr>\<rparr>;
          entry = ht_entry h i;
          ppn = p_page_no entry;
          T = ht_class h
      in bindE (if type_of req = PUTX \<and> \<not> te_is_dirty entry \<and> is_in_dram T entry then
             let h = ht_put_entry i (te_set_dirty entry) h;
                 wt_req = \<lparr>lineAddr = push_bit (page_shift zinfo) (v_page_no entry), type_of = SETDIRTY,
                           childId = raw_id, cycle = cycle req\<rparr>
             in bindE (write_through wt_req w) (\<lambda>(_, w).
                bindE (convert_to_dirty (dram_addr_to_block_id zinfo (push_bit (page_shift zinfo) ppn)) w) (\<lambda>w.
                Inr (h, w)))
           else Inr (h, w)) (\<lambda>(h, w).
         Inr (ppn, req, if is_in_dram T (ht_entry h i) then h\<lparr>dram_tlb_hit := dram_tlb_hit h + 1\<rparr>
                        else h\<lparr>pcm_tlb_hit := pcm_tlb_hit h + 1\<rparr>, w)))"

definition ht_miss ::
  "GlobSimInfo \<Rightarrow> BaseTlbEntry \<Rightarrow> (MemReq \<Rightarrow> CommonTlb \<Rightarrow> 'w \<Rightarrow> (address \<times> MemReq \<times> CommonTlb \<times> 'w) res) \<Rightarrow>
   (MemReq \<Rightarrow> 'w \<Rightarrow> (MemReq \<times> 'w) res) \<Rightarrow> MemReq \<Rightarrow> HotMonitorTlb \<Rightarrow> 'w \<Rightarrow>
   (address \<times> MemReq \<times> HotMonitorTlb \<times> 'w) res" where
  "ht_miss zinfo raw walk write_through req h w =
     (let vpn = vpn_of zinfo (lineAddr req)
      in bindE (walk req (ordinary_tlb h) w) (\<lambda>(ppn, req, t, w).
         bindE (ht_insert zinfo raw write_through vpn ppn (if multi_queue zinfo then childId req else 0)
                  (h\<lparr>ordinary_tlb := t\<rparr>) w) (\<lambda>(_, h, w).
         Inr (ppn, req, h, w))))"

definition ht_access ::
  "GlobSimInfo \<Rightarrow> BaseTlbEntry \<Rightarrow> u32 \<Rightarrow>
   (MemReq \<Rightarrow> CommonTlb \<Rightarrow> 'w \<Rightarrow> (address \<times> MemReq \<times> CommonTlb \<times> 'w) res) \<Rightarrow>
   (MemReq \<Rightarrow> 'w \<Rightarrow> (MemReq \<times> 'w) res) \<Rightarrow> (address \<Rightarrow> 'w \<Rightarrow> 'w res) \<Rightarrow> MemReq \<Rightarrow> HotMonitorTlb \<Rightarrow> 'w \<Rightarrow>
   (address \<times> MemReq \<times> HotMonitorTlb \<times> 'w) res" where
  "ht_access zinfo raw raw_id walk write_through convert_to_dirty req h w =
     (let t = ordinary_tlb h;
          virt_addr = lineAddr req;
          origin_child_id = childId req;
          (entry, h) = ht_look_up (vpn_of zinfo virt_addr) True
                         (h\<lparr>ordinary_tlb := t\<lparr>tlb_access_time := tlb_access_time t + 1\<rparr>\<rparr>)
      in bindE (case entry of
             None \<Rightarrow> ht_miss zinfo raw walk write_through req h w
           | Some i \<Rightarrow> ht_hit zinfo raw_id write_through convert_to_dirty req i h w) (\<lambda>(ppn, req, h, w).
         Inr (paddr_of zinfo ppn virt_addr,
              add_cycles (req\<lparr>childId := origin_child_id\<rparr>) (response_latency (ordinary_tlb h)), h, w)))"

section \<open>Counting the accesses of the memory controller\<close>

definition update_life_time :: "GlobSimInfo \<Rightarrow> address \<Rightarrow> HotMonitorTlb \<Rightarrow> HotMonitorTlb res" where
  "update_life_time zinfo vpn h =
     foldE (\<lambda>i h.
       let entry = ht_entry h i
       in if \<not> is_in_dram (ht_class h) entry \<and> te_is_valid entry \<and> v_page_no entry \<noteq> vpn then
            bindE (decre_lifetime zinfo entry) (\<lambda>entry. Inr (ht_put_entry i entry h))
          else Inr h) [0..<unat (tlb_entry_num (ordinary_tlb h))] h"

definition look_up_va ::
  "GlobSimInfo \<Rightarrow> address \<Rightarrow> bool \<Rightarrow> nat \<Rightarrow> HotMonitorTlb \<Rightarrow>
   (nat option \<times> TLBSearchResult \<times> HotMonitorTlb) res" where
  "look_up_va zinfo ppn is_write proc_id h =
     (case tlb_trie_pa (ordinary_tlb h) ppn of
        None \<Rightarrow> Inr (None, unOverThres, h)
      | Some i \<Rightarrow>
          bindE (nthE (access_threshold zinfo) (if proc_fairness zinfo then proc_id else 0)) (\<lambda>thres.
          let (over_thres, entry) =
                incre_counter zinfo is_write (write_incre_step h) (read_incre_step h) thres (ht_entry h i);
              h = ht_put_entry i entry h
          in bindE (if multi_queue zinfo then update_life_time zinfo (v_page_no entry) h else Inr h) (\<lambda>h.
             Inr (Some i, over_thres, h))))"

section \<open>Remapping and removal\<close>

definition remap_ppn :: "address \<Rightarrow> nat option \<Rightarrow> bool \<Rightarrow> HotMonitorTlb \<Rightarrow> bool \<times> HotMonitorTlb" where
  "remap_ppn page_no entry is_dram h =
     (case entry of
        None \<Rightarrow> (False, h)
      | Some i \<Rightarrow>
          let t = ordinary_tlb h; e = tlb t ! i
          in (True, h\<lparr>ordinary_tlb := t\<lparr>
                 tlb_trie_pa := (tlb_trie_pa t)(p_page_no e := None, page_no \<mapsto> i),
                 tlb := (tlb t)[i := te_remap (tlb_class t) page_no is_dram e]\<rparr>\<rparr>))"

definition ht_clear_counter :: "HotMonitorTlb \<Rightarrow> HotMonitorTlb" where
  "ht_clear_counter h = h\<lparr>ordinary_tlb := ct_clear_counter (ordinary_tlb h)\<rparr>"

definition ht_flush_all :: "HotMonitorTlb \<Rightarrow> HotMonitorTlb" where
  "ht_flush_all h = h\<lparr>ordinary_tlb := ct_flush_all (ordinary_tlb h)\<rparr>"

definition ht_delete_entry :: "address \<Rightarrow> HotMonitorTlb \<Rightarrow> bool \<times> HotMonitorTlb" where
  "ht_delete_entry vpage_no h =
     (case ct_delete_entry vpage_no (ordinary_tlb h) of (r, t) \<Rightarrow> (r, h\<lparr>ordinary_tlb := t\<rparr>))"

definition ht_evict ::
  "GlobSimInfo \<Rightarrow> (MemReq \<Rightarrow> 'w \<Rightarrow> (MemReq \<times> 'w) res) \<Rightarrow> HotMonitorTlb \<Rightarrow> 'w \<Rightarrow>
   (nat \<times> HotMonitorTlb \<times> 'w) res" where
  "ht_evict zinfo write_through h w =
     bindE (ct_evict zinfo write_through (ordinary_tlb h) w) (\<lambda>(i, t, w).
     Inr (i, h\<lparr>ordinary_tlb := t\<rparr>, w))"

end
