(* ===== verification/Page_Table_Walker.thy ===== *)
theory Page_Table_Walker
  imports Paging_Classes Buddy_Allocator Hot_Monitor_Tlb
begin

text \<open>
  The page table walker, \<open>tlb/page_table_walker.h\<close>, with \<open>remap_page_table\<close> of
  \<open>tlb/common_func.h\<close>. It ties the other components together: on a TLB miss it asks the
  paging object of its process, on a page fault it takes a page from the buddy allocator, shoots
  the page down in every TLB and maps it; for a hot NVM page it takes a block of the DRAM cache,
  evicts what the block held, and maps the page to the block.

  The objects that the components share are one record, \<open>machine\<close>: the paging objects of the
  processes, the two TLBs of every core, the buddy allocator with the memory node and its page
  descriptors, the DRAM cache manager and its blocks, the shared regions, and the requests
  issued to the block fetcher of the memory controller. A walker is a record of its own, which
  points to its paging object by index.
\<close>

section \<open>State\<close>

datatype BaseTlb = Common_tlb CommonTlb | Hot_tlb HotMonitorTlb

datatype NVMOpType = NVM_READ | NVM_FETCH

record NVMainRequest =
  phys_addr :: address
  phys_dram :: bool
  dest_addr :: address
  dest_dram :: bool
  burstCount :: u32
  nvm_type :: NVMOpType

record machine =
  paging_array :: "BasePaging list"
  ins_tlbs :: "BaseTlb list"
  data_tlbs :: "BaseTlb list"
  buddy_allocator :: "BuddyAllocator option"
  dram_blocks :: "address \<Rightarrow> DRAMBufferBlock option"
  dram_manager :: FairAllocator
  shared_region :: "(address \<times> address) list list"
  fetcher :: "NVMainRequest list option"

record PageTableWalker =
  paging :: "nat option"
  procIdx :: u32
  period :: u64
  pw_tlb_shootdown_overhead :: u64
  hscc_tlb_shootdown :: u64
  pcm_map_overhead :: u64
  hscc_map_overhead :: u64
  tlb_miss_exclude_shootdown :: u64
  tlb_miss_overhead :: u64
  clflush_overhead :: u64
  extra_write :: u64
  mmap_cached :: nat
  allocated_page :: address
  total_evict :: address
  dirty_evict :: address

text \<open>
  What the walker uses of code that is not modelled and of memory that is not initialised: the
  order of an unordered set, the cache flush of a core (which returns the cycle at which it ends
  and the number of lines written back), the geometry of cache lines.
\<close>

record walker_env =
  env_raw :: raw_memory
  env_raw_id :: u32
  env_first :: "address set \<Rightarrow> address"
  env_clflush :: "nat \<Rightarrow> address \<Rightarrow> u64 \<Rightarrow> u64 \<times> u64"
  env_lineBits :: nat
  env_lineNum :: u32

definition PageTableWalker_new :: "nat option \<Rightarrow> PageTableWalker" where
  "PageTableWalker_new raw_paging =
     \<lparr>paging = raw_paging, procIdx = -1, period = 0, pw_tlb_shootdown_overhead = 0, hscc_tlb_shootdown = 0,
      pcm_map_overhead = 0, hscc_map_overhead = 0, tlb_miss_exclude_shootdown = 0, tlb_miss_overhead = 0,
      clflush_overhead = 0, extra_write = 0, mmap_cached = 0, allocated_page = 0, total_evict = 0,
      dirty_evict = 0\<rparr>"

definition SetPaging :: "u32 \<Rightarrow> nat option \<Rightarrow> PageTableWalker \<Rightarrow> PageTableWalker" where
  "SetPaging proc_id copied_paging wk = wk\<lparr>procIdx := proc_id, paging := copied_paging\<rparr>"

type_synonym walk_state = "PageTableWalker \<times> machine"

section \<open>Shared objects\<close>

definition memory_node :: "machine \<Rightarrow> MemoryNode option" where
  "memory_node m = (case buddy_allocator m of None \<Rightarrow> None | Some ba \<Rightarrow> mem_node ba)"

definition put_memory_node :: "MemoryNode option \<Rightarrow> machine \<Rightarrow> machine" where
  "put_memory_node node m =
     m\<lparr>buddy_allocator := map_option (\<lambda>ba. ba\<lparr>mem_node := node\<rparr>) (buddy_allocator m)\<rparr>"

definition machine_objs :: "machine \<Rightarrow> mem_objs" where
  "machine_objs m =
     \<lparr>obj_pages = (case memory_node m of None \<Rightarrow> (\<lambda>_. None) | Some nd \<Rightarrow> node_mem_map nd),
      obj_blocks = dram_blocks m\<rparr>"

definition put_objs :: "mem_objs \<Rightarrow> machine \<Rightarrow> machine" where
  "put_objs os m =
     (put_memory_node (map_option (\<lambda>nd. nd\<lparr>node_mem_map := obj_pages os\<rparr>) (memory_node m)) m)
       \<lparr>dram_blocks := obj_blocks os\<rparr>"

text \<open>\<open>paging->access(req)\<close> and \<open>map_page_table\<close> of the paging object at an index.\<close>

definition access_paging ::
  "GlobSimInfo \<Rightarrow> walker_env \<Rightarrow> nat \<Rightarrow> MemReq \<Rightarrow> machine \<Rightarrow> (address \<times> MemReq \<times> machine) res" where
  "access_paging zinfo env i req m =
     bindE (nthE (paging_array m) i) (\<lambda>p.
     bindE (paging_access (env_raw_id env) zinfo (machine_objs m) req p) (\<lambda>(a, req, p, os).
     Inr (a, req, put_objs os (m\<lparr>paging_array := (paging_array m)[i := p]\<rparr>))))"

definition map_paging ::
  "GlobSimInfo \<Rightarrow> nat \<Rightarrow> address \<Rightarrow> void_ptr \<Rightarrow> bool \<Rightarrow> machine \<Rightarrow> (u32 \<times> machine) res" where
  "map_paging zinfo i addr pg_ptr pbuffer m =
     bindE (nthE (paging_array m) i) (\<lambda>p.
     bindE (paging_map zinfo (machine_objs m) addr pg_ptr pbuffer p) (\<lambda>(lat, p).
     Inr (lat, m\<lparr>paging_array := (paging_array m)[i := p]\<rparr>)))"

text \<open>\<open>remap_page_table\<close> of \<open>common_func.h\<close>: in every process; the cost is the largest one.\<close>

definition remap_page_table ::
  "GlobSimInfo \<Rightarrow> walker_env \<Rightarrow> address \<Rightarrow> address \<Rightarrow> bool \<Rightarrow> bool \<Rightarrow> machine \<Rightarrow> (u64 \<times> machine) res" where
  "remap_page_table zinfo env ppn dst_ppn src_dram dst_dram m =
     foldE (\<lambda>i (max_overhead, m).
       bindE (nthE (paging_array m) i) (\<lambda>p.
       bindE (paging_remap zinfo (env_raw env) (dram_manager m) ppn dst_ppn src_dram dst_dram (memory_node m) p)
         (\<lambda>(overhead, p, node).
       Inr (if max_overhead > overhead then max_overhead else overhead,
            put_memory_node node (m\<lparr>paging_array := (paging_array m)[i := p]\<rparr>)))))
       [0..<numProcs zinfo] (0, m)"

section \<open>TLB shootdown\<close>

fun base_look_up :: "address \<Rightarrow> BaseTlb \<Rightarrow> nat option \<times> BaseTlb" where
  "base_look_up vpn (Common_tlb t) = (case ct_look_up vpn True t of (r, t) \<Rightarrow> (r, Common_tlb t))"
| "base_look_up vpn (Hot_tlb h) = (case ht_look_up vpn True h of (r, h) \<Rightarrow> (r, Hot_tlb h))"

fun base_tlb :: "BaseTlb \<Rightarrow> CommonTlb" where
  "base_tlb (Common_tlb t) = t"
| "base_tlb (Hot_tlb h) = ordinary_tlb h"

fun put_base_tlb :: "CommonTlb \<Rightarrow> BaseTlb \<Rightarrow> BaseTlb" where
  "put_base_tlb t (Common_tlb _) = Common_tlb t"
| "put_base_tlb t (Hot_tlb h) = Hot_tlb (h\<lparr>ordinary_tlb := t\<rparr>)"

text \<open>The parameter \<open>shootdown_counter\<close> is passed by value here, so no counter changes.\<close>

definition tlb_shootdown_one :: "GlobSimInfo \<Rightarrow> address \<Rightarrow> MemReq \<Rightarrow> BaseTlb \<Rightarrow> MemReq \<times> BaseTlb" where
  "tlb_shootdown_one zinfo vpn req b =
     (case base_look_up vpn b of
        (None, b) \<Rightarrow> (req, b)
      | (Some i, b) \<Rightarrow>
          let t = base_tlb b
          in (add_cycles req (tlb_hit_lat zinfo),
              put_base_tlb (t\<lparr>tlb := (tlb t)[i := te_set_invalid (tlb t ! i)]\<rparr>) b))"

text \<open>The two TLBs of a core, the instruction TLB first.\<close>

definition on_core_tlbs ::
  "(MemReq \<Rightarrow> BaseTlb \<Rightarrow> (MemReq \<times> BaseTlb) res) \<Rightarrow> nat \<Rightarrow> MemReq \<Rightarrow> machine \<Rightarrow> (MemReq \<times> machine) res" where
  "on_core_tlbs f i req m =
     bindE (nthE (ins_tlbs m) i) (\<lambda>b.
     bindE (f req b) (\<lambda>(req, b).
     let m = m\<lparr>ins_tlbs := (ins_tlbs m)[i := b]\<rparr> in
     bindE (nthE (data_tlbs m) i) (\<lambda>b.
     bindE (f req b) (\<lambda>(req, b).
     Inr (req, m\<lparr>data_tlbs := (data_tlbs m)[i := b]\<rparr>)))))"

definition tlb_shootdown :: "GlobSimInfo \<Rightarrow> address \<Rightarrow> MemReq \<Rightarrow> machine \<Rightarrow> (MemReq \<times> machine) res" where
  "tlb_shootdown zinfo vpn req m =
     foldE (\<lambda>i (req, m). on_core_tlbs (\<lambda>req b. Inr (tlb_shootdown_one zinfo vpn req b)) i req m)
       [0..<numCores zinfo] (req, m)"

text \<open>
  \<open>tlb_shootdown_hscc\<close> needs the hot monitor TLB; the cast of another TLB gives a null pointer.
\<close>

definition tlb_shootdown_hscc_one ::
  "GlobSimInfo \<Rightarrow> address \<Rightarrow> address \<Rightarrow> bool \<Rightarrow> MemReq \<Rightarrow> BaseTlb \<Rightarrow> (MemReq \<times> BaseTlb) res" where
  "tlb_shootdown_hscc_one zinfo vaddr ppn in_dram req b =
     (case b of
        Common_tlb _ \<Rightarrow> Inl Null_deref
      | Hot_tlb h \<Rightarrow>
          (case ht_look_up vaddr True h of
             (None, h) \<Rightarrow> Inr (req, Hot_tlb h)
           | (Some i, h) \<Rightarrow>
               Inr (add_cycles req (tlb_hit_lat zinfo), Hot_tlb (snd (remap_ppn ppn (Some i) in_dram h)))))"

text \<open>
  Here the counter is a reference to a counter of the walker. It grows with the cycle of the
  request, by the same latency for every entry found.
\<close>

definition tlb_shootdown_hscc ::
  "GlobSimInfo \<Rightarrow> address \<Rightarrow> address \<Rightarrow> bool \<Rightarrow> MemReq \<Rightarrow> walk_state \<Rightarrow> (MemReq \<times> walk_state) res" where
  "tlb_shootdown_hscc zinfo vaddr ppn in_dram req s =
     bindE (foldE (\<lambda>i (req, m). on_core_tlbs (tlb_shootdown_hscc_one zinfo vaddr ppn in_dram) i req m)
       [0..<numCores zinfo] (req, snd s)) (\<lambda>(req', m).
     Inr (req', (fst s)\<lparr>hscc_tlb_shootdown := hscc_tlb_shootdown (fst s) + (cycle req' - cycle req)\<rparr>, m))"

section \<open>Page faults\<close>

definition find_shared_vm :: "GlobSimInfo \<Rightarrow> address \<Rightarrow> address \<times> address \<Rightarrow> bool" where
  "find_shared_vm zinfo vaddr vm_sec \<longleftrightarrow>
     (let vpn = drop_bit (page_shift zinfo) vaddr in vpn \<ge> fst vm_sec \<and> vpn < snd vm_sec)"

definition map_all_shared_memory ::
  "GlobSimInfo \<Rightarrow> address \<Rightarrow> void_ptr \<Rightarrow> machine \<Rightarrow> (u32 \<times> machine) res" where
  "map_all_shared_memory zinfo va page m =
     foldE (\<lambda>i (latency, m).
       bindE (map_paging zinfo i va page False m) (\<lambda>(lat, m). Inr (latency + lat, m)))
       [0..<numProcs zinfo] (0, m)"

text \<open>
  The region searched last is kept in \<open>mmap_cached\<close>; the search goes on from it in the
  direction of the address and leaves \<open>mmap_cached\<close> at the last region looked at.
\<close>

definition search_region :: "GlobSimInfo \<Rightarrow> address \<Rightarrow> (address \<times> address) list \<Rightarrow> nat \<Rightarrow> (bool \<times> nat) res" where
  "search_region zinfo vaddr regions cached =
     bindE (nthE regions cached) (\<lambda>(vm_start, vm_end).
       let vpn = drop_bit (page_shift zinfo) vaddr;
           hits = (\<lambda>i. find_shared_vm zinfo vaddr (regions ! i))
       in if find_shared_vm zinfo vaddr (vm_start, vm_end) then Inr (True, cached)
          else if vpn > vm_end \<and> cached < length regions - 1 then
            Inr (case find hits [cached + 1..<length regions] of
                   Some i \<Rightarrow> (True, i) | None \<Rightarrow> (False, length regions - 1))
          else if vpn < vm_start \<and> cached > 0 then
            Inr (case find hits (rev [0..<cached]) of Some i \<Rightarrow> (True, i) | None \<Rightarrow> (False, 0))
          else Inr (False, cached))"

definition map_shared_region ::
  "GlobSimInfo \<Rightarrow> void_ptr \<Rightarrow> MemReq \<Rightarrow> walk_state \<Rightarrow> (bool \<times> MemReq \<times> walk_state) res" where
  "map_shared_region zinfo page req s =
     (case s of (wk, m) \<Rightarrow>
       bindE (nthE (shared_region m) (unat (procIdx wk))) (\<lambda>regions.
       if regions = [] then Inr (False, req, wk, m)
       else
         bindE (search_region zinfo (lineAddr req) regions (mmap_cached wk)) (\<lambda>(found, i).
           let wk = wk\<lparr>mmap_cached := i\<rparr>
           in if \<not> found then Inr (False, req, wk, m)
              else
                bindE (map_all_shared_memory zinfo (lineAddr req) page m) (\<lambda>(latency, m).
                  let overhead = scast latency
                  in Inr (True, req\<lparr>cycle := cycle req + overhead\<rparr>,
                          wk\<lparr>pcm_map_overhead := pcm_map_overhead wk + overhead\<rparr>, m)))))"

text \<open>The page of a fault is mapped in the paging object of the walker.\<close>

definition map_fault_page ::
  "GlobSimInfo \<Rightarrow> void_ptr \<Rightarrow> MemReq \<Rightarrow> walk_state \<Rightarrow> (MemReq \<times> walk_state) res" where
  "map_fault_page zinfo page req s =
     (case s of (wk, m) \<Rightarrow>
       bindE (derefE (paging wk)) (\<lambda>i.
       bindE (map_paging zinfo i (lineAddr req) page False m) (\<lambda>(latency, m).
         let overhead = scast latency
         in Inr (req\<lparr>cycle := cycle req + overhead\<rparr>,
                 wk\<lparr>pcm_map_overhead := pcm_map_overhead wk + overhead\<rparr>, m))))"

definition do_page_fault ::
  "GlobSimInfo \<Rightarrow> walker_env \<Rightarrow> MemReq \<Rightarrow> walk_state \<Rightarrow> (address \<times> MemReq \<times> walk_state) res" where
  "do_page_fault zinfo env req s =
     (case s of (wk, m) \<Rightarrow>
       let vpn = drop_bit (page_shift zinfo) (lineAddr req)
       in case buddy_allocator m of
            None \<Rightarrow> Inr (vpn, req, wk, m)
          | Some ba \<Rightarrow>
              bindE (allocate_pages (env_raw env) 0 0 ba) (\<lambda>(page, ba).
                let m = m\<lparr>buddy_allocator := Some ba\<rparr>
                in case page of
                     None \<Rightarrow> Inr (vpn, req, wk, m)
                   | Some pg \<Rightarrow>
                       bindE (tlb_shootdown zinfo vpn req m) (\<lambda>(req, m).
                       bindE (if enable_shared_memory zinfo then
                                bindE (map_shared_region zinfo (PagePtr pg) req (wk, m)) (\<lambda>(found, req, s).
                                if found then Inr (req, s) else map_fault_page zinfo (PagePtr pg) req s)
                              else map_fault_page zinfo (PagePtr pg) req (wk, m)) (\<lambda>(req, wk, m).
                       bindE (as_page (machine_objs m) (PagePtr pg)) (\<lambda>page.
                       Inr (pageNo page, req, wk\<lparr>allocated_page := allocated_page wk + 1\<rparr>, m))))))"

section \<open>Access\<close>

definition walker_access ::
  "GlobSimInfo \<Rightarrow> walker_env \<Rightarrow> MemReq \<Rightarrow> walk_state \<Rightarrow> (address \<times> MemReq \<times> walk_state) res" where
  "walker_access zinfo env req s =
     (case s of (wk, m) \<Rightarrow>
       (case paging wk of
          None \<Rightarrow> Inl Assert_failed
        | Some i \<Rightarrow>
            let wk = wk\<lparr>period := period wk + 1\<rparr>;
                init_cycle = cycle req
            in bindE (access_paging zinfo env i req m) (\<lambda>(addr, req, m).
               let wk = wk\<lparr>tlb_miss_exclude_shootdown := tlb_miss_exclude_shootdown wk + (cycle req - init_cycle)\<rparr>
               in bindE (if addr = PAGE_FAULT_SIG then
                           bindE (do_page_fault zinfo env req (wk, m)) (\<lambda>(addr, req, s).
                           Inr (addr, req\<lparr>childId := 0\<rparr>, s))
                         else Inr (addr, req, wk, m)) (\<lambda>(addr, req, wk, m).
                  Inr (addr, req, wk\<lparr>tlb_miss_overhead := tlb_miss_overhead wk + (cycle req - init_cycle)\<rparr>, m)))))"

definition write_through ::
  "GlobSimInfo \<Rightarrow> walker_env \<Rightarrow> MemReq \<Rightarrow> walk_state \<Rightarrow> (MemReq \<times> walk_state) res" where
  "write_through zinfo env req s =
     (case s of (wk, m) \<Rightarrow>
       (case paging wk of
          None \<Rightarrow> Inl Assert_failed
        | Some i \<Rightarrow> bindE (access_paging zinfo env i req m) (\<lambda>(_, req, m). Inr (req, wk, m))))"

definition walker_convert_to_dirty :: "address \<Rightarrow> walk_state \<Rightarrow> walk_state res" where
  "walker_convert_to_dirty bid s =
     (case s of (wk, m) \<Rightarrow>
       bindE (fa_convert_to_dirty (unat (procIdx wk)) bid (dram_manager m)) (\<lambda>fa.
       Inr (wk, m\<lparr>dram_manager := fa\<rparr>)))"

section \<open>Moving a page to the DRAM cache\<close>

text \<open>
  A pointer to a TLB entry: the instruction or the data TLB of a core, and the index.
\<close>

record entry_ref =
  ref_ins :: bool
  ref_core :: nat
  ref_index :: nat

definition entry_at :: "entry_ref \<Rightarrow> machine \<Rightarrow> BaseTlbEntry res" where
  "entry_at r m =
     bindE (nthE (if ref_ins r then ins_tlbs m else data_tlbs m) (ref_core r)) (\<lambda>b.
     nthE (tlb (base_tlb b)) (ref_index r))"

definition block_at :: "address \<Rightarrow> machine \<Rightarrow> DRAMBufferBlock res" where
  "block_at bid m = derefE (dram_blocks m bid)"

definition put_dram_block :: "address \<Rightarrow> DRAMBufferBlock \<Rightarrow> machine \<Rightarrow> machine" where
  "put_dram_block bid b m = m\<lparr>dram_blocks := (dram_blocks m)(bid \<mapsto> b)\<rparr>"

definition clflush :: "GlobSimInfo \<Rightarrow> walker_env \<Rightarrow> address \<Rightarrow> u64 \<Rightarrow> nat \<Rightarrow> u64 \<times> u64" where
  "clflush zinfo env dram_addr issue_cycle core_id =
     env_clflush env core_id (push_bit (env_lineBits env) (drop_bit (page_shift zinfo) dram_addr)) issue_cycle"

definition store_page ::
  "walker_env \<Rightarrow> address \<Rightarrow> address \<Rightarrow> bool \<Rightarrow> NVMOpType \<Rightarrow> MemReq \<Rightarrow> machine \<Rightarrow> MemReq \<times> machine" where
  "store_page env src_addr dst_addr src_is_dram ty req m =
     (case fetcher m of
        Some reqs \<Rightarrow>
          (req, m\<lparr>fetcher := Some (reqs @ [\<lparr>phys_addr = src_addr, phys_dram = src_is_dram, dest_addr = dst_addr,
              dest_dram = \<not> src_is_dram, burstCount = env_lineNum env, nvm_type = ty\<rparr>])\<rparr>)
      | None \<Rightarrow> (req\<lparr>cycle := cycle req + 200\<rparr>, m))"

text \<open>
  The page that the block held goes back to its NVM page: in all processes that map it when
  memory is shared, otherwise in the page table of the walker.
\<close>

definition unmap_victim ::
  "GlobSimInfo \<Rightarrow> walker_env \<Rightarrow> address \<Rightarrow> address \<Rightarrow> DRAMBufferBlock \<Rightarrow> walk_state \<Rightarrow> (u64 \<times> machine) res" where
  "unmap_victim zinfo env dram_addr origin_ppn b s =
     (case s of (wk, m) \<Rightarrow>
       if enable_shared_memory zinfo then
         remap_page_table zinfo env (drop_bit (page_shift zinfo) dram_addr) origin_ppn True False m
       else
         bindE (derefE (memory_node m)) (\<lambda>nd.
         bindE (get_page_ptr (env_raw env) origin_ppn nd) (\<lambda>nd.
         bindE (derefE (paging wk)) (\<lambda>i.
         bindE (map_paging zinfo i (push_bit (page_shift zinfo) (get_vaddr b)) (PagePtr origin_ppn) False
                  (put_memory_node (Some nd) m)) (\<lambda>(lat, m).
         Inr (scast lat, m))))))"

text \<open>The entry that becomes hot is mapped to the block.\<close>

definition map_installed ::
  "GlobSimInfo \<Rightarrow> walker_env \<Rightarrow> address \<Rightarrow> address \<Rightarrow> BaseTlbEntry \<Rightarrow> walk_state \<Rightarrow> (u64 \<times> machine) res" where
  "map_installed zinfo env bid dram_addr e s =
     (case s of (wk, m) \<Rightarrow>
       if enable_shared_memory zinfo then
         remap_page_table zinfo env (p_page_no e) (drop_bit (page_shift zinfo) dram_addr) False True m
       else
         bindE (derefE (paging wk)) (\<lambda>i.
         bindE (map_paging zinfo i (push_bit (page_shift zinfo) (v_page_no e)) (BlockPtr bid) True m) (\<lambda>(lat, m).
         Inr (scast lat, m))))"

definition add_hscc_overhead :: "u64 \<Rightarrow> MemReq \<Rightarrow> PageTableWalker \<Rightarrow> MemReq \<times> PageTableWalker" where
  "add_hscc_overhead overhead req wk =
     (req\<lparr>cycle := cycle req + overhead\<rparr>, wk\<lparr>hscc_map_overhead := hscc_map_overhead wk + overhead\<rparr>)"

definition evict_and_fetch ::
  "GlobSimInfo \<Rightarrow> walker_env \<Rightarrow> MemReq \<Rightarrow> address \<Rightarrow> entry_ref \<Rightarrow> bool \<Rightarrow> walk_state \<Rightarrow>
   (bool \<times> MemReq \<times> walk_state) res" where
  "evict_and_fetch zinfo env req bid entry evict s =
     (case s of (wk, m) \<Rightarrow>
     bindE (block_at bid m) (\<lambda>b.
       let origin_ppn = get_src_addr b;
           dram_addr = block_id_to_addr zinfo (block_id b);
           dirty = (is_occupied b \<and> block_is_dirty b);
           evict = (evict \<or> dirty);
           wk = (if dirty then wk\<lparr>dirty_evict := dirty_evict wk + 1\<rparr> else wk);
           (req, m) = (if dirty then store_page env dram_addr (push_bit (page_shift zinfo) origin_ppn) True NVM_FETCH req m
                       else (req, m));
           wk = (if is_occupied b then wk\<lparr>total_evict := total_evict wk + 1\<rparr> else wk);
           (req, m) = store_page env (lineAddr req) dram_addr False NVM_READ req m
       in bindE (if is_occupied b then
                   bindE (unmap_victim zinfo env dram_addr origin_ppn b (wk, m)) (\<lambda>(overhead, m).
                   let (req, wk) = add_hscc_overhead overhead req wk
                   in Inr (req, wk, put_dram_block bid (block_invalidate b) m))
                 else Inr (req, wk, m)) (\<lambda>(req, wk, m).
          bindE (entry_at entry m) (\<lambda>e.
          bindE (block_at bid m) (\<lambda>b.
          bindE (block_validate b (drop_bit (block_shift zinfo) (lineAddr req))) (\<lambda>b.
            let m = put_dram_block bid (set_vaddr (set_src_addr b (p_page_no e)) (v_page_no e)) m
            in bindE (map_installed zinfo env bid dram_addr e (wk, m)) (\<lambda>(overhead, m).
               let (req, wk) = add_hscc_overhead overhead req wk
               in Inr (evict, req, wk, m))))))))"

definition evict_DRAM_page ::
  "GlobSimInfo \<Rightarrow> walker_env \<Rightarrow> MemReq \<Rightarrow> address \<Rightarrow> entry_ref \<Rightarrow> nat \<Rightarrow> bool \<Rightarrow> walk_state \<Rightarrow>
   (bool \<times> MemReq \<times> walk_state) res" where
  "evict_DRAM_page zinfo env req bid entry core_id evict s =
     (case s of (wk, m) \<Rightarrow>
     bindE (block_at bid m) (\<lambda>b.
       let dram_addr = block_id_to_addr zinfo (block_id b)
       in bindE (if is_occupied b then
                   let (cyc, wbs) = clflush zinfo env dram_addr (cycle req) core_id;
                       wk = wk\<lparr>extra_write := extra_write wk + wbs,
                               clflush_overhead := clflush_overhead wk + (cyc - cycle req)\<rparr>;
                       m = (if wbs \<noteq> 0 then put_dram_block bid (block_set_dirty b) m else m)
                   in tlb_shootdown_hscc zinfo (get_vaddr b) (get_src_addr b) False (req\<lparr>cycle := cyc\<rparr>) (wk, m)
                 else Inr (req, wk, m)) (\<lambda>(req, s).
          bindE (evict_and_fetch zinfo env req bid entry evict s) (\<lambda>(evict, req, wk, m).
          bindE (entry_at entry m) (\<lambda>e.
          bindE (tlb_shootdown_hscc zinfo (v_page_no e) (drop_bit (page_shift zinfo) dram_addr) True req (wk, m))
            (\<lambda>(req, s).
          Inr (evict, req, s)))))))"

definition do_dram_page_fault ::
  "GlobSimInfo \<Rightarrow> walker_env \<Rightarrow> MemReq \<Rightarrow> nat \<Rightarrow> entry_ref \<Rightarrow> bool \<Rightarrow> walk_state \<Rightarrow>
   (address \<times> bool \<times> MemReq \<times> walk_state) res" where
  "do_dram_page_fault zinfo env req coreId entry evict s =
     (case s of (wk, m) \<Rightarrow>
     bindE (allocate_page (env_first env) (unat (procIdx wk)) (dram_manager m)) (\<lambda>(dram_block, fa).
       let m = m\<lparr>dram_manager := fa\<rparr>
       in case dram_block of
            None \<Rightarrow> Inr (INVALID_PAGE_ADDR, evict, req, wk, m)
          | Some bid \<Rightarrow>
              let (cyc, write_backs) = clflush zinfo env (lineAddr req) (cycle req) coreId;
                  wk = wk\<lparr>extra_write := extra_write wk + write_backs,
                          clflush_overhead := clflush_overhead wk + (cyc - cycle req)\<rparr>
              in bindE (evict_DRAM_page zinfo env (req\<lparr>cycle := cyc\<rparr>) bid entry coreId evict (wk, m))
                   (\<lambda>(evict, req, s).
                 bindE (block_at bid (snd s)) (\<lambda>b.
                 Inr (block_id_to_addr zinfo (block_id b), evict, req, s)))))"

section \<open>The TLBs of the machine\<close>

text \<open>
  The calls of a TLB to the walker of its core: the TLB is put back for the call, because a
  page fault shoots down entries of all TLBs, and taken out again afterwards.
\<close>

record tlb_ref =
  tref_ins :: bool
  tref_core :: nat

definition get_tlb :: "tlb_ref \<Rightarrow> machine \<Rightarrow> BaseTlb res" where
  "get_tlb r m = nthE (if tref_ins r then ins_tlbs m else data_tlbs m) (tref_core r)"

definition set_tlb :: "tlb_ref \<Rightarrow> BaseTlb \<Rightarrow> machine \<Rightarrow> machine" where
  "set_tlb r b m =
     (if tref_ins r then m\<lparr>ins_tlbs := (ins_tlbs m)[tref_core r := b]\<rparr>
      else m\<lparr>data_tlbs := (data_tlbs m)[tref_core r := b]\<rparr>)"

definition walk_from ::
  "GlobSimInfo \<Rightarrow> walker_env \<Rightarrow> tlb_ref \<Rightarrow> BaseTlb \<Rightarrow> MemReq \<Rightarrow> CommonTlb \<Rightarrow> walk_state \<Rightarrow>
   (address \<times> MemReq \<times> CommonTlb \<times> walk_state) res" where
  "walk_from zinfo env r b req t s =
     bindE (walker_access zinfo env req (fst s, set_tlb r (put_base_tlb t b) (snd s))) (\<lambda>(ppn, req, wk, m).
     bindE (get_tlb r m) (\<lambda>b.
     Inr (ppn, req, base_tlb b, wk, m)))"

text \<open>\<open>tlb->access(req)\<close>, the translation of a core.\<close>

definition tlb_access ::
  "GlobSimInfo \<Rightarrow> walker_env \<Rightarrow> BaseTlbEntry \<Rightarrow> tlb_ref \<Rightarrow> MemReq \<Rightarrow> walk_state \<Rightarrow>
   (address \<times> MemReq \<times> walk_state) res" where
  "tlb_access zinfo env raw r req s =
     bindE (get_tlb r (snd s)) (\<lambda>b.
       let walk = walk_from zinfo env r b
       in bindE (case b of
              Common_tlb t \<Rightarrow>
                bindE (ct_access zinfo raw walk (write_through zinfo env) req t s) (\<lambda>(pa, req, t, s).
                Inr (pa, req, Common_tlb t, s))
            | Hot_tlb h \<Rightarrow>
                bindE (ht_access zinfo raw (env_raw_id env) walk (write_through zinfo env)
                         walker_convert_to_dirty req h s) (\<lambda>(pa, req, h, s).
                Inr (pa, req, Hot_tlb h, s))) (\<lambda>(pa, req, b, wk, m).
          Inr (pa, req, wk, set_tlb r b m)))"

end
