(* ===== verification/Machine_Map.thy ===== *)
theory Machine_Map
  imports Page_Table_Walker
begin

text \<open>
  The memory map of the machine: the page tables of all processes with the objects they point to,
  as one partial map from virtual pages to frames. The invariant \<open>machine_ok\<close> says that mapped
  frames exist, are not free and are mapped once. An access to a page table keeps it, and pages
  that the allocator hands out only add to what exists.
\<close>

section \<open>What an access changes of the objects\<close>

text \<open>
  An access to a page table may store the counter of a page and mark a block dirty; the numbers,
  the links and the addresses of pages and blocks stay.
\<close>

definition page_core :: "Page \<Rightarrow> address \<times> address option" where
  "page_core p = (pageNo p, next_page p)"

definition block_core :: "DRAMBufferBlock \<Rightarrow> address \<times> address \<times> address \<times> bool" where
  "block_core b = (block_id b, original_addr b, block_vaddr b, is_occupied b)"

definition objs_like :: "mem_objs \<Rightarrow> mem_objs \<Rightarrow> bool" where
  "objs_like os os' \<longleftrightarrow>
     (\<forall>n. map_option page_core (obj_pages os' n) = map_option page_core (obj_pages os n)) \<and>
     (\<forall>n. map_option block_core (obj_blocks os' n) = map_option block_core (obj_blocks os n))"

lemma objs_like_refl [simp]: "objs_like os os"
  by (simp add: objs_like_def)

lemma core_simps [simp]:
  "page_core (set_overlap p c) = page_core p" "block_core (block_set_dirty b) = block_core b"
  by (simp_all add: page_core_def set_overlap_def block_core_def) (simp add: block_set_dirty_def)

lemma finish_access_like:
  assumes "finish_access z os hp req pgt ptr i pbuffer = Inr (a, req', hp', os')"
  shows "objs_like os os'"
  using assms
  by (cases ptr)
    (auto simp: finish_access_def get_block_id_def as_page_def as_block_def res_simps Let_def objs_like_def
      split: if_splits option.splits)

lemma lm_access_like:
  assumes "lm_access z p os req = Inr (a, req', p', os')"
  shows "objs_like os os'"
  using assms
  by (auto simp: lm_access_def lm_access_tables_def res_simps Let_def split: if_splits prod.splits
      dest: finish_access_like)

lemma obj_addr_like:
  assumes "objs_like os os'"
  shows "obj_addr z os' = obj_addr z os"
proof
  fix ptr
  have p: "map_option pageNo (obj_pages os' n) = map_option pageNo (obj_pages os n)" for n
    using assms by (cases "obj_pages os' n"; cases "obj_pages os n")
      (auto simp: objs_like_def page_core_def dest: spec [of _ n])
  have b: "map_option f (obj_blocks os' n) = map_option f (obj_blocks os n)" if "\<And>b. f b = g (block_id b)"
    for n and f :: "DRAMBufferBlock \<Rightarrow> address" and g
    using assms that by (cases "obj_blocks os' n"; cases "obj_blocks os n")
      (auto simp: objs_like_def block_core_def dest: spec [of _ n])
  show "obj_addr z os' ptr = obj_addr z os ptr"
    using p by (cases ptr) (auto simp: obj_addr_def intro!: b [where g = "\<lambda>i. drop_bit (page_shift z) (block_id_to_addr z i)"])
qed

section \<open>Objects of the machine\<close>

lemma memory_node_put [simp]:
  "memory_node (put_memory_node node m) = (if buddy_allocator m = None then None else node)"
  by (auto simp: memory_node_def put_memory_node_def)

lemma put_memory_node_fields [simp]:
  "paging_array (put_memory_node node m) = paging_array m" "ins_tlbs (put_memory_node node m) = ins_tlbs m"
  "data_tlbs (put_memory_node node m) = data_tlbs m" "dram_blocks (put_memory_node node m) = dram_blocks m"
  "dram_manager (put_memory_node node m) = dram_manager m" "fetcher (put_memory_node node m) = fetcher m"
  "shared_region (put_memory_node node m) = shared_region m"
  by (simp_all add: put_memory_node_def)

lemma put_objs_fields [simp]:
  "paging_array (put_objs os m) = paging_array m" "ins_tlbs (put_objs os m) = ins_tlbs m"
  "data_tlbs (put_objs os m) = data_tlbs m" "dram_manager (put_objs os m) = dram_manager m"
  "fetcher (put_objs os m) = fetcher m" "shared_region (put_objs os m) = shared_region m"
  "dram_blocks (put_objs os m) = obj_blocks os"
  by (simp_all add: put_objs_def)

lemma machine_objs_put:
  assumes "memory_node m = None \<Longrightarrow> obj_pages os = (\<lambda>_. None)"
  shows "machine_objs (put_objs os m) = os"
  using assms by (cases "memory_node m") (auto simp: machine_objs_def put_objs_def memory_node_def put_memory_node_def split: option.splits)


lemma machine_objs_no_node: "memory_node m = None \<Longrightarrow> obj_pages (machine_objs m) = (\<lambda>_. None)"
  by (simp add: machine_objs_def)

lemma objs_like_no_pages: "objs_like os os' \<Longrightarrow> obj_pages os = (\<lambda>_. None) \<Longrightarrow> obj_pages os' = (\<lambda>_. None)"
  by (auto simp: objs_like_def)

section \<open>The buddy allocator inside the machine\<close>

lemma nexts_like:
  assumes "\<forall>n. map_option page_core (ps' n) = map_option page_core (ps n)"
  shows "nexts ps' = nexts ps" and "node_ok ps \<Longrightarrow> node_ok ps'"
proof -
  have core: "map_option page_core (ps' n) = map_option page_core (ps n)" for n using assms by simp
  have "map_option next_page (ps' n) = map_option next_page (ps n)" for n
    using core [of n] by (cases "ps' n"; cases "ps n") (auto simp: page_core_def)
  then show "nexts ps' = nexts ps" by (simp add: nexts_def fun_eq_iff)
  have "map_option pageNo (ps' n) = map_option pageNo (ps n)" for n
    using core [of n] by (cases "ps' n"; cases "ps n") (auto simp: page_core_def)
  then show "node_ok ps'" if "node_ok ps"
    using that unfolding node_ok_def by (metis map_option_eq_Some)
qed

lemma buddy_inv_pages:
  assumes "buddy_inv ba zone bl" and "mem_node ba = Some nd"
    and "\<forall>n. map_option page_core (ps n) = map_option page_core (node_mem_map nd n)"
  shows "buddy_inv (ba\<lparr>mem_node := Some (nd\<lparr>node_mem_map := ps\<rparr>)\<rparr>) zone bl"
  using assms(1,2) nexts_like [OF assms(3)] lists_rep_nexts [of ps "node_mem_map nd"]
  by (auto simp: buddy_inv_def)

text \<open>Allocation removes no page descriptor.\<close>

definition grows :: "MemoryNode \<Rightarrow> MemoryNode \<Rightarrow> bool" where
  "grows nd nd' \<longleftrightarrow> dom (node_mem_map nd) \<subseteq> dom (node_mem_map nd') \<and> node_page_num nd' = node_page_num nd"

lemma grows_refl [simp]: "grows nd nd"
  by (simp add: grows_def)

lemma grows_trans [trans]: "grows nd nd1 \<Longrightarrow> grows nd1 nd2 \<Longrightarrow> grows nd nd2"
  unfolding grows_def by auto

lemma grows_upd: "dom (node_mem_map nd) \<subseteq> dom ps \<Longrightarrow> grows nd (nd\<lparr>node_mem_map := ps\<rparr>)"
  "grows nd (nd\<lparr>node_zones := zs\<rparr>)"
  by (simp_all add: grows_def)

lemma strip_dom: "strip ps' = strip ps \<Longrightarrow> dom ps' = dom ps"
  unfolding strip_def fun_eq_iff
proof (intro set_eqI iffI)
  fix x assume "\<forall>x. map_option (next_page_update (\<lambda>_. None)) (ps' x) = map_option (next_page_update (\<lambda>_. None)) (ps x)"
  then have "map_option (next_page_update (\<lambda>_. None)) (ps' x) = map_option (next_page_update (\<lambda>_. None)) (ps x)" by simp
  then show "x \<in> dom ps' \<Longrightarrow> x \<in> dom ps" "x \<in> dom ps \<Longrightarrow> x \<in> dom ps'" by (cases "ps x"; auto)+
qed

lemma get_page_ptr_grows: "get_page_ptr raw x nd = Inr nd' \<Longrightarrow> grows nd nd'"
  by (auto simp: get_page_ptr_def res_simps grows_def split: if_splits)

lemma page_upd_grows: "page_upd raw x f nd = Inr nd' \<Longrightarrow> grows nd nd'"
  by (auto simp: page_upd_def page_at_def res_simps dest!: get_page_ptr_grows) (auto simp: grows_def)

lemma set_page_order_grows: "set_page_order raw x k nd = Inr nd' \<Longrightarrow> grows nd nd'"
  by (auto simp: set_page_order_def set_page_private_def set_page_buddy_def res_simps
      dest!: page_upd_grows intro: grows_trans)

lemma expand_grows:
  "expand raw p low high z nd = Inr (z', nd') \<Longrightarrow> grows nd nd'"
proof (induction high arbitrary: z nd)
  case (Suc h)
  show ?case
  proof (cases "low < Suc h")
    case True
    then obtain nd1 bl ps nd2 z2 where *:
      "get_page_ptr raw (p + 2 ^ h) nd = Inr nd1"
      "fl_push_block_back (block_list (free_area z ! h)) (p + 2 ^ h) (node_mem_map nd1) = Inr (bl, ps)"
      "set_page_order raw (p + 2 ^ h) (of_nat h) (nd1\<lparr>node_mem_map := ps\<rparr>) = Inr nd2"
      "expand raw p low h z2 nd2 = Inr (z', nd')"
      using Suc.prems by (auto simp: res_simps Let_def split: prod.splits)
    have "grows nd nd1" by (rule get_page_ptr_grows [OF *(1)])
    also have "grows nd1 (nd1\<lparr>node_mem_map := ps\<rparr>)"
      by (rule grows_upd) (simp add: strip_dom [OF fl_push_strip [OF *(2)]])
    also have "grows \<dots> nd2" by (rule set_page_order_grows [OF *(3)])
    also have "grows nd2 nd'" by (rule Suc.IH [OF *(4)])
    finally show ?thesis .
  qed (use Suc.prems in simp)
qed simp

lemma rmqueue_grows:
  "rmqueue_orders raw n os fpn z nd = Inr (r, fpn', z', nd') \<Longrightarrow> grows nd nd'"
proof (induction os)
  case (Cons k os)
  show ?case
  proof (cases "k < length (free_area z) \<and> fl_get_size (block_list (free_area z ! k)) \<noteq> 0")
    case True
    then obtain page bl ps p z1 where *:
      "fl_fetch_head (block_list (free_area z ! k)) (node_mem_map nd) = Inr (page, bl, ps)"
      "ps page = Some p"
      "expand raw (pageNo p) n k z1 (nd\<lparr>node_mem_map :=
                 ps(page \<mapsto> p\<lparr>map_count := -1, page_private := 0, page_count := 1\<rparr>)\<rparr>) = Inr (z', nd')"
      using Cons.prems by (auto simp: res_simps Let_def split: prod.splits)
    have "grows nd (nd\<lparr>node_mem_map :=
        ps(page \<mapsto> p\<lparr>map_count := -1, page_private := 0, page_count := 1\<rparr>)\<rparr>)"
      by (rule grows_upd) (auto simp: strip_dom [OF fl_fetch_strip [OF *(1)]])
    also have "grows \<dots> nd'" by (rule expand_grows [OF *(3)])
    finally show ?thesis .
  qed (use Cons in \<open>auto simp: res_simps\<close>)
qed simp

lemma rmqueue_page_grows:
  assumes "rmqueue_page_smallest raw zone n ba = Inr (r, ba')" and "mem_node ba = Some nd" "mem_node ba' = Some nd'"
  shows "grows nd nd'"
proof -
  obtain z z' nd1 fpn where "rmqueue_orders raw n [n..<MAXORDER + 1] (free_page_num ba) z nd = Inr (r, fpn, z', nd1)"
    "nd' = nd1\<lparr>node_zones := (node_zones nd1)(zone \<mapsto> z')\<rparr>"
    using assms by (auto simp: rmqueue_page_smallest_def res_simps split: prod.splits)
  then show ?thesis using rmqueue_grows grows_upd(2) grows_trans by blast
qed

lemma allocate_pages_grows:
  assumes "allocate_pages raw g n ba = Inr (r, ba')" and "mem_node ba = Some nd" "mem_node ba' = Some nd'"
  shows "grows nd nd'"
proof (cases "ba' = ba")
  case False
  then obtain zone where "rmqueue_page_smallest raw zone n ba = Inr (r, ba')"
    using assms(1) by (auto simp: allocate_pages_def allocate_pages_zone_def bindE_Inr_iff assertE_Inr_iff split: if_splits option.splits)
  then show ?thesis by (rule rmqueue_page_grows [OF _ assms(2,3)])
qed (use assms in simp)

section \<open>The memory map of the machine\<close>

text \<open>The page tables, which are the tables of the long mode here, as one partial map.\<close>

definition lm_paging :: "machine \<Rightarrow> nat \<Rightarrow> LongModePaging option" where
  "lm_paging m i =
     (if i < length (paging_array m)
      then (case paging_array m ! i of LongMode_paging p \<Rightarrow> Some p | _ \<Rightarrow> None) else None)"

definition mapped_at :: "machine \<Rightarrow> nat \<Rightarrow> nat \<Rightarrow> void_ptr option" where
  "mapped_at m i n = (case lm_paging m i of None \<Rightarrow> None | Some p \<Rightarrow> lm_abs p n)"

text \<open>The number under which the tables of a process hold a virtual page.\<close>

definition table_index :: "machine \<Rightarrow> nat \<Rightarrow> address \<Rightarrow> nat" where
  "table_index m i v =
     (case lm_paging m i of None \<Rightarrow> 0 | Some p \<Rightarrow> unat v mod 512 ^ Suc (lm_levels (lm_mode p)))"

definition node_pages :: "machine \<Rightarrow> address" where
  "node_pages m = (case memory_node m of None \<Rightarrow> 0 | Some nd \<Rightarrow> node_page_num nd)"

text \<open>The allocator refuses a page: then a fault is served with the virtual page number.\<close>

definition exhausted :: "walker_env \<Rightarrow> machine \<Rightarrow> bool" where
  "exhausted env m \<longleftrightarrow>
     (case buddy_allocator m of None \<Rightarrow> True
      | Some ba \<Rightarrow> allocate_pages (env_raw env) 0 0 ba = Inr (None, ba))"

text \<open>
  The translation that an access of a process gets: what the page table holds for the page, and for
  a page that the table does not hold the page itself, once the allocator refuses.
\<close>

definition machine_tr :: "GlobSimInfo \<Rightarrow> walker_env \<Rightarrow> nat \<Rightarrow> machine \<Rightarrow> address \<Rightarrow> address option" where
  "machine_tr z env i m v =
     (case mapped_at m i (table_index m i v) of
        Some ptr \<Rightarrow> obj_addr z (machine_objs m) ptr
      | None \<Rightarrow> if exhausted env m then Some v else None)"

text \<open>
  What holds of the map: a mapped page exists and is not free, a mapped block of the DRAM cache
  lies behind the pages, and no two virtual pages, of one process or of two, share a frame.
\<close>

definition frame_ok :: "nat multiset \<Rightarrow> address \<Rightarrow> (void_ptr \<Rightarrow> address option) \<Rightarrow> void_ptr \<Rightarrow> bool" where
  "frame_ok F n oa ptr \<longleftrightarrow>
     (case ptr of
        PagePtr a \<Rightarrow> oa ptr = Some a \<and> unat a \<notin># F \<and> a < n
      | BlockPtr b \<Rightarrow> \<exists>a. oa ptr = Some a \<and> n \<le> a \<and> a \<noteq> PAGE_FAULT_SIG
      | _ \<Rightarrow> False)"

definition frames_ok ::
  "nat multiset \<Rightarrow> address \<Rightarrow> (nat \<Rightarrow> nat \<Rightarrow> void_ptr option) \<Rightarrow> (void_ptr \<Rightarrow> address option) \<Rightarrow> bool" where
  "frames_ok F n mp oa \<longleftrightarrow>
     (\<forall>i k ptr. mp i k = Some ptr \<longrightarrow> frame_ok F n oa ptr) \<and>
     (\<forall>i k j l p q. mp i k = Some p \<and> mp j l = Some q \<and> oa p = oa q \<longrightarrow> i = j \<and> k = l)"

definition table_ok :: "GlobSimInfo \<Rightarrow> LongModePaging \<Rightarrow> bool" where
  "table_ok z p \<longleftrightarrow> lm_inv p \<and> lm_mode p \<noteq> LongMode_Huge \<and> lm_shift (lm_mode p) = page_shift z"

definition free_frames :: "machine \<Rightarrow> nat multiset \<Rightarrow> bool" where
  "free_frames m F \<longleftrightarrow>
     (case buddy_allocator m of None \<Rightarrow> F = {#}
      | Some ba \<Rightarrow> \<exists>bl. buddy_inv ba Zone_Normal bl \<and> F = free_mset bl)"

definition tables_ok :: "GlobSimInfo \<Rightarrow> machine \<Rightarrow> bool" where
  "tables_ok z m \<longleftrightarrow> (\<forall>i<length (paging_array m). \<exists>p. lm_paging m i = Some p \<and> table_ok z p)"

definition machine_ok :: "GlobSimInfo \<Rightarrow> machine \<Rightarrow> bool" where
  "machine_ok z m \<longleftrightarrow>
     tables_ok z m \<and>
     (\<exists>F. free_frames m F \<and> frames_ok F (node_pages m) (mapped_at m) (obj_addr z (machine_objs m)))"

lemma frame_okD:
  assumes "frame_ok F n oa ptr"
  obtains a where "oa ptr = Some a" "a \<noteq> PAGE_FAULT_SIG"
proof (cases ptr)
  case (PagePtr a)
  then have "oa ptr = Some a" "a < n" using assms by (simp_all add: frame_ok_def)
  moreover have "a \<noteq> PAGE_FAULT_SIG"
  proof
    assume "a = PAGE_FAULT_SIG"
    then show False using \<open>a < n\<close> word_order.extremum [of n] by (simp add: PAGE_FAULT_SIG_def INVALID_PAGE_ADDR_def)
  qed
  ultimately show thesis using that by blast
qed (use assms that in \<open>auto simp: frame_ok_def\<close>)

text \<open>A free frame is mapped where nothing was mapped.\<close>

lemma frames_ok_map:
  assumes ok: "frames_ok (add_mset (unat a) F) n mp oa" and new: "mp i k = None" "unat a \<notin># F" "a < n"
    and oa: "\<And>ptr x. oa ptr = Some x \<Longrightarrow> oa' ptr = Some x" "oa' (PagePtr a) = Some a"
  shows "frames_ok F n (mp(i := (mp i)(k \<mapsto> PagePtr a))) oa'"
proof -
  define mp' where "mp' = mp(i := (mp i)(k \<mapsto> PagePtr a))"
  have mp': "mp' j l = (if j = i \<and> l = k then Some (PagePtr a) else mp j l)" for j l
    by (simp add: mp'_def)
  have old: "\<exists>x. oa p = Some x \<and> oa' p = Some x \<and> x \<noteq> a" "frame_ok F n oa' p" if "mp j l = Some p" for j l p
  proof -
    have "frame_ok (add_mset (unat a) F) n oa p" using ok that unfolding frames_ok_def by blast
    then show "\<exists>x. oa p = Some x \<and> oa' p = Some x \<and> x \<noteq> a" "frame_ok F n oa' p"
      using oa(1) new(3) by (cases p; force simp: frame_ok_def)+
  qed
  have inj: "i1 = j \<and> k1 = l" if "mp i1 k1 = Some p" "mp j l = Some q" "oa p = oa q" for i1 k1 j l p q
    using ok that unfolding frames_ok_def by blast
  have "j1 = j2 \<and> l1 = l2" if "mp' j1 l1 = Some p" "mp' j2 l2 = Some q" "oa' p = oa' q" for j1 l1 j2 l2 p q
    using that old(1) [of j1 l1 p] old(1) [of j2 l2 q] inj [of j1 l1 p j2 l2 q] oa(2)
    by (auto simp: mp' split: if_splits)
  moreover have "frame_ok F n oa' ptr" if "mp' j l = Some ptr" for j l ptr
    using that old(2) [of j l ptr] new(2,3) oa(2) by (auto simp: mp' frame_ok_def split: if_splits)
  ultimately show ?thesis unfolding frames_ok_def mp'_def [symmetric] by blast
qed

lemma tables_okE:
  assumes "tables_ok z m" and "i < length (paging_array m)"
  obtains p where "paging_array m ! i = LongMode_paging p" "lm_paging m i = Some p" "table_ok z p"
    "mapped_at m i = lm_abs p"
proof -
  obtain p where p: "lm_paging m i = Some p" "table_ok z p" using assms by (auto simp: tables_ok_def)
  then have "paging_array m ! i = LongMode_paging p"
    by (auto simp: lm_paging_def split: if_splits BasePaging.splits)
  moreover have "mapped_at m i = lm_abs p" using p(1) by (simp add: mapped_at_def fun_eq_iff)
  ultimately show thesis using that p by blast
qed

lemma lm_vpn_index:
  assumes "lm_paging m i = Some p" "table_ok z p"
  shows "lm_vpn (lm_mode p) a = table_index m i (vpn_of z a)"
  using assms by (simp add: lm_vpn_def table_index_def vpn_of_def table_ok_def unat_drop_bit)

lemma lm_paging_upd:
  "i < length (paging_array m) \<Longrightarrow> lm_paging (m\<lparr>paging_array := (paging_array m)[i := LongMode_paging p]\<rparr>) =
     (lm_paging m)(i \<mapsto> p)"
  by (auto simp: lm_paging_def fun_eq_iff nth_list_update)

lemma machine_map_fields [simp]:
  "lm_paging (put_objs os m) = lm_paging m" "mapped_at (put_objs os m) = mapped_at m"
  "lm_paging (m\<lparr>ins_tlbs := x\<rparr>) = lm_paging m" "lm_paging (m\<lparr>data_tlbs := x\<rparr>) = lm_paging m"
  "lm_paging (m\<lparr>buddy_allocator := ba\<rparr>) = lm_paging m" "mapped_at (m\<lparr>buddy_allocator := ba\<rparr>) = mapped_at m"
  by (simp_all add: lm_paging_def mapped_at_def fun_eq_iff)

text \<open>The map does not depend on the TLBs.\<close>

definition machine_core :: "machine \<Rightarrow> BasePaging list \<times> BuddyAllocator option \<times> (address \<Rightarrow> DRAMBufferBlock option)" where
  "machine_core m = (paging_array m, buddy_allocator m, dram_blocks m)"

lemma machine_core_cong:
  assumes "machine_core m' = machine_core m"
  shows "machine_ok z m' = machine_ok z m" "machine_tr z env i m' = machine_tr z env i m"
    "mapped_at m' = mapped_at m" "machine_objs m' = machine_objs m" "length (paging_array m') = length (paging_array m)"
proof -
  have "paging_array m' = paging_array m" "buddy_allocator m' = buddy_allocator m" "dram_blocks m' = dram_blocks m"
    using assms by (simp_all add: machine_core_def)
  moreover from this have "lm_paging m' = lm_paging m" "memory_node m' = memory_node m"
    by (simp_all add: lm_paging_def memory_node_def fun_eq_iff)
  moreover from calculation have "mapped_at m' = mapped_at m" "table_index m' = table_index m"
    "node_pages m' = node_pages m" "free_frames m' = free_frames m" "machine_objs m' = machine_objs m"
    "exhausted env m' = exhausted env m"
    by (simp_all add: mapped_at_def table_index_def node_pages_def free_frames_def machine_objs_def fun_eq_iff
        exhausted_def)
  ultimately show "machine_ok z m' = machine_ok z m" "machine_tr z env i m' = machine_tr z env i m"
    "mapped_at m' = mapped_at m" "machine_objs m' = machine_objs m" "length (paging_array m') = length (paging_array m)"
    by (simp_all add: machine_ok_def tables_ok_def machine_tr_def [abs_def] cong: option.case_cong)
qed

section \<open>An access to the page table\<close>

lemma exhausted_iff:
  assumes "free_frames m F"
  shows "exhausted env m \<longleftrightarrow> F = {#}"
proof (cases "buddy_allocator m")
  case (Some ba)
  then obtain bl where bl: "buddy_inv ba Zone_Normal bl" "F = free_mset bl"
    using assms by (auto simp: free_frames_def)
  have run: "allocate_pages (env_raw env) 0 0 ba = allocate_pages_zone (env_raw env) Zone_Normal 0 ba"
    by (rule allocate_pages_normal [OF bl(1)]) simp
  show ?thesis
  proof (cases "F = {#}")
    case True
    then have "allocate_pages_zone (env_raw env) Zone_Normal 0 ba = Inr (None, ba)"
      using bl by (intro allocate_none) (auto simp: free_mset_empty)
    then show ?thesis using True Some run by (simp add: exhausted_def)
  next
    case False
    then obtain k where "k \<le> MAXORDER" "bl k \<noteq> []" using bl(2) by (auto simp: free_mset_empty)
    then have "allocate_pages_zone (env_raw env) Zone_Normal 0 ba \<noteq> Inr (None, ba)"
      using allocate_some [OF bl(1), of 0 k "env_raw env"] by auto
    then show ?thesis using False Some run by (simp add: exhausted_def)
  qed
qed (use assms in \<open>simp add: free_frames_def exhausted_def\<close>)

text \<open>Storing counters and dirty marks in the objects keeps the free lists and the translations.\<close>

lemma put_objs_free:
  assumes free: "free_frames m F" and like: "objs_like (machine_objs m) os"
  shows "free_frames (put_objs os m) F" "machine_objs (put_objs os m) = os" "node_pages (put_objs os m) = node_pages m"
proof -
  show "machine_objs (put_objs os m) = os"
    by (rule machine_objs_put) (rule objs_like_no_pages [OF like machine_objs_no_node])
  show "node_pages (put_objs os m) = node_pages m"
    by (auto simp: node_pages_def put_objs_def memory_node_def put_memory_node_def split: option.splits)
  show "free_frames (put_objs os m) F"
  proof (cases "buddy_allocator m")
    case (Some ba)
    then obtain bl where bl: "buddy_inv ba Zone_Normal bl" "F = free_mset bl"
      using free by (auto simp: free_frames_def)
    then obtain nd where nd: "mem_node ba = Some nd" by (auto simp: buddy_inv_def)
    then have "obj_pages (machine_objs m) = node_mem_map nd" using Some by (simp add: machine_objs_def memory_node_def)
    then have "buddy_inv (ba\<lparr>mem_node := Some (nd\<lparr>node_mem_map := obj_pages os\<rparr>)\<rparr>) Zone_Normal bl"
      using like by (intro buddy_inv_pages [OF bl(1) nd]) (simp add: objs_like_def)
    then show ?thesis using Some nd bl(2) by (auto simp: free_frames_def put_objs_def put_memory_node_def memory_node_def)
  qed (use free in \<open>simp add: free_frames_def put_objs_def put_memory_node_def\<close>)
qed

lemma machine_tr_cong:
  assumes "mapped_at m' = mapped_at m" "table_index m' = table_index m" "free_frames m F" "free_frames m' F"
    "obj_addr z (machine_objs m') = obj_addr z (machine_objs m)"
  shows "machine_tr z env j m' = machine_tr z env j m"
  using assms exhausted_iff [OF assms(3)] exhausted_iff [OF assms(4)]
  by (simp add: machine_tr_def [abs_def] cong: option.case_cong)

lemma lm_paging_same:
  assumes "lm_paging m i = Some p" "lm_paging m' = (lm_paging m)(i \<mapsto> p')" "lm_mode p' = lm_mode p"
  shows "table_index m' = table_index m" "lm_abs p' = lm_abs p \<Longrightarrow> mapped_at m' = mapped_at m"
  using assms by (auto simp: table_index_def mapped_at_def fun_eq_iff)

lemma access_paging_ok:
  assumes ok: "machine_ok z m" and i: "i < length (paging_array m)" and v: "v = vpn_of z (lineAddr req)"
  obtains req' m' where
    "access_paging z env i req m =
       Inr (case mapped_at m i (table_index m i v) of None \<Rightarrow> PAGE_FAULT_SIG | Some ptr \<Rightarrow> the (obj_addr z (machine_objs m) ptr),
         req', m')"
    "lineAddr req' = lineAddr req" "machine_ok z m'" "\<And>j. machine_tr z env j m' = machine_tr z env j m"
    "mapped_at m' = mapped_at m" "table_index m' = table_index m"
    "ins_tlbs m' = ins_tlbs m" "data_tlbs m' = data_tlbs m" "length (paging_array m') = length (paging_array m)"
proof -
  obtain p where p: "paging_array m ! i = LongMode_paging p" "lm_paging m i = Some p" "table_ok z p"
    "mapped_at m i = lm_abs p"
    using ok by (auto simp: machine_ok_def elim: tables_okE [OF _ i])
  obtain F where F: "free_frames m F" "frames_ok F (node_pages m) (mapped_at m) (obj_addr z (machine_objs m))"
    using ok by (auto simp: machine_ok_def tables_ok_def)
  have inv: "lm_inv p" using p(3) by (simp add: table_ok_def)
  have vpn: "table_index m i v = lm_vpn (lm_mode p) (lineAddr req)" using lm_vpn_index [OF p(2,3)] v by simp
  define os where "os = machine_objs m"
  obtain req' p' os' where run: "lm_access z p os req =
      Inr (case lm_abs p (table_index m i v) of None \<Rightarrow> PAGE_FAULT_SIG | Some ptr \<Rightarrow> the (obj_addr z os ptr), req', p', os')"
    and p': "lm_inv p'" "lm_mode p' = lm_mode p" "lm_abs p' = lm_abs p" and line: "lineAddr req' = lineAddr req"
  proof (cases "lm_abs p (table_index m i v)")
    case None
    then obtain lat where "lm_access z p os req = Inr (PAGE_FAULT_SIG, add_cycles req lat, p, os)"
      using lm_access_miss [OF inv vpn] by blast
    then show thesis using that [of "add_cycles req lat" p os] inv None by simp
  next
    case (Some ptr)
    then have "frame_ok F (node_pages m) (obj_addr z os) ptr"
      using F(2) p(4) unfolding frames_ok_def os_def by metis
    then obtain a where a: "obj_addr z os ptr = Some a" by (rule frame_okD)
    show thesis by (rule lm_access_hit [OF inv vpn Some a]) (use that Some a in auto)
  qed
  have like: "objs_like os os'" by (rule lm_access_like [OF run])
  define m1 where "m1 = m\<lparr>paging_array := (paging_array m)[i := LongMode_paging p']\<rparr>"
  define m' where "m' = put_objs os' m1"
  have "access_paging z env i req m =
      Inr (case mapped_at m i (table_index m i v) of None \<Rightarrow> PAGE_FAULT_SIG | Some ptr \<Rightarrow> the (obj_addr z (machine_objs m) ptr), req', m')"
    using i p(1,4) run by (simp add: access_paging_def nthE_in_range os_def [symmetric] m'_def m1_def cong: option.case_cong)
  moreover have "lm_paging m' = (lm_paging m)(i \<mapsto> p')"
    unfolding m'_def m1_def using lm_paging_upd [OF i] by simp
  then have maps: "mapped_at m' = mapped_at m" "table_index m' = table_index m" "lm_paging m' = (lm_paging m)(i \<mapsto> p')"
    using lm_paging_same [OF p(2) _ p'(2)] p'(3) by simp_all
  have "free_frames m1 F" "machine_objs m1 = os" "node_pages m1 = node_pages m"
    using F(1) by (simp_all add: m1_def free_frames_def machine_objs_def memory_node_def os_def node_pages_def)
  then have m': "free_frames m' F" "machine_objs m' = os'" "node_pages m' = node_pages m"
    using put_objs_free [of m1 F os'] like by (simp_all add: m'_def)
  have addr: "obj_addr z (machine_objs m') = obj_addr z (machine_objs m)"
    unfolding m' using obj_addr_like [OF like] by (simp add: os_def)
  have len: "length (paging_array m') = length (paging_array m)" by (simp add: m'_def m1_def)
  have "machine_ok z m'"
    using ok F m' addr maps p p' len by (auto simp: machine_ok_def tables_ok_def table_ok_def)
  moreover have "machine_tr z env j m' = machine_tr z env j m" for j
    by (rule machine_tr_cong [OF maps(1,2) F(1) m'(1) addr])
  ultimately show thesis using that [OF _ line] maps len by (simp add: m'_def m1_def)
qed

end
