(* ===== verification/Machine_Walk.thy ===== *)
theory Machine_Walk
  imports Machine_Map
begin

text \<open>
  What the page table walker does to the memory map and to the TLBs: a shootdown marks entries
  only, a page fault maps a free frame where nothing was mapped, and a walk returns the
  translation of the map afterwards. At the end the walker is shown to be what a TLB expects of
  it, by an interpretation of the locale \<open>tlb_walker\<close>.
\<close>

section \<open>What a shootdown changes\<close>

text \<open>
  A shootdown of \<open>v\<close> marks entries invalid and counts them as used; it takes no entry out of
  the trie. A TLB without \<open>v\<close> stays as it is.
\<close>

definition quiet :: "address \<Rightarrow> CommonTlb \<Rightarrow> CommonTlb \<Rightarrow> bool" where
  "quiet v t t' \<longleftrightarrow>
     tlb_entry_num t' = tlb_entry_num t \<and> free_entry_list t' = free_entry_list t \<and>
     tlb_trie t' = tlb_trie t \<and> tlb_trie_pa t' = tlb_trie_pa t \<and> evict_policy t' = evict_policy t \<and>
     map v_page_no (tlb t') = map v_page_no (tlb t) \<and> map p_page_no (tlb t') = map p_page_no (tlb t) \<and>
     (tlb_trie t v = None \<longrightarrow> t' = t)"

fun base_quiet :: "address \<Rightarrow> BaseTlb \<Rightarrow> BaseTlb \<Rightarrow> bool" where
  "base_quiet v (Common_tlb t) (Common_tlb t') \<longleftrightarrow> quiet v t t'"
| "base_quiet v (Hot_tlb h) (Hot_tlb h') \<longleftrightarrow>
     (\<exists>t'. quiet v (ordinary_tlb h) t' \<and> h' = h\<lparr>ordinary_tlb := t'\<rparr>)"
| "base_quiet v _ _ \<longleftrightarrow> False"

lemma quiet_refl [simp]: "quiet v t t"
  by (simp add: quiet_def)

lemma base_quiet_hotI: "quiet v (ordinary_tlb h) t' \<Longrightarrow> base_quiet v (Hot_tlb h) (Hot_tlb (h\<lparr>ordinary_tlb := t'\<rparr>))"
  by auto

lemma base_quiet_refl [simp]: "base_quiet v b b"
proof (cases b)
  case (Hot_tlb h)
  then show ?thesis using base_quiet_hotI [of v h "ordinary_tlb h"] by simp
qed simp

lemma quiet_inv: "quiet v t t' \<Longrightarrow> tlb_inv t \<Longrightarrow> tlb_inv t'"
  unfolding quiet_def by (blast intro: tlb_inv_cong)

lemma quiet_pages:
  assumes "quiet v t t'" and "i < length (tlb t)"
  shows "p_page_no (tlb t' ! i) = p_page_no (tlb t ! i)"
proof -
  have "map p_page_no (tlb t') ! i = map p_page_no (tlb t) ! i" "length (tlb t') = length (tlb t)"
    using assms(1) by (auto simp: quiet_def dest: map_eq_imp_length_eq)
  then show ?thesis using assms(2) by simp
qed

lemma quiet_coherent:
  assumes "quiet v t t'" and "tlb_inv t" and "coherent tr t"
  shows "coherent tr t'"
proof -
  have trie: "tlb_trie t' = tlb_trie t" using assms(1) by (simp add: quiet_def)
  have "i < length (tlb t)" if "tlb_trie t u = Some i" for u i
    using tlb_inv_trie [OF assms(2) that] by (simp add: used_def)
  then show ?thesis
    using assms(3) quiet_pages [OF assms(1)] unfolding coherent_def trie by simp
qed

lemma quiet_mark: "quiet v t (t\<lparr>tlb := (tlb t)[i := te_set_invalid (tlb t ! i)]\<rparr>)" if "tlb_trie t v = Some k"
  using that by (simp add: quiet_def map_list_update_same)

lemma quiet_touch: "quiet v t (touch i t)" if "tlb_trie t v = Some k"
  using that by (simp add: quiet_def touch_def Let_def map_list_update_same)

lemma quiet_trans: "quiet v t t1 \<Longrightarrow> quiet v t1 t2 \<Longrightarrow> quiet v t t2"
  unfolding quiet_def by simp

lemma shootdown_one_quiet:
  assumes "tlb_shootdown_one z v req b = (req', b')"
  shows "base_quiet v b b' \<and> lineAddr req' = lineAddr req"
proof -
  have mark: "quiet v t (t\<lparr>tlb := (tlb t)[i := te_set_invalid (tlb t ! i)]\<rparr>)"
      "quiet v t ((touch i t)\<lparr>tlb := (tlb (touch i t))[i := te_set_invalid (tlb (touch i t) ! i)]\<rparr>)"
    if "tlb_trie t v = Some i" for t i
    using that by (auto intro: quiet_mark quiet_trans [OF quiet_touch quiet_mark])
  show ?thesis
    using assms mark
    by (cases b) (auto simp: tlb_shootdown_one_def ct_look_up_def ht_look_up_def Let_def
        simp del: base_quiet.simps(2) split: option.splits if_splits prod.splits intro!: base_quiet_hotI)
qed

lemma shootdown_core:
  assumes "i < length (ins_tlbs m)" "i < length (data_tlbs m)"
  shows "\<exists>req' m'. on_core_tlbs (\<lambda>req b. Inr (tlb_shootdown_one z v req b)) i req m = Inr (req', m') \<and>
    lineAddr req' = lineAddr req \<and> machine_core m' = machine_core m \<and>
    list_all2 (base_quiet v) (ins_tlbs m) (ins_tlbs m') \<and> list_all2 (base_quiet v) (data_tlbs m) (data_tlbs m')"
proof -
  obtain req1 b1 where 1: "tlb_shootdown_one z v req (ins_tlbs m ! i) = (req1, b1)" by fastforce
  obtain req2 b2 where 2: "tlb_shootdown_one z v req1 (data_tlbs m ! i) = (req2, b2)" by fastforce
  have "list_all2 (base_quiet v) xs (xs[i := b])" if "base_quiet v (xs ! i) b" for xs b
    using that by (auto simp: list_all2_conv_all_nth) (case_tac "ia = i", auto)
  then show ?thesis
    using shootdown_one_quiet [OF 1] shootdown_one_quiet [OF 2] assms 1 2
    by (simp add: on_core_tlbs_def nthE_in_range machine_core_def)
qed

lemma base_quiet_trans: "base_quiet v b b1 \<Longrightarrow> base_quiet v b1 b2 \<Longrightarrow> base_quiet v b b2"
  by (cases b; cases b1; cases b2; auto intro: quiet_trans; blast intro: quiet_trans)

lemma tlb_shootdown_ok:
  assumes "numCores z \<le> length (ins_tlbs m)" "numCores z \<le> length (data_tlbs m)"
  obtains req' m' where "tlb_shootdown z v req m = Inr (req', m')" "lineAddr req' = lineAddr req"
    "machine_core m' = machine_core m"
    "list_all2 (base_quiet v) (ins_tlbs m) (ins_tlbs m')" "list_all2 (base_quiet v) (data_tlbs m) (data_tlbs m')"
proof -
  define R where "R = (\<lambda>(req' :: MemReq, m'). lineAddr req' = lineAddr req \<and> machine_core m' = machine_core m \<and>
    list_all2 (base_quiet v) (ins_tlbs m) (ins_tlbs m') \<and> list_all2 (base_quiet v) (data_tlbs m) (data_tlbs m'))"
  have "\<exists>s'. tlb_shootdown z v req m = Inr s' \<and> R s'"
    unfolding tlb_shootdown_def
  proof (rule foldE_invariant [where I = "\<lambda>_. R" and A = "{..<numCores z}"])
    show "R (req, m)" by (simp add: R_def list_all2_refl)
    fix i and seen :: "nat list" and s assume i: "i \<in> {..<numCores z}" and R: "R s"
    obtain req1 m1 where s: "s = (req1, m1)" by fastforce
    have len: "i < length (ins_tlbs m1)" "i < length (data_tlbs m1)"
      using i R s assms by (auto simp: R_def dest: list_all2_lengthD)
    have trans: "list_all2 (base_quiet v) xs zs" if "list_all2 (base_quiet v) xs ys" "list_all2 (base_quiet v) ys zs"
      for xs ys zs by (rule list_all2_trans [OF _ that]) (rule base_quiet_trans)
    obtain req2 m2 where "on_core_tlbs (\<lambda>req b. Inr (tlb_shootdown_one z v req b)) i req1 m1 = Inr (req2, m2)"
      "lineAddr req2 = lineAddr req1" "machine_core m2 = machine_core m1"
      "list_all2 (base_quiet v) (ins_tlbs m1) (ins_tlbs m2)" "list_all2 (base_quiet v) (data_tlbs m1) (data_tlbs m2)"
      using shootdown_core [OF len, of z v req1] by blast
    then show "\<exists>s'. (case s of (req, m) \<Rightarrow>
        on_core_tlbs (\<lambda>req b. Inr (tlb_shootdown_one z v req b)) i req m) = Inr s' \<and> R s'"
      using R by (simp add: s R_def) (blast intro: trans)
  qed auto
  then show thesis using that by (auto simp: R_def)
qed

section \<open>A page fault\<close>

lemma map_paging_ok:
  assumes ok: "tables_ok z m" and i: "i < length (paging_array m)" and ptr: "ptr_ok ptr b"
  obtains lat m' where "map_paging z i addr ptr b m = Inr (lat, m')" "tables_ok z m'"
    "mapped_at m' = (mapped_at m)(i := (mapped_at m i)(table_index m i (vpn_of z addr) \<mapsto> ptr))"
    "table_index m' = table_index m" "buddy_allocator m' = buddy_allocator m" "dram_blocks m' = dram_blocks m"
    "ins_tlbs m' = ins_tlbs m" "data_tlbs m' = data_tlbs m" "length (paging_array m') = length (paging_array m)"
    "dram_manager m' = dram_manager m"
proof -
  obtain p where p: "paging_array m ! i = LongMode_paging p" "lm_paging m i = Some p" "table_ok z p"
    "mapped_at m i = lm_abs p"
    by (rule tables_okE [OF ok i])
  have inv: "lm_inv p" "lm_room p" using p(3) by (simp_all add: table_ok_def lm_room_def)
  obtain root where root: "lm_pml4 p = Some root" using inv(1) by (elim lm_invE)
  obtain lat x p' where run: "lm_map_page_table z p addr ptr b = Inr (lat, x, p')" "lm_inv p'" "lm_mode p' = lm_mode p"
    "lm_abs p' = (lm_abs p)(lm_vpn (lm_mode p) addr \<mapsto> ptr)"
    by (rule lm_map_ok [OF inv(1) root ptr inv(2) refl])
  define m' where "m' = m\<lparr>paging_array := (paging_array m)[i := LongMode_paging p']\<rparr>"
  have m': "map_paging z i addr ptr b m = Inr (lat, m')"
    using i p(1) run(1) by (simp add: map_paging_def nthE_in_range m'_def)
  have pag: "lm_paging m' = (lm_paging m)(i \<mapsto> p')" unfolding m'_def by (rule lm_paging_upd [OF i])
  then have "mapped_at m' = (mapped_at m)(i := (mapped_at m i)(table_index m i (vpn_of z addr) \<mapsto> ptr))"
    using run(4) p(4) lm_vpn_index [OF p(2,3)] by (auto simp: mapped_at_def fun_eq_iff)
  moreover have "table_index m' = table_index m" by (rule lm_paging_same [OF p(2) pag run(3)])
  moreover have "tables_ok z m'"
    using ok pag p(3) run(2,3) by (auto simp: tables_ok_def table_ok_def m'_def)
  ultimately show thesis using that [OF m'] by (simp add: m'_def)
qed

text \<open>A page leaves the free lists and exists from then on.\<close>

lemma machine_alloc:
  assumes ok: "machine_ok z m" and ba: "buddy_allocator m = Some ba" and left: "\<not> exhausted env m"
  obtains pg ba' F where "allocate_pages (env_raw env) 0 0 ba = Inr (Some pg, ba')"
    "free_frames (m\<lparr>buddy_allocator := Some ba'\<rparr>) F" "unat pg \<notin># F" "pg < node_pages m"
    "frames_ok (add_mset (unat pg) F) (node_pages m) (mapped_at m) (obj_addr z (machine_objs m))"
    "node_pages (m\<lparr>buddy_allocator := Some ba'\<rparr>) = node_pages m"
    "\<forall>ptr x. obj_addr z (machine_objs m) ptr = Some x \<longrightarrow>
       obj_addr z (machine_objs (m\<lparr>buddy_allocator := Some ba'\<rparr>)) ptr = Some x"
    "obj_addr z (machine_objs (m\<lparr>buddy_allocator := Some ba'\<rparr>)) (PagePtr pg) = Some pg"
proof -
  obtain bl where bl: "buddy_inv ba Zone_Normal bl"
    and frames: "frames_ok (free_mset bl) (node_pages m) (mapped_at m) (obj_addr z (machine_objs m))"
    and "free_frames m (free_mset bl)"
    using ok ba by (auto simp: machine_ok_def free_frames_def)
  then obtain k where k: "k \<le> MAXORDER" "bl k \<noteq> []"
    using left by (auto simp: exhausted_iff free_mset_empty)
  obtain pg ba' bl' nd nd' p where run: "allocate_pages_zone (env_raw env) Zone_Normal 0 ba = Inr (Some pg, ba')"
    "buddy_inv ba' Zone_Normal bl'" "free_mset bl = free_mset bl' + block_pages 0 pg"
    "mem_node ba = Some nd" "mem_node ba' = Some nd'" "node_mem_map nd' pg = Some p" "pageNo p = pg"
    using allocate_some [OF bl _ k, of 0 "env_raw env"] by auto
  have alloc: "allocate_pages (env_raw env) 0 0 ba = Inr (Some pg, ba')"
    using run(1) allocate_pages_normal [OF bl, of 0] by simp
  have F: "free_mset bl = add_mset (unat pg) (free_mset bl')" using run(3) by (simp add: block_pages_def)
  have n: "node_pages m = node_page_num nd" using ba run(4) by (simp add: node_pages_def memory_node_def)
  have "blocks_ok (unat (node_page_num nd)) bl {#}" using bl run(4) by (auto simp: buddy_inv_def)
  then have cnt: "count (free_mset bl) (unat pg) \<le> 1" and less: "\<forall>v\<in>#free_mset bl. v < unat (node_page_num nd)"
    by (auto simp: blocks_ok_def)
  have notin: "unat pg \<notin># free_mset bl'" using cnt F by (simp add: not_in_iff)
  have pg: "pg < node_pages m" using less F n by (simp add: word_less_nat_alt)
  have grow: "grows nd nd'" by (rule allocate_pages_grows [OF alloc run(4,5)])
  have ok2: "node_ok (node_mem_map nd)" "node_ok (node_mem_map nd')"
    using bl run(2,4,5) by (auto simp: buddy_inv_def)
  define m' where "m' = m\<lparr>buddy_allocator := Some ba'\<rparr>"
  have objs: "obj_pages (machine_objs m) = node_mem_map nd" "obj_pages (machine_objs m') = node_mem_map nd'"
    "obj_blocks (machine_objs m') = obj_blocks (machine_objs m)"
    using ba run(4,5) by (simp_all add: machine_objs_def memory_node_def m'_def)
  have mono: "obj_addr z (machine_objs m') ptr = Some x" if x: "obj_addr z (machine_objs m) ptr = Some x" for ptr x
  proof (cases ptr)
    case (PagePtr a)
    then obtain q where "node_mem_map nd a = Some q" "pageNo q = x" using x objs by (auto simp: obj_addr_def)
    then show ?thesis using grow ok2 objs PagePtr by (fastforce simp: obj_addr_def grows_def node_ok_def dom_def)
  qed (use x objs in \<open>simp_all add: obj_addr_def\<close>)
  show thesis
  proof (rule that [OF alloc _ notin pg, folded m'_def])
    show "free_frames m' (free_mset bl')" using run(2) by (auto simp: free_frames_def m'_def)
    show "node_pages m' = node_pages m" using grow run(5) n by (simp add: node_pages_def memory_node_def m'_def grows_def)
    show "obj_addr z (machine_objs m') (PagePtr pg) = Some pg" using run(6,7) objs by (simp add: obj_addr_def)
  qed (use frames F mono in auto)
qed

lemma do_page_fault_ok:
  assumes ok: "machine_ok z m" and i: "paging wk = Some i" "i < length (paging_array m)"
    and cores: "numCores z \<le> length (ins_tlbs m)" "numCores z \<le> length (data_tlbs m)"
    and shared: "\<not> enable_shared_memory z" and v: "v = vpn_of z (lineAddr req)"
    and none: "mapped_at m i (table_index m i v) = None"
  obtains ppn req' wk' m' where "do_page_fault z env req (wk, m) = Inr (ppn, req', wk', m')"
    "paging wk' = Some i" "machine_ok z m'" "machine_tr z env i m' v = Some ppn"
    "\<And>j. machine_tr z env j m \<subseteq>\<^sub>m machine_tr z env j m'" "length (paging_array m') = length (paging_array m)"
    "list_all2 (base_quiet v) (ins_tlbs m) (ins_tlbs m')" "list_all2 (base_quiet v) (data_tlbs m) (data_tlbs m')"
proof (cases "exhausted env m")
  case True
  then have "do_page_fault z env req (wk, m) = Inr (v, req, wk, m)"
    unfolding v by (cases "buddy_allocator m") (auto simp: do_page_fault_def exhausted_def vpn_of_def Let_def)
  moreover have "machine_tr z env i m v = Some v" using True none by (simp add: machine_tr_def)
  ultimately show thesis using that ok i(1) by (simp add: list_all2_refl)
next
  case False
  then obtain ba where ba: "buddy_allocator m = Some ba" by (auto simp: exhausted_def split: option.splits)
  obtain pg ba' F where alloc: "allocate_pages (env_raw env) 0 0 ba = Inr (Some pg, ba')"
    and m1: "free_frames (m\<lparr>buddy_allocator := Some ba'\<rparr>) F" "unat pg \<notin># F" "pg < node_pages m"
    and frames: "frames_ok (add_mset (unat pg) F) (node_pages m) (mapped_at m) (obj_addr z (machine_objs m))"
    and n1: "node_pages (m\<lparr>buddy_allocator := Some ba'\<rparr>) = node_pages m"
    and mono: "\<forall>ptr x. obj_addr z (machine_objs m) ptr = Some x \<longrightarrow>
       obj_addr z (machine_objs (m\<lparr>buddy_allocator := Some ba'\<rparr>)) ptr = Some x"
    and new: "obj_addr z (machine_objs (m\<lparr>buddy_allocator := Some ba'\<rparr>)) (PagePtr pg) = Some pg"
    by (rule machine_alloc [OF ok ba False])
  define m1 where "m1 = m\<lparr>buddy_allocator := Some ba'\<rparr>"
  obtain req2 m2 where 2: "tlb_shootdown z v req m1 = Inr (req2, m2)" "lineAddr req2 = lineAddr req"
    "machine_core m2 = machine_core m1"
    "list_all2 (base_quiet v) (ins_tlbs m) (ins_tlbs m2)" "list_all2 (base_quiet v) (data_tlbs m) (data_tlbs m2)"
    by (rule tlb_shootdown_ok [of z m1 v req]) (use cores in \<open>auto simp: m1_def\<close>)
  have core2: "paging_array m2 = paging_array m" "buddy_allocator m2 = Some ba'" "dram_blocks m2 = dram_blocks m"
    using 2(3) by (simp_all add: machine_core_def m1_def)
  then have map2: "lm_paging m2 = lm_paging m" by (simp add: lm_paging_def fun_eq_iff)
  then have maps2: "mapped_at m2 = mapped_at m" "table_index m2 = table_index m"
    by (simp_all add: mapped_at_def table_index_def fun_eq_iff)
  have tables2: "tables_ok z m2" using ok map2 core2 by (simp add: machine_ok_def tables_ok_def)
  obtain lat m3 where 3: "map_paging z i (lineAddr req2) (PagePtr pg) False m2 = Inr (lat, m3)" "tables_ok z m3"
    "mapped_at m3 = (mapped_at m2)(i := (mapped_at m2 i)(table_index m2 i (vpn_of z (lineAddr req2)) \<mapsto> PagePtr pg))"
    "table_index m3 = table_index m2" "buddy_allocator m3 = buddy_allocator m2" "dram_blocks m3 = dram_blocks m2"
    "ins_tlbs m3 = ins_tlbs m2" "data_tlbs m3 = data_tlbs m2" "length (paging_array m3) = length (paging_array m2)"
    by (rule map_paging_ok [OF tables2, of i "PagePtr pg" False "lineAddr req2"]) (use i(2) core2 in \<open>auto simp: ptr_ok_def\<close>)
  have map3: "mapped_at m3 = (mapped_at m)(i := (mapped_at m i)(table_index m i v \<mapsto> PagePtr pg))"
    using 3(3) maps2 2(2) v by simp
  have like3: "machine_objs m3 = machine_objs m1" "node_pages m3 = node_pages m" "free_frames m3 F"
    using 3(5,6) core2 m1(1) n1
    by (simp_all add: machine_objs_def memory_node_def m1_def node_pages_def free_frames_def)
  have "frames_ok F (node_pages m3) (mapped_at m3) (obj_addr z (machine_objs m3))"
    unfolding map3 like3(1,2) by (rule frames_ok_map [OF frames none m1(2,3)]) (use mono new in \<open>simp_all add: m1_def\<close>)
  then have ok3: "machine_ok z m3" using 3(2) like3(3) by (auto simp: machine_ok_def)
  have idx: "table_index m3 = table_index m" using 3(4) maps2 by simp
  have tr: "machine_tr z env i m3 v = Some pg"
    unfolding machine_tr_def idx map3 like3(1) using new by (simp add: m1_def)
  have sub: "machine_tr z env j m \<subseteq>\<^sub>m machine_tr z env j m3" for j
    unfolding map_le_def
  proof
    fix u assume "u \<in> dom (machine_tr z env j m)"
    then obtain ptr x where ptr: "mapped_at m j (table_index m j u) = Some ptr" "machine_tr z env j m u = Some x"
      "obj_addr z (machine_objs m) ptr = Some x"
      using False by (auto simp: machine_tr_def split: option.splits)
    then have "mapped_at m3 j (table_index m3 j u) = Some ptr" unfolding map3 idx using none by auto
    then show "machine_tr z env j m u = machine_tr z env j m3 u"
      using ptr mono like3(1) by (simp add: machine_tr_def m1_def)
  qed
  obtain q where q: "as_page (machine_objs m3) (PagePtr pg) = Inr q" "pageNo q = pg"
    using new like3(1) by (auto simp: obj_addr_def as_page_def m1_def)
  show thesis
    by (rule that [where ppn = pg and m' = m3 and req' = "req2\<lparr>cycle := cycle req2 + scast lat\<rparr>" and
          wk' = "wk\<lparr>pcm_map_overhead := pcm_map_overhead wk + scast lat, allocated_page := allocated_page wk + 1\<rparr>",
          OF _ _ ok3 tr sub])
      (use alloc ba 2(1) 3(1,7-9) i shared q core2 2(4,5) in
        \<open>simp_all add: do_page_fault_def map_fault_page_def m1_def v vpn_of_def Let_def\<close>)
qed

section \<open>A walk\<close>

lemma walker_access_ok:
  assumes ok: "machine_ok z m" and i: "paging wk = Some i" "i < length (paging_array m)"
    and cores: "numCores z \<le> length (ins_tlbs m)" "numCores z \<le> length (data_tlbs m)"
    and shared: "\<not> enable_shared_memory z" and v: "v = vpn_of z (lineAddr req)"
  obtains ppn req' wk' m' where "walker_access z env req (wk, m) = Inr (ppn, req', wk', m')"
    "paging wk' = Some i" "machine_ok z m'" "machine_tr z env i m' v = Some ppn"
    "\<And>j. machine_tr z env j m \<subseteq>\<^sub>m machine_tr z env j m'" "length (paging_array m') = length (paging_array m)"
    "list_all2 (base_quiet v) (ins_tlbs m) (ins_tlbs m')" "list_all2 (base_quiet v) (data_tlbs m) (data_tlbs m')"
proof -
  obtain req1 m1 where 1: "access_paging z env i req m =
       Inr (case mapped_at m i (table_index m i v) of None \<Rightarrow> PAGE_FAULT_SIG | Some ptr \<Rightarrow> the (obj_addr z (machine_objs m) ptr),
         req1, m1)"
    "lineAddr req1 = lineAddr req" "machine_ok z m1" "\<And>j. machine_tr z env j m1 = machine_tr z env j m"
    "mapped_at m1 = mapped_at m" "table_index m1 = table_index m"
    "ins_tlbs m1 = ins_tlbs m" "data_tlbs m1 = data_tlbs m" "length (paging_array m1) = length (paging_array m)"
    using access_paging_ok [OF ok i(2) v, where env = env] by blast
  define wk1 where "wk1 = wk\<lparr>period := period wk + 1,
    tlb_miss_exclude_shootdown := tlb_miss_exclude_shootdown wk + (cycle req1 - cycle req)\<rparr>"
  show thesis
  proof (cases "mapped_at m i (table_index m i v)")
    case None
    have i1: "i < length (paging_array m1)" "numCores z \<le> length (ins_tlbs m1)" "numCores z \<le> length (data_tlbs m1)"
      "v = vpn_of z (lineAddr req1)" "mapped_at m1 i (table_index m1 i v) = None" "paging wk1 = Some i"
      using i cores v 1 None by (simp_all add: wk1_def)
    obtain ppn req2 wk2 m2 where "do_page_fault z env req1 (wk1, m1) = Inr (ppn, req2, wk2, m2)"
      "paging wk2 = Some i" "machine_ok z m2" "machine_tr z env i m2 v = Some ppn"
      "\<And>j. machine_tr z env j m1 \<subseteq>\<^sub>m machine_tr z env j m2" "length (paging_array m2) = length (paging_array m1)"
      "list_all2 (base_quiet v) (ins_tlbs m1) (ins_tlbs m2)" "list_all2 (base_quiet v) (data_tlbs m1) (data_tlbs m2)"
      using do_page_fault_ok [OF 1(3) i1(6,1,2,3) shared i1(4,5), where env = env] by blast
    then show thesis
      using 1 i None
      by (intro that [where ppn = ppn and req' = "req2\<lparr>childId := 0\<rparr>" and m' = m2 and
          wk' = "wk2\<lparr>tlb_miss_overhead := tlb_miss_overhead wk2 + (cycle req2 - cycle req)\<rparr>"])
        (simp_all add: walker_access_def Let_def wk1_def)
  next
    case (Some ptr)
    then obtain a where a: "obj_addr z (machine_objs m) ptr = Some a" "a \<noteq> PAGE_FAULT_SIG"
      using ok unfolding machine_ok_def frames_ok_def by (metis frame_okD)
    then have "machine_tr z env i m v = Some a" using Some by (simp add: machine_tr_def)
    then show thesis
      using 1 i Some a
      by (intro that [where ppn = a and req' = req1 and m' = m1 and
          wk' = "wk1\<lparr>tlb_miss_overhead := tlb_miss_overhead wk1 + (cycle req1 - cycle req)\<rparr>"])
        (simp_all add: walker_access_def Let_def wk1_def list_all2_refl)
  qed
qed

section \<open>The walker as a TLB sees it\<close>

text \<open>
  \<open>proc\<close> gives the process of a core. A TLB is in order when it holds translations of the
  process of its core only.
\<close>

definition tlb_ok :: "(address \<Rightarrow> address option) \<Rightarrow> BaseTlb \<Rightarrow> bool" where
  "tlb_ok tr b \<longleftrightarrow>
     (case b of Common_tlb t \<Rightarrow> tlb_inv t \<and> evict_policy t \<noteq> HOTNESSAware \<and> coherent tr t | Hot_tlb _ \<Rightarrow> False)"

definition others_ok :: "GlobSimInfo \<Rightarrow> walker_env \<Rightarrow> (nat \<Rightarrow> nat) \<Rightarrow> tlb_ref \<Rightarrow> machine \<Rightarrow> bool" where
  "others_ok z env proc r m \<longleftrightarrow>
     (\<forall>r' b. r' \<noteq> r \<longrightarrow> get_tlb r' m = Inr b \<longrightarrow> tlb_ok (machine_tr z env (proc (tref_core r')) m) b)"

definition walk_good ::
  "GlobSimInfo \<Rightarrow> walker_env \<Rightarrow> (nat \<Rightarrow> nat) \<Rightarrow> tlb_ref \<Rightarrow> machine \<Rightarrow> walk_state \<Rightarrow> bool" where
  "walk_good z env proc r m0 s \<longleftrightarrow>
     \<not> enable_shared_memory z \<and> machine_ok z (snd s) \<and>
     paging (fst s) = Some (proc (tref_core r)) \<and> proc (tref_core r) < length (paging_array (snd s)) \<and>
     length (ins_tlbs (snd s)) = numCores z \<and> length (data_tlbs (snd s)) = numCores z \<and>
     (\<exists>b. get_tlb r (snd s) = Inr b) \<and> others_ok z env proc r (snd s) \<and>
     length (paging_array (snd s)) = length (paging_array m0) \<and>
     (\<forall>j. machine_tr z env j m0 \<subseteq>\<^sub>m machine_tr z env j (snd s))"

lemma tlb_ok_mono: "tlb_ok tr b \<Longrightarrow> tr \<subseteq>\<^sub>m tr' \<Longrightarrow> tlb_ok tr' b"
  by (auto simp: tlb_ok_def intro: coherent_mono split: BaseTlb.splits)

lemma tlb_ok_quiet: "base_quiet v b b' \<Longrightarrow> tlb_ok tr b \<Longrightarrow> tlb_ok tr b'"
  by (cases b; cases b')
    (auto simp: tlb_ok_def intro: quiet_inv quiet_coherent, simp add: quiet_def)

lemma get_tlb_quiet:
  assumes "list_all2 (base_quiet v) (ins_tlbs m) (ins_tlbs m')" "list_all2 (base_quiet v) (data_tlbs m) (data_tlbs m')"
    and "get_tlb r m' = Inr b'"
  obtains b where "get_tlb r m = Inr b" "base_quiet v b b'"
  using assms by (auto simp: get_tlb_def nthE_Inr_iff list_all2_conv_all_nth split: if_splits)

lemma get_tlb_quiet_total:
  assumes "list_all2 (base_quiet v) (ins_tlbs m) (ins_tlbs m')" "list_all2 (base_quiet v) (data_tlbs m) (data_tlbs m')"
    and "get_tlb r m = Inr b"
  obtains b' where "get_tlb r m' = Inr b'" "base_quiet v b b'"
  using assms by (auto simp: get_tlb_def nthE_Inr_iff list_all2_conv_all_nth split: if_splits)

lemma get_set_tlb:
  "get_tlb r m = Inr b \<Longrightarrow> get_tlb r (set_tlb r b' m) = Inr b'"
  "r' \<noteq> r \<Longrightarrow> get_tlb r' (set_tlb r b' m) = get_tlb r' m"
  by (cases r; cases r'; auto simp: get_tlb_def set_tlb_def nthE_def split: if_splits)+

lemma set_tlb_fields [simp]:
  "machine_core (set_tlb r b m) = machine_core m" "length (ins_tlbs (set_tlb r b m)) = length (ins_tlbs m)"
  "length (data_tlbs (set_tlb r b m)) = length (data_tlbs m)" "paging_array (set_tlb r b m) = paging_array m"
  by (simp_all add: set_tlb_def machine_core_def)

lemmas set_tlb_core = machine_core_cong [OF set_tlb_fields(1)]

lemma others_ok_quiet:
  assumes "others_ok z env proc r m"
    and "list_all2 (base_quiet v) (ins_tlbs m) (ins_tlbs m')" "list_all2 (base_quiet v) (data_tlbs m) (data_tlbs m')"
    and "\<And>j. machine_tr z env j m \<subseteq>\<^sub>m machine_tr z env j m'"
  shows "others_ok z env proc r m'"
  unfolding others_ok_def
proof (intro allI impI)
  fix r' b' assume "r' \<noteq> r" and b': "get_tlb r' m' = Inr b'"
  obtain b where b: "get_tlb r' m = Inr b" "base_quiet v b b'" by (rule get_tlb_quiet [OF assms(2,3) b'])
  then have "tlb_ok (machine_tr z env (proc (tref_core r')) m) b"
    using assms(1) \<open>r' \<noteq> r\<close> by (simp add: others_ok_def)
  then show "tlb_ok (machine_tr z env (proc (tref_core r')) m') b'"
    using tlb_ok_quiet [OF b(2)] tlb_ok_mono assms(4) by blast
qed

lemma base_tlb_put: "base_quiet v (put_base_tlb t b) b' \<Longrightarrow> tlb_trie t v = None \<Longrightarrow> base_tlb b' = t"
  by (cases b; cases b') (auto simp: quiet_def)

interpretation walker: tlb_walker z "walk_from z env r b" "write_through z env" "walk_good z env proc r m0"
  "\<lambda>s. machine_tr z env (proc (tref_core r)) (snd s)" for z env r b proc m0
proof
  fix s :: walk_state and t :: CommonTlb and req :: MemReq
  assume good: "walk_good z env proc r m0 s" and trie: "tlb_trie t (vpn_of z (lineAddr req)) = None"
  define v where "v = vpn_of z (lineAddr req)"
  obtain wk m where s: "s = (wk, m)" by fastforce
  define m1 where "m1 = set_tlb r (put_base_tlb t b) m"
  have m1: "machine_ok z m1" "paging wk = Some (proc (tref_core r))" "proc (tref_core r) < length (paging_array m1)"
    "numCores z \<le> length (ins_tlbs m1)" "numCores z \<le> length (data_tlbs m1)" "\<not> enable_shared_memory z"
    "length (ins_tlbs m1) = numCores z" "length (data_tlbs m1) = numCores z"
    "length (paging_array m1) = length (paging_array m0)"
    using good by (simp_all add: walk_good_def s m1_def set_tlb_core)
  have others: "others_ok z env proc r m1"
    using good by (auto simp: walk_good_def s m1_def others_ok_def get_set_tlb(2) set_tlb_core)
  have at: "get_tlb r m1 = Inr (put_base_tlb t b)" using good by (auto simp: walk_good_def s m1_def get_set_tlb(1))
  obtain ppn req' wk' m' where run: "walker_access z env req (wk, m1) = Inr (ppn, req', wk', m')"
    "paging wk' = Some (proc (tref_core r))" "machine_ok z m'" "machine_tr z env (proc (tref_core r)) m' v = Some ppn"
    "\<And>j. machine_tr z env j m1 \<subseteq>\<^sub>m machine_tr z env j m'" "length (paging_array m') = length (paging_array m1)"
    "list_all2 (base_quiet v) (ins_tlbs m1) (ins_tlbs m')" "list_all2 (base_quiet v) (data_tlbs m1) (data_tlbs m')"
    using walker_access_ok [OF m1(1-6) v_def, where env = env] by blast
  obtain b' where b': "get_tlb r m' = Inr b'" "base_quiet v (put_base_tlb t b) b'"
    by (rule get_tlb_quiet_total [OF run(7,8) at])
  have "walk_from z env r b req t s = Inr (ppn, req', t, wk', m')"
    using run(1) b' base_tlb_put [OF b'(2)] trie by (simp add: walk_from_def s m1_def v_def)
  moreover have below: "\<forall>j. machine_tr z env j m0 \<subseteq>\<^sub>m machine_tr z env j m'"
    using good run(5) by (auto simp: walk_good_def s m1_def set_tlb_core intro: map_le_trans)
  have "walk_good z env proc r m0 (wk', m')"
    using m1 run b'(1) others_ok_quiet [OF others run(7,8,5)]
      below by (auto simp: walk_good_def dest: list_all2_lengthD)
  moreover have "machine_tr z env (proc (tref_core r)) m \<subseteq>\<^sub>m machine_tr z env (proc (tref_core r)) m'"
    using run(5) [of "proc (tref_core r)"] by (simp add: m1_def set_tlb_core)
  ultimately show "\<exists>ppn req' w'. walk_from z env r b req t s = Inr (ppn, req', t, w') \<and> walk_good z env proc r m0 w' \<and>
      machine_tr z env (proc (tref_core r)) (snd w') (vpn_of z (lineAddr req)) = Some ppn \<and>
      machine_tr z env (proc (tref_core r)) (snd s) \<subseteq>\<^sub>m machine_tr z env (proc (tref_core r)) (snd w')"
    using run(4) by (auto simp: s v_def)
next
  fix s :: walk_state and req :: MemReq
  assume good: "walk_good z env proc r m0 s"
  obtain wk m where s: "s = (wk, m)" by fastforce
  have m: "machine_ok z m" "proc (tref_core r) < length (paging_array m)" "paging wk = Some (proc (tref_core r))"
    using good by (simp_all add: walk_good_def s)
  obtain a req' m' where run: "access_paging z env (proc (tref_core r)) req m = Inr (a, req', m')"
    "machine_ok z m'" "\<And>j. machine_tr z env j m' = machine_tr z env j m"
    "ins_tlbs m' = ins_tlbs m" "data_tlbs m' = data_tlbs m" "length (paging_array m') = length (paging_array m)"
    using access_paging_ok [OF m(1,2) refl, where env = env and req = req] by metis
  moreover have "walk_good z env proc r m0 (wk, m')"
    using good run by (cases "tref_ins r") (simp_all add: walk_good_def s others_ok_def get_tlb_def)
  ultimately show "\<exists>req' w'. write_through z env req s = Inr (req', w') \<and> walk_good z env proc r m0 w' \<and>
      machine_tr z env (proc (tref_core r)) (snd w') = machine_tr z env (proc (tref_core r)) (snd s)"
    using m(3) by (auto simp: write_through_def s)
qed

end
