(* ===== verification/System_Init.thy ===== *)
theory System_Init
  imports Page_Table_Walker
begin

text \<open>
  The part of \<open>InitSystem\<close> in \<open>init.cpp\<close> that creates the translation hardware: the paging
  objects of the processes, a walker and two TLBs for every core, the memory node with the buddy
  allocator, and the manager of the DRAM cache; and \<open>setCid\<close> of \<open>zsim.cpp\<close>, which binds a core
  to a process. The values read from the configuration file are a record.
\<close>

section \<open>Configuration\<close>

record tlb_config =
  cfg_entry_num :: u32
  cfg_hit_latency :: u32
  cfg_response_latency :: u32
  cfg_evict_policy :: string

record sys_config =
  cfg_shared_memory :: bool
  cfg_read_incre_step :: u32
  cfg_write_incre_step :: u32
  cfg_tlb_type :: string
  cfg_mode_str :: string
  cfg_reversed_pgt :: bool
  cfg_itlb :: tlb_config
  cfg_dtlb :: tlb_config
  cfg_zone_sec :: bool
  cfg_zone :: "ZoneType \<Rightarrow> u64 option"
  cfg_buffer_size :: address
  cfg_init_access_threshold :: u32
  cfg_multi_queue :: bool

text \<open>What the memory of objects holds that no constructor sets.\<close>

record init_memory =
  im_entries :: "nat \<Rightarrow> nat \<Rightarrow> BaseTlbEntry"
  im_lru_seq :: "nat \<Rightarrow> u32"
  im_paging :: "nat \<Rightarrow> nat option"
  im_node :: raw_memory
  im_blocks :: "address \<Rightarrow> DRAMBufferBlock"
  im_manager :: FairAllocator
  im_fetcher :: "NVMainRequest list option"

text \<open>\<open>memory_size\<close> is the sum of the memory controllers, which are built elsewhere.\<close>

definition init_defaults :: "sys_config \<Rightarrow> GlobSimInfo \<Rightarrow> GlobSimInfo" where
  "init_defaults cfg zinfo =
     zinfo\<lparr>enable_shared_memory := (if numProcs zinfo = 1 then False else cfg_shared_memory cfg),
           page_shift := 12, page_size := push_bit 12 1, block_size := push_bit 12 1, block_shift := 12\<rparr>"

section \<open>Cores\<close>

definition create_paging ::
  "bool \<Rightarrow> PagingStyle \<Rightarrow> GlobSimInfo \<Rightarrow> (BasePaging \<times> GlobSimInfo) res" where
  "create_paging is_reversed mode zinfo =
     (let mode_str = pagingmode_to_string mode
      in if \<not> is_reversed \<and> \<not> enable_shared_memory zinfo then
           if mode_str = ''Legacy'' then
             bindE (NormalPaging_new zinfo mode) (\<lambda>(p, zinfo). Inr (Normal_paging p, zinfo))
           else if mode_str = ''PAE'' then
             bindE (PAEPaging_new zinfo mode) (\<lambda>(p, zinfo). Inr (PAE_paging p, zinfo))
           else if mode_str = ''LongMode'' then
             bindE (LongModePaging_new zinfo mode) (\<lambda>(p, zinfo). Inr (LongMode_paging p, zinfo))
           else Inl Uninitialised
         else bindE (ReversedPaging_new zinfo mode) (\<lambda>(p, zinfo). Inr (Reversed_paging p, zinfo)))"

definition create_paging_array ::
  "bool \<Rightarrow> PagingStyle \<Rightarrow> GlobSimInfo \<Rightarrow> (BasePaging list \<times> GlobSimInfo) res" where
  "create_paging_array is_reversed mode zinfo =
     foldE (\<lambda>_ (ps, zinfo).
       bindE (create_paging is_reversed mode zinfo) (\<lambda>(p, zinfo). Inr (ps @ [p], zinfo)))
       [0..<numProcs zinfo] ([], zinfo)"

text \<open>A TLB of another type is a null pointer, on which \<open>set_parent\<close> is called.\<close>

definition create_tlb :: "sys_config \<Rightarrow> init_memory \<Rightarrow> nat \<Rightarrow> tlb_config \<Rightarrow> BaseTlb res" where
  "create_tlb cfg im tlb_id c =
     (let policy = stringToPolicy (cfg_evict_policy c)
      in if cfg_tlb_type cfg = ''CommonTlb'' then
           bindE (CommonTlb_new (im_entries im tlb_id) (im_lru_seq im tlb_id) TlbEntry (cfg_entry_num c)
                    (cfg_hit_latency c) (cfg_response_latency c) policy) (\<lambda>t. Inr (Common_tlb t))
         else if cfg_tlb_type cfg = ''HotMonitorTlb'' then
           bindE (HotMonitorTlb_new (im_entries im tlb_id) (im_lru_seq im tlb_id) ExtendTlbEntry (cfg_entry_num c)
                    (cfg_hit_latency c) (cfg_response_latency c) policy (cfg_write_incre_step cfg)
                    (cfg_read_incre_step cfg)) (\<lambda>h. Inr (Hot_tlb h))
         else Inl Null_deref)"

definition create_core_tlbs ::
  "sys_config \<Rightarrow> init_memory \<Rightarrow> nat \<Rightarrow> (BaseTlb list \<times> BaseTlb list) res" where
  "create_core_tlbs cfg im cores =
     foldE (\<lambda>j (itlbs, dtlbs).
       bindE (create_tlb cfg im (2 * j) (cfg_itlb cfg)) (\<lambda>itlb.
       bindE (create_tlb cfg im (2 * j + 1) (cfg_dtlb cfg)) (\<lambda>dtlb.
       Inr (itlbs @ [itlb], dtlbs @ [dtlb]))))
       [0..<cores] ([], [])"

section \<open>Memory\<close>

text \<open>The sizes of the zones are given in units of \<open>2<<20\<close> bytes.\<close>

definition zone_pfns :: "GlobSimInfo \<Rightarrow> u64 option \<Rightarrow> u64 \<Rightarrow> u64" where
  "zone_pfns zinfo sz dflt =
     (case sz of None \<Rightarrow> dflt | Some x \<Rightarrow> drop_bit (page_shift zinfo) (push_bit 20 2 * x))"

definition init_zone_sizes :: "sys_config \<Rightarrow> GlobSimInfo \<Rightarrow> GlobSimInfo" where
  "init_zone_sizes cfg zinfo =
     zinfo\<lparr>max_zone_pfns := (\<lambda>t.
       if t = Zone_Normal then
         zone_pfns zinfo (cfg_zone cfg t) (drop_bit (page_shift zinfo) (memory_size zinfo))
       else if cfg_zone_sec cfg then zone_pfns zinfo (cfg_zone cfg t) 0 else 0)\<rparr>"

text \<open>The DRAM cache exists only when the TLBs count accesses; the blocks are as large as pages.\<close>

definition init_buffer ::
  "sys_config \<Rightarrow> init_memory \<Rightarrow> GlobSimInfo \<Rightarrow> (FairAllocator \<times> (address \<Rightarrow> DRAMBufferBlock option) \<times> GlobSimInfo) res" where
  "init_buffer cfg im zinfo =
     (if cfg_tlb_type cfg = ''HotMonitorTlb'' then
        let zinfo = zinfo\<lparr>block_size := ucast (page_size zinfo), block_shift := page_shift zinfo,
                          access_threshold := replicate (numProcs zinfo) (cfg_init_access_threshold cfg),
                          multi_queue := cfg_multi_queue cfg\<rparr>
        in bindE (FairAllocator_new zinfo (numProcs zinfo) (cfg_buffer_size cfg)) (\<lambda>fa.
           Inr (fa, new_blocks (im_blocks im) fa, zinfo))
      else Inr (im_manager im, \<lambda>_. None, zinfo))"

section \<open>The system\<close>

text \<open>The machine with the walkers of its cores.\<close>

type_synonym system = "PageTableWalker list \<times> machine"

definition init_system ::
  "sys_config \<Rightarrow> init_memory \<Rightarrow> GlobSimInfo \<Rightarrow> (GlobSimInfo \<times> system) res" where
  "init_system cfg im zinfo =
     (let zinfo = init_defaults cfg zinfo;
          mode = string_to_pagingmode (cfg_mode_str cfg)
      in bindE (create_paging_array (cfg_reversed_pgt cfg) mode zinfo) (\<lambda>(pagings, zinfo).
         bindE (create_core_tlbs cfg im (numCores zinfo)) (\<lambda>(itlbs, dtlbs).
           let walkers = map (\<lambda>j. PageTableWalker_new (im_paging im j)) [0..<numCores zinfo];
               zinfo = init_zone_sizes cfg (zinfo\<lparr>tlb_hit_lat := cfg_hit_latency (cfg_dtlb cfg)\<rparr>)
           in bindE (MemoryNode_new (im_node im) zinfo 0 0) (\<lambda>nd.
              bindE (BuddyAllocator_new zinfo mode (Some nd)) (\<lambda>ba.
              bindE (init_buffer cfg im zinfo) (\<lambda>(fa, blocks, zinfo).
              Inr (zinfo, walkers,
                   \<lparr>paging_array = pagings, ins_tlbs = itlbs, data_tlbs = dtlbs, buddy_allocator = Some ba,
                    dram_blocks = blocks, dram_manager = fa,
                    shared_region = [], fetcher = im_fetcher im\<rparr>)))))))"

text \<open>
  \<open>setCid\<close>, when a thread of process \<open>procIdx\<close> is scheduled on core \<open>cid\<close>: the walker of the
  core gets the paging object of the process. The TLBs of the core are not touched.
\<close>

definition setCid :: "GlobSimInfo \<Rightarrow> nat \<Rightarrow> u32 \<Rightarrow> system \<Rightarrow> system res" where
  "setCid zinfo cid proc_id s =
     (case s of (wks, m) \<Rightarrow>
       if cid < numCores zinfo then
         bindE (nthE wks cid) (\<lambda>wk.
         bindE (nthE (paging_array m) (unat proc_id)) (\<lambda>_.
         Inr (wks[cid := SetPaging proc_id (Some (unat proc_id)) wk], m)))
       else Inr s)"

definition bind_cores :: "GlobSimInfo \<Rightarrow> u32 list \<Rightarrow> system \<Rightarrow> system res" where
  "bind_cores zinfo procs s = foldE (\<lambda>cid. setCid zinfo cid (procs ! cid)) [0..<length procs] s"

end
