(* ===== verification/Machine_System.thy ===== *)
theory Machine_System
  imports Machine_Walk System_Init
begin

text \<open>
  The whole translation path, from the initialisation of the simulator over any sequence of
  accesses of its cores: the TLBs agree with the page tables, processes do not share frames, and
  a TLB holds the pages used last. It ends with three places where the code breaks these
  guarantees: an exhausted memory, a context switch, and a shootdown.
\<close>

section \<open>All cores\<close>

text \<open>
  The machine with the walkers of its cores. An access of a core goes through one of its two
  TLBs, which calls the walker of the core.
\<close>

definition core_access ::
  "GlobSimInfo \<Rightarrow> walker_env \<Rightarrow> BaseTlbEntry \<Rightarrow> tlb_ref \<Rightarrow> MemReq \<Rightarrow> system \<Rightarrow> (address \<times> system) res" where
  "core_access z env raw r req s =
     (case s of (wks, m) \<Rightarrow>
       bindE (nthE wks (tref_core r)) (\<lambda>wk.
       bindE (tlb_access z env raw r req (wk, m)) (\<lambda>(pa, req, wk, m).
       Inr (pa, wks[tref_core r := wk], m))))"

primrec core_accesses ::
  "GlobSimInfo \<Rightarrow> walker_env \<Rightarrow> BaseTlbEntry \<Rightarrow> (tlb_ref \<times> MemReq) list \<Rightarrow> system \<Rightarrow> (address list \<times> system) res" where
  "core_accesses z env raw [] s = Inr ([], s)"
| "core_accesses z env raw (x # xs) s =
     bindE (core_access z env raw (fst x) (snd x) s) (\<lambda>(pa, s).
     bindE (core_accesses z env raw xs s) (\<lambda>(pas, s).
     Inr (pa # pas, s)))"

text \<open>The process of a core is the one its walker points to.\<close>

definition proc_of :: "system \<Rightarrow> nat \<Rightarrow> nat" where
  "proc_of s c = (case paging (fst s ! c) of None \<Rightarrow> 0 | Some i \<Rightarrow> i)"

definition system_ok :: "GlobSimInfo \<Rightarrow> walker_env \<Rightarrow> system \<Rightarrow> bool" where
  "system_ok z env s \<longleftrightarrow>
     \<not> enable_shared_memory z \<and> machine_ok z (snd s) \<and>
     length (fst s) = numCores z \<and> length (ins_tlbs (snd s)) = numCores z \<and> length (data_tlbs (snd s)) = numCores z \<and>
     (\<forall>c<numCores z. paging (fst s ! c) = Some (proc_of s c) \<and> proc_of s c < length (paging_array (snd s))) \<and>
     (\<forall>r b. get_tlb r (snd s) = Inr b \<longrightarrow> tlb_ok (machine_tr z env (proc_of s (tref_core r)) (snd s)) b)"

definition translates :: "GlobSimInfo \<Rightarrow> walker_env \<Rightarrow> system \<Rightarrow> tlb_ref \<times> MemReq \<Rightarrow> address \<Rightarrow> bool" where
  "translates z env s x pa \<longleftrightarrow>
     (\<exists>ppn. machine_tr z env (proc_of s (tref_core (fst x))) (snd s) (vpn_of z (lineAddr (snd x))) = Some ppn \<and>
        pa = paddr_of z ppn (lineAddr (snd x)))"

definition grown :: "GlobSimInfo \<Rightarrow> walker_env \<Rightarrow> system \<Rightarrow> system \<Rightarrow> bool" where
  "grown z env s s' \<longleftrightarrow>
     (\<forall>c. proc_of s' c = proc_of s c) \<and> (\<forall>i. machine_tr z env i (snd s) \<subseteq>\<^sub>m machine_tr z env i (snd s'))"

text \<open>The same over the page tables: the address comes from the entry of the page if there is one.\<close>

definition answered :: "GlobSimInfo \<Rightarrow> walker_env \<Rightarrow> system \<Rightarrow> tlb_ref \<times> MemReq \<Rightarrow> address \<Rightarrow> bool" where
  "answered z env s x pa \<longleftrightarrow>
     (let i = proc_of s (tref_core (fst x)); v = vpn_of z (lineAddr (snd x))
      in case mapped_at (snd s) i (table_index (snd s) i v) of
           Some ptr \<Rightarrow> map_option (\<lambda>ppn. paddr_of z ppn (lineAddr (snd x))) (obj_addr z (machine_objs (snd s)) ptr) = Some pa
         | None \<Rightarrow> exhausted env (snd s) \<and> pa = paddr_of z v (lineAddr (snd x)))"

lemma translates_answered: "translates z env s x pa \<Longrightarrow> answered z env s x pa"
  by (auto simp: translates_def answered_def machine_tr_def Let_def split: option.splits if_splits)

lemma translates_mono: "grown z env s s' \<Longrightarrow> translates z env s x pa \<Longrightarrow> translates z env s' x pa"
  unfolding grown_def translates_def by (metis domI map_le_def)

lemma grown_trans: "grown z env s s1 \<Longrightarrow> grown z env s1 s2 \<Longrightarrow> grown z env s s2"
  unfolding grown_def by (auto intro: map_le_trans)

lemma system_walk_good:
  assumes "system_ok z env (wks, m)" and "tref_core r < numCores z"
  shows "walk_good z env (proc_of (wks, m)) r m (wks ! tref_core r, m)"
proof -
  have "get_tlb r m = Inr ((if tref_ins r then ins_tlbs m else data_tlbs m) ! tref_core r)"
    using assms by (simp add: get_tlb_def system_ok_def nthE_in_range)
  then show ?thesis using assms by (auto simp: system_ok_def walk_good_def others_ok_def)
qed

lemma core_access_ok:
  assumes ok: "system_ok z env s" and r: "tref_core r < numCores z"
  obtains pa s' t' where "core_access z env raw r req s = Inr (pa, s')" "system_ok z env s'" "grown z env s s'"
    "translates z env s' (r, req) pa"
    "get_tlb r (snd s') = Inr (Common_tlb t')" "vpn_of z (lineAddr req) \<in> dom (tlb_trie t')"
proof -
  obtain wks m where s: "s = (wks, m)" by fastforce
  define c where "c = tref_core r"
  have good: "walk_good z env (proc_of s) r m (wks ! c, m)" using system_walk_good ok r unfolding s c_def by simp
  then obtain b where b: "get_tlb r m = Inr b" by (auto simp: walk_good_def)
  then have "tlb_ok (machine_tr z env (proc_of s c) m) b" using ok by (simp add: system_ok_def s c_def)
  then obtain t where t: "b = Common_tlb t" "tlb_inv t" "evict_policy t \<noteq> HOTNESSAware"
    "coherent (machine_tr z env (proc_of s c) m) t"
    by (auto simp: tlb_ok_def split: BaseTlb.splits)
  obtain ppn req' t' wk' m' where run: "ct_access z raw (walk_from z env r b) (write_through z env) req t (wks ! c, m) =
      Inr (paddr_of z ppn (lineAddr req), req', t', wk', m')"
    and good': "walk_good z env (proc_of s) r m (wk', m')"
    and tr: "machine_tr z env (proc_of s c) m' (vpn_of z (lineAddr req)) = Some ppn"
    and t': "tlb_inv t'" "coherent (machine_tr z env (proc_of s c) m') t'" "evict_policy t' = evict_policy t"
      "vpn_of z (lineAddr req) \<in> dom (tlb_trie t')"
    using walker.access_ok [OF t(2) good _ t(3), where b = b and raw = raw and req = req] t(4) unfolding c_def by (auto simp: domIff)
  define m2 where "m2 = set_tlb r (Common_tlb t') m'"
  define s' where "s' = (wks[c := wk'], m2)"
  have lens: "c < length wks" "length wks = numCores z" using ok r by (simp_all add: system_ok_def s c_def)
  have "core_access z env raw r req s = Inr (paddr_of z ppn (lineAddr req), s')"
    using lens b run t(1) by (simp add: core_access_def s c_def nthE_in_range tlb_access_def m2_def s'_def)
  moreover have proc: "proc_of s' = proc_of s"
    using lens good' ok r
    by (auto simp: proc_of_def s'_def s walk_good_def fun_eq_iff c_def nth_list_update system_ok_def)
  moreover have "grown z env s s'"
    unfolding grown_def proc using good' by (simp add: walk_good_def s s'_def m2_def set_tlb_core)
  moreover have "translates z env s' (r, req) (paddr_of z ppn (lineAddr req))"
    unfolding translates_def proc using tr by (simp add: s'_def m2_def set_tlb_core c_def)
  moreover obtain b1 where b1: "get_tlb r m' = Inr b1" using good' by (auto simp: walk_good_def)
  have at: "get_tlb r m2 = Inr (Common_tlb t')" unfolding m2_def by (rule get_set_tlb(1) [OF b1])
  moreover have "system_ok z env s'"
  proof -
    have "tlb_ok (machine_tr z env (proc_of s' (tref_core r')) m2) b'" if b': "get_tlb r' m2 = Inr b'" for r' b'
    proof (cases "r' = r")
      case True
      then have "b' = Common_tlb t'" using b' at by simp
      then show ?thesis using t' t(3) True proc by (simp add: tlb_ok_def m2_def set_tlb_core c_def)
    next
      case False
      then have "get_tlb r' m' = Inr b'" using b' by (simp add: m2_def get_set_tlb(2))
      then show ?thesis using good' False proc by (simp add: walk_good_def others_ok_def m2_def set_tlb_core)
    qed
    then show ?thesis
      using ok good' lens proc
      by (auto simp: system_ok_def s s'_def walk_good_def m2_def set_tlb_core c_def nth_list_update)
  qed
  ultimately show thesis using that t'(4) by (simp add: s'_def)
qed

lemma core_accesses_ok:
  assumes "system_ok z env s" and "\<forall>x\<in>set xs. tref_core (fst x) < numCores z"
  shows "\<exists>pas s'. core_accesses z env raw xs s = Inr (pas, s') \<and> system_ok z env s' \<and> grown z env s s' \<and>
    list_all2 (translates z env s') xs pas"
  using assms
proof (induction xs arbitrary: s)
  case Nil
  then show ?case by (simp add: grown_def)
next
  case (Cons x xs)
  obtain r req where x: "x = (r, req)" by fastforce
  obtain pa s1 where 1: "core_access z env raw r req s = Inr (pa, s1)" "system_ok z env s1" "grown z env s s1"
    "translates z env s1 (r, req) pa"
    by (rule core_access_ok [OF Cons.prems(1), of r raw req]) (use Cons.prems(2) x in auto)
  obtain pas s' where 2: "core_accesses z env raw xs s1 = Inr (pas, s')" "system_ok z env s'" "grown z env s1 s'"
    "list_all2 (translates z env s') xs pas"
    using Cons.IH [OF 1(2)] Cons.prems(2) by auto
  then show ?case using 1 x translates_mono [OF 2(3) 1(4)] grown_trans [OF 1(3) 2(3)] by simp
qed

section \<open>The state after initialisation\<close>

definition fresh_tlb :: "init_memory \<Rightarrow> BaseTlb \<Rightarrow> bool" where
  "fresh_tlb im b \<longleftrightarrow>
     (\<exists>t j. b = Common_tlb t \<and> tlb_inv t \<and> evict_policy t \<noteq> HOTNESSAware \<and> tlb_trie t = (\<lambda>_. None) \<and>
        tlb_lru_seq t = im_lru_seq im j)"

lemma fresh_tlb_ok: "fresh_tlb im b \<Longrightarrow> tlb_ok tr b"
  by (auto simp: fresh_tlb_def tlb_ok_def coherent_def)

lemma create_core_tlbs_ok:
  assumes type: "cfg_tlb_type cfg = ''CommonTlb''"
    and sizes: "cfg_entry_num (cfg_itlb cfg) \<noteq> 0" "cfg_entry_num (cfg_dtlb cfg) \<noteq> 0"
    and policies: "stringToPolicy (cfg_evict_policy (cfg_itlb cfg)) \<noteq> HOTNESSAware"
      "stringToPolicy (cfg_evict_policy (cfg_dtlb cfg)) \<noteq> HOTNESSAware"
  shows "\<exists>its dts. create_core_tlbs cfg im n = Inr (its, dts) \<and> length its = n \<and> length dts = n \<and>
    (\<forall>b\<in>set its \<union> set dts. fresh_tlb im b)"
proof -
  have tlb: "\<exists>b. create_tlb cfg im i c = Inr b \<and> fresh_tlb im b"
    if c: "cfg_entry_num c \<noteq> 0" "stringToPolicy (cfg_evict_policy c) \<noteq> HOTNESSAware" for i c
  proof -
    obtain t where "CommonTlb_new (im_entries im i) (im_lru_seq im i) TlbEntry (cfg_entry_num c)
        (cfg_hit_latency c) (cfg_response_latency c) (stringToPolicy (cfg_evict_policy c)) = Inr t"
      "tlb_inv t" "tlb_trie t = (\<lambda>_. None)"
      using CommonTlb_new_inv [OF c(1)] by blast
    moreover from this have "evict_policy t = stringToPolicy (cfg_evict_policy c)" "tlb_lru_seq t = im_lru_seq im i"
      by (auto simp: CommonTlb_new_def res_simps)
    ultimately show ?thesis using type c(2) by (auto simp: create_tlb_def fresh_tlb_def Let_def)
  qed
  have "\<exists>s'. create_core_tlbs cfg im n = Inr s' \<and>
      (\<lambda>js (its, dts). length its = length js \<and> length dts = length js \<and>
        (\<forall>b\<in>set its \<union> set dts. fresh_tlb im b)) [0..<n] s'"
    unfolding create_core_tlbs_def
  proof (rule foldE_invariant [where A = UNIV])
    fix j and seen :: "nat list" and s
    assume I: "case s of (its, dts) \<Rightarrow> length its = length seen \<and> length dts = length seen \<and>
        (\<forall>b\<in>set its \<union> set dts. fresh_tlb im b)"
    obtain b1 b2 where "create_tlb cfg im (2 * j) (cfg_itlb cfg) = Inr b1" "fresh_tlb im b1"
      "create_tlb cfg im (2 * j + 1) (cfg_dtlb cfg) = Inr b2" "fresh_tlb im b2"
      using tlb sizes policies by meson
    with I show "\<exists>s'. (case s of (itlbs, dtlbs) \<Rightarrow>
          bindE (create_tlb cfg im (2 * j) (cfg_itlb cfg)) (\<lambda>itlb.
          bindE (create_tlb cfg im (2 * j + 1) (cfg_dtlb cfg)) (\<lambda>dtlb.
          Inr (itlbs @ [itlb], dtlbs @ [dtlb])))) = Inr s' \<and>
        (case s' of (its, dts) \<Rightarrow> length its = length (seen @ [j]) \<and> length dts = length (seen @ [j]) \<and>
          (\<forall>b\<in>set its \<union> set dts. fresh_tlb im b))"
      by (auto split: prod.splits)
  qed auto
  then show ?thesis by auto
qed

text \<open>Paging objects of the long mode; the constructor sets the page size of the configuration.\<close>

definition lm_config :: "PagingStyle \<Rightarrow> GlobSimInfo \<Rightarrow> GlobSimInfo" where
  "lm_config mode z = z\<lparr>page_size := 2 ^ lm_shift mode, page_shift := lm_shift mode\<rparr>"

lemma LongModePaging_new_config:
  assumes "LongModePaging_new z mode = Inr (p, z')" and "mode = LongMode_Normal \<or> mode = LongMode_Middle"
  shows "z' = lm_config mode z"
proof -
  have "power_rec 2 10 = Some (2 ^ 10)" "power_rec 2 20 = Some (2 ^ 20)"
    using power_rec_pos [of 10 2] power_rec_pos [of 20 2] by simp_all
  then show ?thesis
    using assms by (auto simp: LongModePaging_new_def lm_config_def lm_shift_def res_simps)
qed

lemma create_paging_array_ok:
  assumes z: "block_size z \<noteq> 0" "\<not> enable_shared_memory z" "numProcs z \<noteq> 0"
    and mode: "mode = LongMode_Normal \<or> mode = LongMode_Middle"
  shows "\<exists>ps. create_paging_array False mode z = Inr (ps, lm_config mode z) \<and> length ps = numProcs z \<and>
    (\<forall>p\<in>set ps. \<exists>q. p = LongMode_paging q \<and> lm_inv q \<and> lm_mode q = mode \<and> lm_abs q = (\<lambda>_. None))"
proof -
  define I where "I = (\<lambda>(seen :: nat list) (ps, z'). length ps = length seen \<and>
    z' = (if seen = [] then z else lm_config mode z) \<and>
    (\<forall>p\<in>set ps. \<exists>q. p = LongMode_paging q \<and> lm_inv q \<and> lm_mode q = mode \<and> lm_abs q = (\<lambda>_. None)))"
  have "\<exists>s'. create_paging_array False mode z = Inr s' \<and> I [0..<numProcs z] s'"
    unfolding create_paging_array_def
  proof (rule foldE_invariant [where A = UNIV])
    fix j seen s assume I: "I seen s"
    obtain ps z1 where s: "s = (ps, z1)" by fastforce
    have z1: "block_size z1 \<noteq> 0" "\<not> enable_shared_memory z1" "lm_config mode z1 = lm_config mode z"
      using I z by (simp_all add: I_def s lm_config_def split: if_splits)
    obtain q z2 where q: "LongModePaging_new z1 mode = Inr (q, z2)" "lm_inv q" "lm_mode q = mode" "lm_abs q = (\<lambda>_. None)"
      by (rule LongModePaging_new_ok [OF z1(1), of mode]) (use mode in \<open>auto simp: lm_levels_def\<close>)
    have "create_paging False mode z1 = Inr (LongMode_paging q, z2)"
      using q(1) z1(2) mode by (auto simp: create_paging_def pagingmode_to_string_def)
    moreover have "z2 = lm_config mode z" using LongModePaging_new_config [OF q(1) mode] z1(3) by simp
    ultimately show "\<exists>s'. (case s of (ps, zinfo) \<Rightarrow>
        bindE (create_paging False mode zinfo) (\<lambda>(p, zinfo). Inr (ps @ [p], zinfo))) = Inr s' \<and> I (seen @ [j]) s'"
      using I q by (auto simp: s I_def)
  qed (auto simp: I_def)
  then show ?thesis using z(3) by (auto simp: I_def)
qed

text \<open>
  A configuration with ordinary TLBs, 64-bit paging, no shared memory and all memory in the normal
  zone. The number of pages may be any from 1 to \<open>2^32 - 1\<close>.
\<close>

definition config_ok :: "sys_config \<Rightarrow> GlobSimInfo \<Rightarrow> bool" where
  "config_ok cfg z \<longleftrightarrow>
     cfg_tlb_type cfg = ''CommonTlb'' \<and> \<not> cfg_reversed_pgt cfg \<and>
     string_to_pagingmode (cfg_mode_str cfg) \<in> {LongMode_Normal, LongMode_Middle} \<and>
     numProcs z \<noteq> 0 \<and> (numProcs z = 1 \<or> \<not> cfg_shared_memory cfg) \<and>
     cfg_entry_num (cfg_itlb cfg) \<noteq> 0 \<and> cfg_entry_num (cfg_dtlb cfg) \<noteq> 0 \<and>
     stringToPolicy (cfg_evict_policy (cfg_itlb cfg)) \<noteq> HOTNESSAware \<and>
     stringToPolicy (cfg_evict_policy (cfg_dtlb cfg)) \<noteq> HOTNESSAware \<and>
     \<not> cfg_zone_sec cfg \<and> cfg_zone cfg Zone_Normal = None \<and>
     2 ^ lm_shift (string_to_pagingmode (cfg_mode_str cfg)) \<le> unat (memory_size z) \<and>
     unat (memory_size z) div 2 ^ lm_shift (string_to_pagingmode (cfg_mode_str cfg)) < 2 ^ 32 \<and>
     0 \<le> percpu_pagelist_fraction z \<and> percpu_pagelist_fraction z < 2 ^ 31"

lemma init_machine_ok:
  assumes ps: "\<forall>p\<in>set ps. \<exists>q. p = LongMode_paging q \<and> lm_inv q \<and> lm_mode q = mode \<and> lm_abs q = (\<lambda>_. None)"
    and m: "paging_array m = ps" "buddy_allocator m = Some ba" "buddy_inv ba Zone_Normal bl"
    and mode: "mode \<noteq> LongMode_Huge" "lm_shift mode = page_shift z"
  shows "machine_ok z m" "mapped_at m = (\<lambda>_ _. None)"
proof -
  have pag: "\<exists>p. lm_paging m i = Some p \<and> table_ok z p \<and> lm_abs p = (\<lambda>_. None)" if i: "i < length ps" for i
  proof -
    obtain q where "ps ! i = LongMode_paging q" "lm_inv q" "lm_mode q = mode" "lm_abs q = (\<lambda>_. None)"
      using ps nth_mem [OF i] by blast
    then show ?thesis using i m(1) mode by (simp add: lm_paging_def table_ok_def)
  qed
  have none: "mapped_at m i k = None" for i k
  proof (cases "i < length ps")
    case True
    then show ?thesis using pag [OF True] by (auto simp: mapped_at_def)
  qed (simp add: mapped_at_def lm_paging_def m(1))
  then have "frames_ok F n (mapped_at m) oa" for F n oa by (simp add: frames_ok_def)
  moreover have "free_frames m (free_mset bl)" using m(2,3) by (auto simp: free_frames_def)
  moreover have "tables_ok z m" unfolding tables_ok_def m(1) using pag by blast
  ultimately show "machine_ok z m" by (auto simp: machine_ok_def)
  show "mapped_at m = (\<lambda>_ _. None)" using none by (simp add: fun_eq_iff)
qed

text \<open>An odd last page is in no free list.\<close>

definition boot_frames :: "sys_config \<Rightarrow> GlobSimInfo \<Rightarrow> nat multiset" where
  "boot_frames cfg z =
     (let n = unat (memory_size z) div 2 ^ lm_shift (string_to_pagingmode (cfg_mode_str cfg))
      in mset [0..<n - n mod 2])"

lemma init_system_runs:
  assumes cfg: "config_ok cfg z"
  obtains z' wks m where "init_system cfg im z = Inr (z', wks, m)" "numCores z' = numCores z" "machine_ok z' m"
    "\<not> enable_shared_memory z'" "length (paging_array m) = numProcs z" "length wks = numCores z"
    "length (ins_tlbs m) = numCores z" "length (data_tlbs m) = numCores z"
    "\<forall>b\<in>set (ins_tlbs m) \<union> set (data_tlbs m). fresh_tlb im b"
    "free_frames m (boot_frames cfg z)" "mapped_at m = (\<lambda>_ _. None)"
proof -
  define mode where "mode = string_to_pagingmode (cfg_mode_str cfg)"
  have mode: "mode = LongMode_Normal \<or> mode = LongMode_Middle" using cfg by (simp add: config_ok_def mode_def)
  define z1 where "z1 = init_defaults cfg z"
  have z1: "block_size z1 \<noteq> 0" "\<not> enable_shared_memory z1" "numProcs z1 \<noteq> 0" "numProcs z1 = numProcs z"
    "numCores z1 = numCores z"
    using cfg by (auto simp: z1_def init_defaults_def config_ok_def)
  obtain ps where ps: "create_paging_array False mode z1 = Inr (ps, lm_config mode z1)" "length ps = numProcs z"
    "\<forall>p\<in>set ps. \<exists>q. p = LongMode_paging q \<and> lm_inv q \<and> lm_mode q = mode \<and> lm_abs q = (\<lambda>_. None)"
    using create_paging_array_ok [OF z1(1-3) mode] z1(4) by auto
  obtain its dts where tlbs: "create_core_tlbs cfg im (numCores z) = Inr (its, dts)" "length its = numCores z"
    "length dts = numCores z" "\<forall>b\<in>set its \<union> set dts. fresh_tlb im b"
    using create_core_tlbs_ok [of cfg im "numCores z"] cfg by (auto simp: config_ok_def)
  define z2 where "z2 = init_zone_sizes cfg ((lm_config mode z1)\<lparr>tlb_hit_lat := cfg_hit_latency (cfg_dtlb cfg)\<rparr>)"
  have z2: "page_shift z2 = lm_shift mode" "page_size z2 = 2 ^ lm_shift mode" "memory_size z2 = memory_size z"
    "numCores z2 = numCores z" "\<not> enable_shared_memory z2" "percpu_pagelist_fraction z2 = percpu_pagelist_fraction z"
    "single_zone z2 (drop_bit (lm_shift mode) (memory_size z))"
    using z1 cfg by (simp_all add: z2_def init_zone_sizes_def lm_config_def z1_def init_defaults_def single_zone_def
        zone_pfns_def config_ok_def unat_drop_bit mode_def)
  have "drop_bit (lm_shift mode) (memory_size z) \<noteq> 0"
  proof -
    have "0 < unat (drop_bit (lm_shift mode) (memory_size z))"
      unfolding unat_drop_bit using cfg by (intro div_greater_zero_iff [THEN iffD2]) (simp add: config_ok_def mode_def)
    then show ?thesis by (metis less_irrefl unat_0)
  qed
  moreover have "memory_size z2 \<noteq> 0" using cfg z2(3) by (auto simp: config_ok_def)
  moreover have "zone_cfg_ok z2" using cfg mode z2 by (auto simp: zone_cfg_ok_def lm_shift_def config_ok_def)
  ultimately obtain nd ba bl where nd: "MemoryNode_new (im_node im) z2 0 0 = Inr nd"
    "BuddyAllocator_new z2 mode (Some nd) = Inr ba" "buddy_inv ba Zone_Normal bl"
    "free_mset bl = boot_frames cfg z"
    using new_allocator_inv [OF _ z2(7), where raw = "im_node im" and nid = 0 and mode = mode]
    unfolding boot_frames_def mode_def [symmetric] Let_def unat_drop_bit by blast
  define m where "m = \<lparr>paging_array = ps, ins_tlbs = its, data_tlbs = dts, buddy_allocator = Some ba,
    dram_blocks = (\<lambda>_. None), dram_manager = im_manager im, shared_region = [], fetcher = im_fetcher im\<rparr>"
  have "init_system cfg im z = Inr (z2, map (\<lambda>j. PageTableWalker_new (im_paging im j)) [0..<numCores z], m)"
    using ps(1) tlbs(1) nd(1,2) cfg z1(5)
    by (simp add: init_system_def mode_def z1_def z2_def m_def init_buffer_def config_ok_def lm_config_def Let_def)
  moreover have "paging_array m = ps" "buddy_allocator m = Some ba" "mode \<noteq> LongMode_Huge" "lm_shift mode = page_shift z2"
    using mode z2(1) by (auto simp: m_def)
  note init_machine_ok [OF ps(3) this(1,2) nd(3) this(3,4)]
  moreover have "free_frames m (boot_frames cfg z)" using nd(3,4) by (auto simp: free_frames_def m_def)
  ultimately show thesis using that z2(4,5) ps(2) tlbs(2-4) by (simp add: m_def)
qed

lemma bind_cores_ok:
  assumes procs: "length procs = numCores z" "\<forall>p\<in>set procs. unat p < length (paging_array m)" and wks: "length wks = numCores z"
  shows "\<exists>wks'. bind_cores z procs (wks, m) = Inr (wks', m) \<and> length wks' = numCores z \<and>
    (\<forall>c<numCores z. paging (wks' ! c) = Some (unat (procs ! c)))"
proof -
  define I where "I = (\<lambda>seen (wks' :: PageTableWalker list, m'). m' = m \<and> length wks' = numCores z \<and>
    (\<forall>c\<in>set seen. c < numCores z \<longrightarrow> paging (wks' ! c) = Some (unat (procs ! c))))"
  have "\<exists>s'. bind_cores z procs (wks, m) = Inr s' \<and> I [0..<length procs] s'"
    unfolding bind_cores_def
  proof (rule foldE_invariant [where A = "{..<numCores z}"])
    fix c seen s assume c: "c \<in> {..<numCores z}" and I: "I seen s"
    obtain wks' where s: "s = (wks', m)" "length wks' = numCores z"
      "\<forall>c\<in>set seen. c < numCores z \<longrightarrow> paging (wks' ! c) = Some (unat (procs ! c))"
      using I by (auto simp: I_def)
    have "unat (procs ! c) < length (paging_array m)" using procs c by simp
    then show "\<exists>s'. setCid z c (procs ! c) s = Inr s' \<and> I (seen @ [c]) s'"
      using s c by (auto simp: setCid_def nthE_in_range I_def SetPaging_def nth_list_update)
  qed (use procs wks in \<open>auto simp: I_def\<close>)
  then show ?thesis using procs(1) by (auto simp: I_def)
qed

lemma init_system_ok:
  assumes cfg: "config_ok cfg z" and procs: "length procs = numCores z" "\<forall>p\<in>set procs. unat p < numProcs z"
  shows "\<exists>z' s0 s. init_system cfg im z = Inr (z', s0) \<and> bind_cores z' procs s0 = Inr s \<and>
    system_ok z' env s \<and> numCores z' = numCores z \<and> (\<forall>c<numCores z. proc_of s c = unat (procs ! c)) \<and>
    free_frames (snd s) (boot_frames cfg z) \<and> mapped_at (snd s) = (\<lambda>_ _. None) \<and>
    (\<forall>r b. get_tlb r (snd s) = Inr b \<longrightarrow> fresh_tlb im b)"
proof -
  obtain z' wks m where init: "init_system cfg im z = Inr (z', wks, m)" "numCores z' = numCores z" "machine_ok z' m"
    "\<not> enable_shared_memory z'" "length (paging_array m) = numProcs z" "length wks = numCores z"
    "length (ins_tlbs m) = numCores z" "length (data_tlbs m) = numCores z"
    "\<forall>b\<in>set (ins_tlbs m) \<union> set (data_tlbs m). fresh_tlb im b"
    "free_frames m (boot_frames cfg z)" "mapped_at m = (\<lambda>_ _. None)"
    by (rule init_system_runs [OF cfg])
  obtain wks' where bind: "bind_cores z' procs (wks, m) = Inr (wks', m)" "length wks' = numCores z"
    "\<forall>c<numCores z. paging (wks' ! c) = Some (unat (procs ! c))"
    using bind_cores_ok [of procs z' m wks] procs init(2,5,6) by auto
  have proc: "proc_of (wks', m) c = unat (procs ! c)" if "c < numCores z" for c
    using bind(3) that by (simp add: proc_of_def)
  have fresh: "fresh_tlb im b" if "get_tlb r m = Inr b" for r b
    using that init(9) by (cases "tref_ins r") (auto simp: get_tlb_def nthE_Inr_iff)
  then have "tlb_ok tr b" if "get_tlb r m = Inr b" for r b tr using that fresh_tlb_ok by blast
  moreover have "unat (procs ! c) < numProcs z" if "c < numCores z" for c using procs that by simp
  ultimately have "system_ok z' env (wks', m)" using init bind proc by (simp add: system_ok_def)
  then show ?thesis using init(1,2,10,11) bind(1) proc fresh by (metis snd_conv)
qed

section \<open>Recency\<close>

text \<open>An access of one TLB, as in \<open>core_access_ok\<close>, with what happens to its entries.\<close>

lemma core_access_lru:
  fixes req :: MemReq
  assumes ok: "system_ok z env (wks, m)" and r: "tref_core r < numCores z"
    and t: "get_tlb r m = Inr (Common_tlb t)" "lru_rel t l" and seq: "Suc (unat (tlb_lru_seq t)) < 2 ^ 31"
  defines "v \<equiv> vpn_of z (lineAddr req)"
  shows "\<exists>pa wks' m' t'. core_access z env raw r req (wks, m) = Inr (pa, wks', m') \<and> system_ok z env (wks', m') \<and>
    get_tlb r m' = Inr (Common_tlb t') \<and> lru_rel t' (lru_access (length (tlb t)) v l) \<and>
    length (tlb t') = length (tlb t) \<and> unat (tlb_lru_seq t') = Suc (unat (tlb_lru_seq t)) \<and>
    tlb_hit_time t' = tlb_hit_time t + (if v \<in> set l then 1 else 0)"
proof -
  define c where "c = tref_core r"
  have good: "walk_good z env (proc_of (wks, m)) r m (wks ! c, m)" using system_walk_good ok r unfolding c_def by simp
  have "tlb_ok (machine_tr z env (proc_of (wks, m) c) m) (Common_tlb t)" using ok t(1) by (simp add: system_ok_def c_def)
  then have t': "evict_policy t \<noteq> HOTNESSAware" "coherent (machine_tr z env (proc_of (wks, m) c) m) t"
    by (simp_all add: tlb_ok_def)
  obtain pa req' t1 wk1 m1 where run:
    "ct_access z raw (walk_from z env r (Common_tlb t)) (write_through z env) req t (wks ! c, m) = Inr (pa, req', t1, wk1, m1)"
    "lru_rel t1 (lru_access (length (tlb t)) v l)" "length (tlb t1) = length (tlb t)"
    "unat (tlb_lru_seq t1) = Suc (unat (tlb_lru_seq t))"
    "tlb_hit_time t1 = tlb_hit_time t + (if v \<in> set l then 1 else 0)"
    "walk_good z env (proc_of (wks, m)) r m (wk1, m1)"
    using walker.lru_access_ok [OF t(2) good _ t'(1) seq, where b = "Common_tlb t" and raw = raw and req = req] t'(2)
    unfolding v_def c_def by auto
  have "c < length wks" using ok r by (simp add: system_ok_def c_def)
  then have acc: "core_access z env raw r req (wks, m) = Inr (pa, wks[c := wk1], set_tlb r (Common_tlb t1) m1)"
    using run(1) t(1) by (simp add: core_access_def c_def nthE_in_range tlb_access_def)
  moreover have "system_ok z env (wks[c := wk1], set_tlb r (Common_tlb t1) m1)"
    by (rule core_access_ok [OF ok r, where raw = raw and req = req]) (use acc in simp)
  moreover obtain b1 where "get_tlb r m1 = Inr b1" using run(6) by (auto simp: walk_good_def)
  then have "get_tlb r (set_tlb r (Common_tlb t1) m1) = Inr (Common_tlb t1)" by (rule get_set_tlb(1))
  ultimately show ?thesis using run(2-5) by blast
qed

lemma core_accesses_lru:
  assumes "system_ok z env (wks, m)" and "tref_core r < numCores z"
    and "get_tlb r m = Inr (Common_tlb t)" "lru_rel t l" and "unat (tlb_lru_seq t) + length reqs < 2 ^ 31"
  defines "vs \<equiv> map (\<lambda>req. vpn_of z (lineAddr req)) reqs"
  shows "\<exists>pas wks' m' t'. core_accesses z env raw (map (Pair r) reqs) (wks, m) = Inr (pas, wks', m') \<and>
    get_tlb r m' = Inr (Common_tlb t') \<and> lru_rel t' (foldl (\<lambda>l v. lru_access (length (tlb t)) v l) l vs) \<and>
    tlb_hit_time t' = tlb_hit_time t + of_nat (lru_hits (length (tlb t)) vs l)"
  using assms(1-5) unfolding vs_def
proof (induction reqs arbitrary: wks m t l)
  case (Cons req reqs)
  define v where "v = vpn_of z (lineAddr req)"
  obtain pa wks1 m1 t1 where 1: "core_access z env raw r req (wks, m) = Inr (pa, wks1, m1)" "system_ok z env (wks1, m1)"
    "get_tlb r m1 = Inr (Common_tlb t1)" "lru_rel t1 (lru_access (length (tlb t)) v l)"
    "length (tlb t1) = length (tlb t)" "unat (tlb_lru_seq t1) = Suc (unat (tlb_lru_seq t))"
    "tlb_hit_time t1 = tlb_hit_time t + (if v \<in> set l then 1 else 0)"
    using core_access_lru [OF Cons.prems(1-4), where raw = raw and req = req] Cons.prems(5) unfolding v_def by auto
  then show ?case
    using Cons.IH [OF 1(2) Cons.prems(2) 1(3,4)] Cons.prems(5) by (auto simp: v_def [symmetric] ac_simps)
qed simp

section \<open>Examples\<close>

definition example_tlb_cfg :: tlb_config where
  "example_tlb_cfg = \<lparr>cfg_entry_num = 4, cfg_hit_latency = 1, cfg_response_latency = 1, cfg_evict_policy = ''LRU''\<rparr>"

definition example_cfg :: sys_config where
  "example_cfg =
     \<lparr>cfg_shared_memory = False, cfg_read_incre_step = 1, cfg_write_incre_step = 2, cfg_tlb_type = ''CommonTlb'',
      cfg_mode_str = ''LongMode_Normal'', cfg_reversed_pgt = False, cfg_itlb = example_tlb_cfg,
      cfg_dtlb = example_tlb_cfg, cfg_zone_sec = False, cfg_zone = (\<lambda>_. None), cfg_buffer_size = 0,
      cfg_init_access_threshold = 10, cfg_multi_queue = False\<rparr>"

text \<open>Two processes on two cores, with a memory of the given size.\<close>

definition example_procs :: "u64 \<Rightarrow> GlobSimInfo" where
  "example_procs sz = example_zinfo\<lparr>numProcs := 2, memory_size := sz\<rparr>"

lemma example_cfg_ok: "0x1000 \<le> sz \<Longrightarrow> sz \<le> 0x10000 \<Longrightarrow> config_ok example_cfg (example_procs sz)"
  by (simp add: config_ok_def example_cfg_def example_procs_def example_zinfo_def example_tlb_cfg_def
      string_to_pagingmode_def stringToPolicy_def lm_shift_def word_le_nat_alt)

abbreviation dtlb :: "nat \<Rightarrow> tlb_ref" where
  "dtlb c \<equiv> \<lparr>tref_ins = False, tref_core = c\<rparr>"

lemma example_boot:
  assumes "0x1000 \<le> sz" "sz \<le> 0x10000"
  obtains z s0 s where "init_system example_cfg im (example_procs sz) = Inr (z, s0)" "bind_cores z [0, 1] s0 = Inr s"
    "system_ok z env s" "numCores z = 2" "proc_of s 0 = 0" "proc_of s 1 = 1"
    "free_frames (snd s) (boot_frames example_cfg (example_procs sz))" "mapped_at (snd s) = (\<lambda>_ _. None)"
    "\<And>r b. get_tlb r (snd s) = Inr b \<Longrightarrow> fresh_tlb im b"
proof -
  have "\<forall>c<2. proc_of s c = unat ([0, 1] ! c :: u32) \<Longrightarrow> proc_of s 0 = 0 \<and> proc_of s 1 = 1" for s
    by (auto simp: less_2_cases_iff)
  then show thesis
    using init_system_ok [OF example_cfg_ok [OF assms], of "[0, 1]" im env] that
    by (auto simp: example_procs_def example_zinfo_def)
qed

section \<open>Properties\<close>

text \<open>
  C1. From the start of the simulator on, whatever accesses the cores make in whatever order,
  through their instruction and data TLBs: no access fails, and the physical address returned is
  the one that the page table of the process of the core holds for the virtual page at the end of
  the sequence; only if the table holds nothing for the page even then, and the allocator has no page
  left, it is made of the virtual page number. So entries of a TLB are never stale, although page
  faults of other cores shoot entries down and evictions reuse them. The configuration has ordinary
  TLBs, 4 KB or 2 MB pages of the long mode, no shared memory, and one zone of 1 to \<open>2^32 - 1\<close> pages.
\<close>

theorem tlbs_agree_with_page_tables:
  assumes "config_ok cfg z" and "length procs = numCores z" and "\<forall>p\<in>set procs. unat p < numProcs z"
    and "\<forall>x\<in>set xs. tref_core (fst x) < numCores z"
  shows "\<exists>z' s0 s pas s'. init_system cfg im z = Inr (z', s0) \<and> bind_cores z' procs s0 = Inr s \<and>
    core_accesses z' env raw xs s = Inr (pas, s') \<and> list_all2 (answered z' env s') xs pas"
proof -
  obtain z' s0 s where s: "init_system cfg im z = Inr (z', s0)" "bind_cores z' procs s0 = Inr s" "system_ok z' env s"
    "numCores z' = numCores z"
    using init_system_ok [OF assms(1-3)] by blast
  obtain pas s' where "core_accesses z' env raw xs s = Inr (pas, s')" "list_all2 (translates z' env s') xs pas"
    using core_accesses_ok [OF s(3), of xs raw] assms(4) s(4) by auto
  then have "list_all2 (answered z' env s') xs pas" "core_accesses z' env raw xs s = Inr (pas, s')"
    by (auto elim: list_all2_mono intro: translates_answered)
  with s(1,2) show ?thesis by blast
qed

theorem tlbs_agree_with_page_tables_witness:
  "\<forall>im env raw. \<exists>z' s0 s pas s'. init_system example_cfg im (example_procs 0x10000) = Inr (z', s0) \<and>
     bind_cores z' [0, 1] s0 = Inr s \<and>
     core_accesses z' env raw [(dtlb 0, example_req 0x7000), (dtlb 1, example_req 0x7008)] s = Inr (pas, s') \<and>
     list_all2 (answered z' env s') [(dtlb 0, example_req 0x7000), (dtlb 1, example_req 0x7008)] pas"
  by (intro allI, rule tlbs_agree_with_page_tables [OF example_cfg_ok])
    (simp_all add: example_procs_def example_zinfo_def)

text \<open>
  C2. The page tables of all processes keep the frames apart: after any accesses of the cores, two
  virtual pages that the tables map to the same frame are the same page of the same process, and no
  mapped page is free. As long as the allocator has pages left, the same holds of the translations
  (\<open>machine_tr\<close>) of virtual page numbers: two numbers with the same translation are held at the same
  place of the same table.
\<close>

theorem processes_do_not_share_frames:
  assumes "config_ok cfg z" and "length procs = numCores z" and "\<forall>p\<in>set procs. unat p < numProcs z"
    and "\<forall>x\<in>set xs. tref_core (fst x) < numCores z"
  shows "\<exists>z' s0 s pas wks m. init_system cfg im z = Inr (z', s0) \<and> bind_cores z' procs s0 = Inr s \<and>
    core_accesses z' env raw xs s = Inr (pas, wks, m) \<and>
    (\<forall>i k j l p q. mapped_at m i k = Some p \<and> mapped_at m j l = Some q \<and>
       obj_addr z' (machine_objs m) p = obj_addr z' (machine_objs m) q \<longrightarrow> i = j \<and> k = l) \<and>
    (\<exists>F. free_frames m F \<and> (\<forall>i k a. mapped_at m i k = Some (PagePtr a) \<longrightarrow> unat a \<notin># F)) \<and>
    (exhausted env m \<or> (\<forall>i j u v a. machine_tr z' env i m u = Some a \<and> machine_tr z' env j m v = Some a \<longrightarrow>
       i = j \<and> table_index m i u = table_index m j v))"
proof -
  obtain z' s0 s where s: "init_system cfg im z = Inr (z', s0)" "bind_cores z' procs s0 = Inr s" "system_ok z' env s"
    "numCores z' = numCores z"
    using init_system_ok [OF assms(1-3)] by blast
  obtain pas wks m where run: "core_accesses z' env raw xs s = Inr (pas, wks, m)" "system_ok z' env (wks, m)"
    using core_accesses_ok [OF s(3), of xs raw] assms(4) s(4) by auto
  have inj: "i = j \<and> k = l" if "mapped_at m i k = Some p" "mapped_at m j l = Some q"
      "obj_addr z' (machine_objs m) p = obj_addr z' (machine_objs m) q" for i k j l p q
  proof -
    have "machine_ok z' m" using run(2) by (simp add: system_ok_def)
    then show ?thesis using that unfolding machine_ok_def frames_ok_def by blast
  qed
  have tr: "i = j \<and> table_index m i u = table_index m j v" if h: "\<not> exhausted env m" "machine_tr z' env i m u = Some a"
      "machine_tr z' env j m v = Some a" for i j u v a
  proof -
    obtain p q where "mapped_at m i (table_index m i u) = Some p" "mapped_at m j (table_index m j v) = Some q"
      "obj_addr z' (machine_objs m) p = Some a" "obj_addr z' (machine_objs m) q = Some a"
      using h by (auto simp: machine_tr_def split: option.splits)
    then show ?thesis using inj by metis
  qed
  obtain F where F: "free_frames m F" "frames_ok F (node_pages m) (mapped_at m) (obj_addr z' (machine_objs m))"
    using run(2) by (auto simp: system_ok_def machine_ok_def)
  have "unat a \<notin># F" if "mapped_at m i k = Some (PagePtr a)" for i k a
  proof -
    have "frame_ok F (node_pages m) (obj_addr z' (machine_objs m)) (PagePtr a)"
      using F(2) that unfolding frames_ok_def by blast
    then show ?thesis by (simp add: frame_ok_def)
  qed
  then have nf: "\<exists>F. free_frames m F \<and> (\<forall>i k a. mapped_at m i k = Some (PagePtr a) \<longrightarrow> unat a \<notin># F)"
    using F(1) by blast
  show ?thesis
    by (intro exI [of _ z'] exI [of _ s0] exI [of _ s] exI [of _ pas] exI [of _ wks] exI [of _ m] conjI
        s(1,2) run(1) nf) (use inj tr in blast)+
qed

theorem processes_do_not_share_frames_witness:
  "\<forall>im env raw. \<exists>z' s0 s pas wks m. init_system example_cfg im (example_procs 0x10000) = Inr (z', s0) \<and>
     bind_cores z' [0, 1] s0 = Inr s \<and>
     core_accesses z' env raw [(dtlb 0, example_req 0x7000), (dtlb 1, example_req 0x7008)] s = Inr (pas, wks, m) \<and>
     (\<forall>i k j l p q. mapped_at m i k = Some p \<and> mapped_at m j l = Some q \<and>
       obj_addr z' (machine_objs m) p = obj_addr z' (machine_objs m) q \<longrightarrow> i = j \<and> k = l) \<and>
     (\<exists>F. free_frames m F \<and> (\<forall>i k a. mapped_at m i k = Some (PagePtr a) \<longrightarrow> unat a \<notin># F)) \<and>
     (exhausted env m \<or> (\<forall>i j u v a. machine_tr z' env i m u = Some a \<and> machine_tr z' env j m v = Some a \<longrightarrow>
       i = j \<and> table_index m i u = table_index m j v))"
  by (intro allI, rule processes_do_not_share_frames [OF example_cfg_ok])
    (simp_all add: example_procs_def example_zinfo_def)

text \<open>
  C7. Type safety of the translation path: in a state in order, an access of any core through
  either of its TLBs succeeds, so no assertion fails, no null pointer is followed and no array is
  read out of range, and the state after it is in order again.
\<close>

theorem core_access_keeps_system_ok:
  assumes "system_ok z env s" and "tref_core r < numCores z"
  shows "\<exists>pa s'. core_access z env raw r req s = Inr (pa, s') \<and> system_ok z env s'"
  by (rule core_access_ok [OF assms, where raw = raw and req = req]) blast

theorem core_access_keeps_system_ok_witness:
  "\<forall>im env raw. \<exists>z s0 s pa s'. init_system example_cfg im (example_procs 0x10000) = Inr (z, s0) \<and>
     bind_cores z [0, 1] s0 = Inr s \<and> core_access z env raw (dtlb 1) (example_req 0x7000) s = Inr (pa, s') \<and>
     system_ok z env s'"
proof (intro allI)
  fix im env raw
  obtain z s0 s where s: "init_system example_cfg im (example_procs 0x10000) = Inr (z, s0)" "bind_cores z [0, 1] s0 = Inr s"
    "system_ok z env s" "tref_core (dtlb 1) < numCores z"
    by (rule example_boot [of "0x10000" im env]) auto
  show "\<exists>z s0 s pa s'. init_system example_cfg im (example_procs 0x10000) = Inr (z, s0) \<and>
     bind_cores z [0, 1] s0 = Inr s \<and> core_access z env raw (dtlb 1) (example_req 0x7000) s = Inr (pa, s') \<and>
     system_ok z env s'"
    using s(1,2) core_access_keeps_system_ok [OF s(3,4), of raw "example_req 0x7000"] by blast
qed

text \<open>
  C3. The TLB is least recently used: after any sequence of accesses through a TLB that was empty,
  it holds exactly the pages among the last \<open>n\<close> different ones accessed, where \<open>n\<close> is its number of
  entries, and its hit counter has grown by the number of hits of a list with move-to-front. The
  sequence is shorter than the range of the signed counter of the TLB.
\<close>

theorem tlb_holds_most_recent:
  assumes "system_ok z env (wks, m)" and "tref_core r < numCores z"
    and "get_tlb r m = Inr (Common_tlb t)" and "tlb_trie t = (\<lambda>_. None)"
    and "unat (tlb_lru_seq t) + length reqs < 2 ^ 31"
  defines "vs \<equiv> map (\<lambda>req. vpn_of z (lineAddr req)) reqs"
  shows "\<exists>pas wks' m' t'. core_accesses z env raw (map (Pair r) reqs) (wks, m) = Inr (pas, wks', m') \<and>
    get_tlb r m' = Inr (Common_tlb t') \<and> dom (tlb_trie t') = set (take (length (tlb t)) (rev (remdups vs))) \<and>
    tlb_hit_time t' = tlb_hit_time t + of_nat (lru_hits (length (tlb t)) vs [])"
proof -
  have "tlb_ok (machine_tr z env (proc_of (wks, m) (tref_core r)) m) (Common_tlb t)"
    using assms(1,3) by (simp add: system_ok_def)
  then have inv: "tlb_inv t" by (simp add: tlb_ok_def)
  then have "\<not> used t i" for i using tlb_inv_used [of t i] assms(4) by auto
  then have "lru_rel t []" using inv assms(4) by (simp add: lru_rel_def)
  moreover have "tlb t \<noteq> []" using inv unfolding tlb_inv_def by blast
  ultimately show ?thesis
    using core_accesses_lru [OF assms(1-3) _ assms(5), of "[]" raw] lru_accesses_remdups [of "length (tlb t)" vs]
    unfolding vs_def lru_rel_def by auto
qed

theorem tlb_holds_most_recent_witness:
  "\<forall>im env raw. \<exists>z s0 wks m t pas wks' m' t'.
     init_system example_cfg (im\<lparr>im_lru_seq := (\<lambda>_. 0)\<rparr>) (example_procs 0x10000) = Inr (z, s0) \<and>
     bind_cores z [0, 1] s0 = Inr (wks, m) \<and> get_tlb (dtlb 0) m = Inr (Common_tlb t) \<and>
     core_accesses z env raw (map (Pair (dtlb 0)) [example_req 0x1000, example_req 0x2000, example_req 0x1008]) (wks, m) =
       Inr (pas, wks', m') \<and> get_tlb (dtlb 0) m' = Inr (Common_tlb t') \<and>
     dom (tlb_trie t') = set (take (length (tlb t)) (rev (remdups
       (map (\<lambda>req. vpn_of z (lineAddr req)) [example_req 0x1000, example_req 0x2000, example_req 0x1008]))))"
proof (intro allI)
  fix im env raw
  let ?reqs = "[example_req 0x1000, example_req 0x2000, example_req 0x1008]"
  obtain z s0 s where *: "init_system example_cfg (im\<lparr>im_lru_seq := (\<lambda>_. 0)\<rparr>) (example_procs 0x10000) = Inr (z, s0)"
    "bind_cores z [0, 1] s0 = Inr s" "system_ok z env s" "tref_core (dtlb 0) < numCores z"
    "\<forall>r b. get_tlb r (snd s) = Inr b \<longrightarrow> fresh_tlb (im\<lparr>im_lru_seq := (\<lambda>_. 0)\<rparr>) b"
    by (rule example_boot [of "0x10000" "im\<lparr>im_lru_seq := (\<lambda>_. 0)\<rparr>" env]) auto
  obtain wks m where "s = (wks, m)" by fastforce
  note s = * [unfolded this snd_conv]
  obtain t where t: "get_tlb (dtlb 0) m = Inr (Common_tlb t)" "tlb_trie t = (\<lambda>_. None)" "tlb_lru_seq t = 0"
    using system_walk_good [OF s(3,4)] s(5) by (fastforce simp: walk_good_def fresh_tlb_def)
  have "unat (tlb_lru_seq t) + length ?reqs < 2 ^ 31" using t(3) by simp
  from tlb_holds_most_recent [OF s(3,4) t(1,2) this, of raw] s(1,2) t(1)
  show "\<exists>z s0 wks m t pas wks' m' t'.
     init_system example_cfg (im\<lparr>im_lru_seq := (\<lambda>_. 0)\<rparr>) (example_procs 0x10000) = Inr (z, s0) \<and>
     bind_cores z [0, 1] s0 = Inr (wks, m) \<and> get_tlb (dtlb 0) m = Inr (Common_tlb t) \<and>
     core_accesses z env raw (map (Pair (dtlb 0)) ?reqs) (wks, m) = Inr (pas, wks', m') \<and>
     get_tlb (dtlb 0) m' = Inr (Common_tlb t') \<and>
     dom (tlb_trie t') = set (take (length (tlb t)) (rev (remdups (map (\<lambda>req. vpn_of z (lineAddr req)) ?reqs))))"
    by blast
qed

text \<open>
  C31. When the allocator has no page left, a page fault is answered with the number of the virtual
  page. The answer does not depend on the process, so two processes that touch a virtual page that
  neither has mapped get the same physical address.
\<close>

theorem exhausted_memory_is_shared:
  fixes req :: MemReq
  assumes ok: "system_ok z env s" and ex: "exhausted env (snd s)" and r: "tref_core r < numCores z"
  defines "v \<equiv> vpn_of z (lineAddr req)" and "i \<equiv> proc_of s (tref_core r)"
  assumes none: "mapped_at (snd s) i (table_index (snd s) i v) = None"
  shows "\<exists>s'. core_access z env raw r req s = Inr (paddr_of z v (lineAddr req), s')"
proof -
  obtain pa s' where run: "core_access z env raw r req s = Inr (pa, s')" "grown z env s s'"
    "translates z env s' (r, req) pa"
    by (rule core_access_ok [OF ok r, where raw = raw and req = req])
  have "machine_tr z env i (snd s) v = Some v" using none ex by (simp add: machine_tr_def)
  then have "machine_tr z env i (snd s') v = Some v" using run(2) unfolding grown_def by (metis domI map_le_def)
  then have "pa = paddr_of z v (lineAddr req)"
    using run(2,3) by (simp add: grown_def translates_def v_def i_def)
  then show ?thesis using run(1) by blast
qed

text \<open>The last page of an odd number is never free: a memory of one page is exhausted from the start.\<close>

theorem exhausted_memory_is_shared_witness:
  "\<forall>im env raw. \<exists>z s0 s pa s1 s2. init_system example_cfg im (example_procs 0x1000) = Inr (z, s0) \<and>
     bind_cores z [0, 1] s0 = Inr s \<and> proc_of s 0 \<noteq> proc_of s 1 \<and>
     core_access z env raw (dtlb 0) (example_req 0x7000) s = Inr (pa, s1) \<and>
     core_access z env raw (dtlb 1) (example_req 0x7000) s = Inr (pa, s2)"
proof (intro allI)
  fix im env raw
  obtain z s0 s where s: "init_system example_cfg im (example_procs 0x1000) = Inr (z, s0)" "bind_cores z [0, 1] s0 = Inr s"
    "system_ok z env s" "numCores z = 2" "proc_of s 0 = 0" "proc_of s 1 = 1"
    "free_frames (snd s) (boot_frames example_cfg (example_procs 0x1000))" "mapped_at (snd s) = (\<lambda>_ _. None)"
    by (rule example_boot [of "0x1000" im env]) auto
  have "boot_frames example_cfg (example_procs 0x1000) = {#}"
    by (simp add: boot_frames_def example_procs_def example_cfg_def example_zinfo_def string_to_pagingmode_def lm_shift_def)
  then have ex: "exhausted env (snd s)" using s(7) by (simp add: exhausted_iff)
  show "\<exists>z s0 s pa s1 s2. init_system example_cfg im (example_procs 0x1000) = Inr (z, s0) \<and>
     bind_cores z [0, 1] s0 = Inr s \<and> proc_of s 0 \<noteq> proc_of s 1 \<and>
     core_access z env raw (dtlb 0) (example_req 0x7000) s = Inr (pa, s1) \<and>
     core_access z env raw (dtlb 1) (example_req 0x7000) s = Inr (pa, s2)"
    using s exhausted_memory_is_shared [OF s(3) ex, where r = "dtlb 0" and raw = raw and req = "example_req 0x7000"]
      exhausted_memory_is_shared [OF s(3) ex, where r = "dtlb 1" and raw = raw and req = "example_req 0x7000"]
    by (metis One_nat_def less_2_cases_iff tlb_ref.select_convs(2) zero_neq_one)
qed



text \<open>
  C33. A shootdown of a virtual page has no effect on translations: it runs through all TLBs and marks
  the entries of the page invalid, but a later look up in any of them finds the same entry with the
  same physical page, since \<open>look_up\<close> asks the hash table only.
\<close>

theorem shootdown_keeps_translations:
  assumes "numCores z \<le> length (ins_tlbs m)" "numCores z \<le> length (data_tlbs m)"
    and "get_tlb r m = Inr b" "tlb_inv (base_tlb b)" "tlb_trie (base_tlb b) v = Some i"
  shows "\<exists>req' m' b'. tlb_shootdown z v req m = Inr (req', m') \<and> get_tlb r m' = Inr b' \<and>
    fst (base_look_up v b') = Some i \<and> p_page_no (tlb (base_tlb b') ! i) = p_page_no (tlb (base_tlb b) ! i)"
proof -
  obtain req' m' where run: "tlb_shootdown z v req m = Inr (req', m')"
    "list_all2 (base_quiet v) (ins_tlbs m) (ins_tlbs m')" "list_all2 (base_quiet v) (data_tlbs m) (data_tlbs m')"
    by (rule tlb_shootdown_ok [OF assms(1,2)])
  obtain b' where b': "get_tlb r m' = Inr b'" "base_quiet v b b'" by (rule get_tlb_quiet_total [OF run(2,3) assms(3)])
  have q: "quiet v (base_tlb b) (base_tlb b')" using b'(2) by (cases b; cases b') auto
  then have trie: "tlb_trie (base_tlb b') v = Some i" using assms(5) by (simp add: quiet_def)
  have "i < length (tlb (base_tlb b))" using tlb_inv_trie [OF assms(4,5)] by (simp add: used_def)
  then have "p_page_no (tlb (base_tlb b') ! i) = p_page_no (tlb (base_tlb b) ! i)" by (rule quiet_pages [OF q])
  moreover have "fst (base_look_up v b') = Some i"
    using trie by (cases b') (simp_all add: ct_look_up_def ht_look_up_def split: prod.splits)
  ultimately show ?thesis using run(1) b'(1) by blast
qed

theorem shootdown_keeps_translations_witness:
  "\<forall>im env raw. \<exists>z s0 s pa s1 b i req' m' b'. init_system example_cfg im (example_procs 0x10000) = Inr (z, s0) \<and>
     bind_cores z [0, 1] s0 = Inr s \<and> core_access z env raw (dtlb 0) (example_req 0x7000) s = Inr (pa, s1) \<and>
     get_tlb (dtlb 0) (snd s1) = Inr b \<and> tlb_trie (base_tlb b) (vpn_of z 0x7000) = Some i \<and>
     tlb_shootdown z (vpn_of z 0x7000) (example_req 0x7000) (snd s1) = Inr (req', m') \<and>
     get_tlb (dtlb 0) m' = Inr b' \<and> fst (base_look_up (vpn_of z 0x7000) b') = Some i"
proof (intro allI)
  fix im env raw
  obtain z s0 s where s: "init_system example_cfg im (example_procs 0x10000) = Inr (z, s0)" "bind_cores z [0, 1] s0 = Inr s"
    "system_ok z env s" "tref_core (dtlb 0) < numCores z"
    by (rule example_boot [of "0x10000" im env]) auto
  obtain pa s1 t where run: "core_access z env raw (dtlb 0) (example_req 0x7000) s = Inr (pa, s1)" "system_ok z env s1"
    "get_tlb (dtlb 0) (snd s1) = Inr (Common_tlb t)" "vpn_of z (lineAddr (example_req 0x7000)) \<in> dom (tlb_trie t)"
    by (rule core_access_ok [OF s(3,4), where raw = raw and req = "example_req 0x7000"])
  then obtain i where i: "tlb_trie t (vpn_of z 0x7000) = Some i" by (auto simp: example_req_def)
  have "tlb_ok (machine_tr z env (proc_of s1 0) (snd s1)) (Common_tlb t)" using run(2,3) by (fastforce simp: system_ok_def)
  then have "tlb_inv (base_tlb (Common_tlb t))" by (simp add: tlb_ok_def)
  moreover have "numCores z \<le> length (ins_tlbs (snd s1))" "numCores z \<le> length (data_tlbs (snd s1))"
    using run(2) by (simp_all add: system_ok_def)
  ultimately show "\<exists>z s0 s pa s1 b i req' m' b'. init_system example_cfg im (example_procs 0x10000) = Inr (z, s0) \<and>
     bind_cores z [0, 1] s0 = Inr s \<and> core_access z env raw (dtlb 0) (example_req 0x7000) s = Inr (pa, s1) \<and>
     get_tlb (dtlb 0) (snd s1) = Inr b \<and> tlb_trie (base_tlb b) (vpn_of z 0x7000) = Some i \<and>
     tlb_shootdown z (vpn_of z 0x7000) (example_req 0x7000) (snd s1) = Inr (req', m') \<and>
     get_tlb (dtlb 0) m' = Inr b' \<and> fst (base_look_up (vpn_of z 0x7000) b') = Some i"
    using shootdown_keeps_translations [of z "snd s1" "dtlb 0" "Common_tlb t" "vpn_of z 0x7000" i "example_req 0x7000"]
      s(1,2) run(1,3) i by (metis base_tlb.simps(1))
qed

end
