(* ===== verification/Machine_Migration.thy ===== *)
theory Machine_Migration
  imports Machine_Walk
begin

text \<open>
  The migration of an NVM page into the DRAM cache, \<open>do_dram_page_fault\<close>, on the memory map: the
  page that the chosen block held goes back to its NVM page, the hot page moves to the block, and
  the entries of all TLBs follow. The invariant \<open>cache_ok\<close> ties the blocks of the cache, the page
  table and the free frames together.
\<close>

section \<open>Remapping in the TLBs\<close>

text \<open>The TLBs that count accesses, in order: they hold translations \<open>tr\<close> of pages in \<open>C\<close> only.\<close>

definition hot_ok :: "address set \<Rightarrow> (address \<Rightarrow> address option) \<Rightarrow> BaseTlb \<Rightarrow> bool" where
  "hot_ok C tr b \<longleftrightarrow>
     (case b of
        Common_tlb _ \<Rightarrow> False
      | Hot_tlb h \<Rightarrow> ht_class h = ExtendTlbEntry \<and> tlb_inv (ordinary_tlb h) \<and> coherent tr (ordinary_tlb h) \<and>
          dom (tlb_trie (ordinary_tlb h)) \<subseteq> C)"

definition hots_ok :: "address set \<Rightarrow> (address \<Rightarrow> address option) \<Rightarrow> machine \<Rightarrow> bool" where
  "hots_ok C tr m \<longleftrightarrow> (\<forall>b\<in>set (ins_tlbs m) \<union> set (data_tlbs m). hot_ok C tr b)"

text \<open>What a remapping of page \<open>u\<close> does to the entries.\<close>

definition remapped :: "address \<Rightarrow> address \<Rightarrow> BaseTlb \<Rightarrow> BaseTlb \<Rightarrow> bool" where
  "remapped u p b b' \<longleftrightarrow>
     length (tlb (base_tlb b')) = length (tlb (base_tlb b)) \<and>
     (\<forall>i<length (tlb (base_tlb b)).
        v_page_no (tlb (base_tlb b') ! i) = v_page_no (tlb (base_tlb b) ! i) \<and>
        (v_page_no (tlb (base_tlb b) ! i) \<noteq> u \<longrightarrow> p_page_no (tlb (base_tlb b') ! i) = p_page_no (tlb (base_tlb b) ! i)))"

lemma te_remap_fields [simp]:
  "v_page_no (te_remap T p d e) = v_page_no e" "p_page_no (te_remap ExtendTlbEntry p d e) = p"
  by (simp_all add: te_remap_def split: entry_class.splits)

lemma remap_inv:
  fixes p :: address and d :: bool
  assumes inv: "tlb_inv t" and i: "tlb_trie t u = Some i" and cls: "tlb_class t = ExtendTlbEntry"
  defines "t' \<equiv> t\<lparr>tlb_trie_pa := (tlb_trie_pa t)(p_page_no (tlb t ! i) := None, p \<mapsto> i),
                 tlb := (tlb t)[i := te_remap (tlb_class t) p d (tlb t ! i)]\<rparr>"
  shows "tlb_inv t'" "coherent tr t \<Longrightarrow> coherent (tr(u \<mapsto> p)) t'"
proof -
  have used: "used t i" "v_page_no (tlb t ! i) = u" using tlb_inv_trie [OF inv i] by simp_all
  then have len: "i < length (tlb t)" by (simp add: used_def)
  have uses: "used t' = used t" by (simp add: used_def t'_def fun_eq_iff)
  have nth: "tlb t' ! j = (if j = i then te_remap ExtendTlbEntry p d (tlb t ! i) else tlb t ! j)" for j
    using len cls by (simp add: t'_def nth_list_update)
  have vs: "v_page_no (tlb t' ! j) = v_page_no (tlb t ! j)" for j by (simp add: nth)
  have pa: "used t' j \<and> p_page_no (tlb t' ! j) = q" if "tlb_trie_pa t' q = Some j" for q j
  proof (cases "q = p")
    case True
    then have "j = i" using that by (simp add: t'_def)
    then show ?thesis using True used(1) uses by (simp add: nth)
  next
    case False
    then have "tlb_trie_pa t q = Some j" "q \<noteq> p_page_no (tlb t ! i)" using that by (auto simp: t'_def split: if_splits)
    then have "used t j" "p_page_no (tlb t ! j) = q" "j \<noteq> i" using inv unfolding tlb_inv_def by blast+
    then show ?thesis using uses by (simp add: nth)
  qed
  have fields: "length (tlb t') = length (tlb t)" "tlb_entry_num t' = tlb_entry_num t" "tlb_trie t' = tlb_trie t"
    "free_entry_list t' = free_entry_list t" by (simp_all add: t'_def)
  have "tlb t' \<noteq> []" using fields(1) len by (metis length_0_conv less_nat_zero_code)
  then show "tlb_inv t'"
    using inv pa unfolding tlb_inv_def fields uses vs by blast
  show "coherent (tr(u \<mapsto> p)) t'" if coh: "coherent tr t"
    unfolding coherent_def
  proof (intro allI impI)
    fix w j assume "tlb_trie t' w = Some j"
    then have j: "tlb_trie t w = Some j" by (simp add: fields)
    show "(tr(u \<mapsto> p)) w = Some (p_page_no (tlb t' ! j))"
    proof (cases "w = u")
      case True
      then show ?thesis using i j by (simp add: nth)
    next
      case False
      then have "j \<noteq> i" using tlb_inv_trie [OF inv j] used(2) by auto
      then show ?thesis using False coh j by (simp add: nth coherent_def)
    qed
  qed
qed

lemma remapped_trans: "remapped u p b b1 \<Longrightarrow> remapped u p b1 b2 \<Longrightarrow> remapped u p b b2"
  unfolding remapped_def by auto

lemma hot_look_up:
  assumes "hot_ok C tr (Hot_tlb h)" and "ht_look_up u True h = (r, h')"
  shows "hot_ok C tr (Hot_tlb h')" "r = tlb_trie (ordinary_tlb h) u" "tlb_trie (ordinary_tlb h') = tlb_trie (ordinary_tlb h)"
    "remapped w q (Hot_tlb h) (Hot_tlb h')"
proof -
  define t where "t = ordinary_tlb h"
  have t: "tlb_class t = ExtendTlbEntry" "tlb_inv t" "coherent tr t" "dom (tlb_trie t) \<subseteq> C"
    using assms(1) by (simp_all add: hot_ok_def t_def ht_class_def)
  have touch: "tlb_class (touch i t) = ExtendTlbEntry" "tlb_inv (touch i t)" "coherent tr (touch i t)" for i
    using t by (auto simp: coherent_def touch_pages) (simp add: touch_def Let_def)
  have vs: "v_page_no (tlb (touch i t) ! j) = v_page_no (tlb t ! j)" "length (tlb (touch i t)) = length (tlb t)" for i j
    by (cases "i < length (tlb t)"; cases "i = j") (auto simp: touch_def Let_def list_update_beyond)
  obtain r0 t' where look: "ct_look_up u True t = (r0, t')" by fastforce
  then have h': "r = r0" "h' = h\<lparr>ordinary_tlb := t'\<rparr>" using assms(2) by (auto simp: ht_look_up_def t_def)
  show "r = tlb_trie (ordinary_tlb h) u" "tlb_trie (ordinary_tlb h') = tlb_trie (ordinary_tlb h)"
    using look h' by (auto simp: ct_look_up_def t_def split: option.splits if_splits)
  show "hot_ok C tr (Hot_tlb h')" "remapped w q (Hot_tlb h) (Hot_tlb h')"
    using look h' t touch vs touch_pages
    by (auto simp: ct_look_up_def hot_ok_def ht_class_def remapped_def t_def [symmetric] split: option.splits if_splits)
qed

lemma hscc_one_ok:
  assumes ok: "hot_ok C tr b"
  shows "\<exists>req' b'. tlb_shootdown_hscc_one z u p d req b = Inr (req', b') \<and> lineAddr req' = lineAddr req \<and>
    hot_ok C (tr(u \<mapsto> p)) b' \<and> remapped u p b b'"
proof -
  obtain h where b: "b = Hot_tlb h" using ok by (auto simp: hot_ok_def split: BaseTlb.splits)
  obtain r h1 where look: "ht_look_up u True h = (r, h1)" by fastforce
  define t1 where "t1 = ordinary_tlb h1"
  have h1: "hot_ok C tr (Hot_tlb h1)" "r = tlb_trie t1 u" "remapped u p b (Hot_tlb h1)"
    using hot_look_up [OF ok [unfolded b] look] b by (simp_all add: t1_def)
  have t1: "tlb_class t1 = ExtendTlbEntry" "tlb_inv t1" "coherent tr t1" "dom (tlb_trie t1) \<subseteq> C"
    using h1(1) by (simp_all add: hot_ok_def t1_def ht_class_def)
  show ?thesis
  proof (cases "tlb_trie t1 u")
    case None
    then have "coherent (tr(u \<mapsto> p)) t1" using t1(3) by (auto simp: coherent_def)
    then show ?thesis
      using None look h1 t1 b
      by (auto simp: tlb_shootdown_hscc_one_def hot_ok_def ht_class_def t1_def [symmetric])
  next
    case (Some i)
    have i: "used t1 i" "v_page_no (tlb t1 ! i) = u" using tlb_inv_trie [OF t1(2) Some] by simp_all
    define h2 where "h2 = snd (remap_ppn p (Some i) d h1)"
    have "remapped u p (Hot_tlb h1) (Hot_tlb h2)"
      using i t1(1) by (auto simp: remapped_def h2_def remap_ppn_def t1_def [symmetric] Let_def nth_list_update used_def)
    then have "remapped u p b (Hot_tlb h2)" by (rule remapped_trans [OF h1(3)])
    moreover have "hot_ok C (tr(u \<mapsto> p)) (Hot_tlb h2)"
      using remap_inv [OF t1(2) Some t1(1), where p = p and d = d] t1
      by (simp add: hot_ok_def h2_def remap_ppn_def t1_def [symmetric] Let_def ht_class_def)
    ultimately show ?thesis
      using Some look h1(2) b by (simp add: tlb_shootdown_hscc_one_def h2_def [symmetric])
  qed
qed

text \<open>\<open>k\<close> cores are done: their TLBs have the new translation.\<close>

definition hscc_done ::
  "address set \<Rightarrow> (address \<Rightarrow> address option) \<Rightarrow> address \<Rightarrow> address \<Rightarrow> nat \<Rightarrow> BaseTlb list \<Rightarrow> BaseTlb list \<Rightarrow> bool" where
  "hscc_done C tr u p k bs bs' \<longleftrightarrow>
     list_all2 (remapped u p) bs bs' \<and>
     (\<forall>c<length bs'. hot_ok C (if c < k then tr(u \<mapsto> p) else tr) (bs' ! c))"

lemma remapped_refl: "remapped u p b b"
  by (simp add: remapped_def)

lemma hscc_done_next:
  assumes "hscc_done C tr u p k bs bs'" "k < length bs'"
  shows "hot_ok C tr (bs' ! k)"
proof -
  have "hot_ok C (if k < k then tr(u \<mapsto> p) else tr) (bs' ! k)" using assms unfolding hscc_done_def by blast
  then show ?thesis by simp
qed

lemma hscc_done_step:
  assumes "hscc_done C tr u p k bs bs'" and "k < length bs'" and "hot_ok C (tr(u \<mapsto> p)) b" and "remapped u p (bs' ! k) b"
  shows "hscc_done C tr u p (Suc k) bs (bs'[k := b])"
  unfolding hscc_done_def
proof
  have all: "list_all2 (remapped u p) bs bs'" using assms(1) by (simp add: hscc_done_def)
  then have "remapped u p (bs ! k) (bs' ! k)" using assms(2) by (simp add: list_all2_nthD2)
  then have "remapped u p (bs ! k) b" by (rule remapped_trans [OF _ assms(4)])
  then show "list_all2 (remapped u p) bs (bs'[k := b])"
    using list_all2_update_cong [OF all, of "bs ! k" b k] by simp
  show "\<forall>c<length (bs'[k := b]). hot_ok C (if c < Suc k then tr(u \<mapsto> p) else tr) (bs'[k := b] ! c)"
    using assms(1-3) by (auto simp: hscc_done_def nth_list_update less_Suc_eq)
qed

lemma hscc_loop:
  assumes len: "length (ins_tlbs m) = n" "length (data_tlbs m) = n" and ok: "hots_ok C tr m" and k: "k \<le> n"
  shows "\<exists>req' its dts. foldE (\<lambda>i (req, m). on_core_tlbs (tlb_shootdown_hscc_one z u p d) i req m) [0..<k] (req, m) =
      Inr (req', m\<lparr>ins_tlbs := its, data_tlbs := dts\<rparr>) \<and> lineAddr req' = lineAddr req \<and>
    hscc_done C tr u p k (ins_tlbs m) its \<and> hscc_done C tr u p k (data_tlbs m) dts"
  using k
proof (induction k)
  case 0
  have "hscc_done C tr u p 0 (ins_tlbs m) (ins_tlbs m)" "hscc_done C tr u p 0 (data_tlbs m) (data_tlbs m)"
    using ok by (auto simp: hscc_done_def hots_ok_def list_all2_refl remapped_refl)
  then show ?case by (rule_tac x = req in exI, rule_tac x = "ins_tlbs m" in exI, rule_tac x = "data_tlbs m" in exI) simp
next
  case (Suc k)
  then obtain req1 its dts where 1: "foldE (\<lambda>i (req, m). on_core_tlbs (tlb_shootdown_hscc_one z u p d) i req m) [0..<k] (req, m) =
      Inr (req1, m\<lparr>ins_tlbs := its, data_tlbs := dts\<rparr>)" "lineAddr req1 = lineAddr req"
    "hscc_done C tr u p k (ins_tlbs m) its" "hscc_done C tr u p k (data_tlbs m) dts"
    by auto
  have lens: "k < length its" "k < length dts"
    using 1(3,4) len Suc.prems by (auto simp: hscc_done_def dest: list_all2_lengthD)
  have "hot_ok C tr (its ! k)" "hot_ok C tr (dts ! k)" using hscc_done_next [OF 1(3) lens(1)] hscc_done_next [OF 1(4) lens(2)] .
  then obtain req2 b1 req3 b2 where 2: "tlb_shootdown_hscc_one z u p d req1 (its ! k) = Inr (req2, b1)"
    "lineAddr req2 = lineAddr req1" "hot_ok C (tr(u \<mapsto> p)) b1" "remapped u p (its ! k) b1"
    "tlb_shootdown_hscc_one z u p d req2 (dts ! k) = Inr (req3, b2)"
    "lineAddr req3 = lineAddr req2" "hot_ok C (tr(u \<mapsto> p)) b2" "remapped u p (dts ! k) b2"
    using hscc_one_ok [of C tr "its ! k" z u p d req1] hscc_one_ok [of C tr "dts ! k" z u p d] by blast
  have "foldE (\<lambda>i (req, m). on_core_tlbs (tlb_shootdown_hscc_one z u p d) i req m) [0..<Suc k] (req, m) =
      Inr (req3, m\<lparr>ins_tlbs := its[k := b1], data_tlbs := dts[k := b2]\<rparr>)"
    using 1(1) 2(1,5) lens by (simp add: foldE_append on_core_tlbs_def nthE_in_range)
  then show ?case
    using hscc_done_step [OF 1(3) lens(1) 2(3,4)] hscc_done_step [OF 1(4) lens(2) 2(7,8)] 1(2) 2(2,6) by auto
qed

lemma hscc_ok:
  assumes len: "length (ins_tlbs m) = numCores z" "length (data_tlbs m) = numCores z" and ok: "hots_ok C tr m"
  obtains req' wk' its dts where
    "tlb_shootdown_hscc z u p d req (wk, m) = Inr (req', wk', m\<lparr>ins_tlbs := its, data_tlbs := dts\<rparr>)"
    "lineAddr req' = lineAddr req" "paging wk' = paging wk" "procIdx wk' = procIdx wk"
    "list_all2 (remapped u p) (ins_tlbs m) its" "list_all2 (remapped u p) (data_tlbs m) dts"
    "hots_ok C (tr(u \<mapsto> p)) (m\<lparr>ins_tlbs := its, data_tlbs := dts\<rparr>)"
proof -
  obtain req' its dts where *: "foldE (\<lambda>i (req, m). on_core_tlbs (tlb_shootdown_hscc_one z u p d) i req m)
      [0..<numCores z] (req, m) = Inr (req', m\<lparr>ins_tlbs := its, data_tlbs := dts\<rparr>)" "lineAddr req' = lineAddr req"
    "hscc_done C tr u p (numCores z) (ins_tlbs m) its" "hscc_done C tr u p (numCores z) (data_tlbs m) dts"
    using hscc_loop [OF len ok order_refl] by blast
  have lens: "length its = numCores z" "length dts = numCores z"
    using *(3,4) len by (auto simp: hscc_done_def dest: list_all2_lengthD)
  have "hots_ok C (tr(u \<mapsto> p)) (m\<lparr>ins_tlbs := its, data_tlbs := dts\<rparr>)"
    using *(3,4) lens by (auto simp: hots_ok_def hscc_done_def in_set_conv_nth)
  then show thesis
    using * by (intro that [where req' = req' and its = its and dts = dts and
        wk' = "wk\<lparr>hscc_tlb_shootdown := hscc_tlb_shootdown wk + (cycle req' - cycle req)\<rparr>"])
      (simp_all add: tlb_shootdown_hscc_def hscc_done_def)
qed

lemma entry_at_remapped:
  assumes "entry_at r m = Inr e" and "list_all2 (remapped u p) (ins_tlbs m) its" "list_all2 (remapped u p) (data_tlbs m) dts"
  obtains e' where "entry_at r (m\<lparr>ins_tlbs := its, data_tlbs := dts\<rparr>) = Inr e'" "v_page_no e' = v_page_no e"
    "v_page_no e \<noteq> u \<Longrightarrow> p_page_no e' = p_page_no e"
  using assms
  by (cases "ref_ins r") (auto simp: entry_at_def res_simps list_all2_conv_all_nth remapped_def nthE_Inr_iff)

section \<open>Changing the page table for a migration\<close>

text \<open>The virtual pages that the tables of a process distinguish.\<close>

definition canonical :: "machine \<Rightarrow> nat \<Rightarrow> address set" where
  "canonical m i = {u. table_index m i u = unat u}"

definition frame_of :: "GlobSimInfo \<Rightarrow> address \<Rightarrow> address" where
  "frame_of z bid = drop_bit (page_shift z) (block_id_to_addr z bid)"

lemma canonical_vpn:
  assumes ok: "tables_ok z m" "i < length (paging_array m)" and u: "u \<in> canonical m i"
  shows "vpn_of z (push_bit (page_shift z) u) = u"
proof -
  obtain p where p: "lm_paging m i = Some p" "table_ok z p" by (rule tables_okE [OF ok])
  have less: "unat u < 512 ^ Suc (lm_levels (lm_mode p))"
  proof -
    have "unat u = unat u mod 512 ^ Suc (lm_levels (lm_mode p))" using u p(1) by (simp add: canonical_def table_index_def)
    then show ?thesis by (metis mod_less_divisor zero_less_numeral zero_less_power)
  qed
  have pos: "0 < lm_levels (lm_mode p)" "lm_mode p \<noteq> LongMode_Huge" "page_shift z = lm_shift (lm_mode p)"
    using p(2) by (auto simp: table_ok_def lm_inv_def)
  have "unat u * 2 ^ page_shift z < 2 ^ 64"
    using pos(1)
  proof (cases rule: lm_mode_cases)
    case 1
    then have "unat u < 2 ^ 36" using less by (simp add: lm_levels_def)
    then show ?thesis using pos(3) 1 by (simp add: lm_shift_def)
  next
    case 2
    then have "unat u < 2 ^ 27" using less by (simp add: lm_levels_def)
    then show ?thesis using pos(3) 2 by (simp add: lm_shift_def)
  qed (use pos(2) in simp)
  then have "unat (push_bit (page_shift z) u) = unat u * 2 ^ page_shift z" by (simp add: unat_push_bit)
  then have "unat (vpn_of z (push_bit (page_shift z) u)) = unat u" by (simp add: vpn_of_def unat_drop_bit)
  then show ?thesis by (rule unsigned_word_eqI)
qed

text \<open>What the steps of a migration keep of the machine.\<close>

definition same_rest :: "machine \<Rightarrow> machine \<Rightarrow> bool" where
  "same_rest m m' \<longleftrightarrow>
     buddy_allocator m' = buddy_allocator m \<and> dram_manager m' = dram_manager m \<and> ins_tlbs m' = ins_tlbs m \<and> data_tlbs m' = data_tlbs m \<and>
     table_index m' = table_index m \<and> length (paging_array m') = length (paging_array m)"

lemma map_canonical:
  assumes ok: "tables_ok z m" "i < length (paging_array m)" and u: "u \<in> canonical m i" and ptr: "ptr_ok ptr d"
  obtains lat m' where "map_paging z i (push_bit (page_shift z) u) ptr d m = Inr (lat, m')" "tables_ok z m'"
    "mapped_at m' = (mapped_at m)(i := (mapped_at m i)(unat u \<mapsto> ptr))" "same_rest m m'" "dram_blocks m' = dram_blocks m"
proof -
  have "table_index m i (vpn_of z (push_bit (page_shift z) u)) = unat u"
    using u unfolding canonical_vpn [OF ok u] by (simp add: canonical_def)
  then show thesis
    using map_paging_ok [OF ok ptr, of "push_bit (page_shift z) u"] that unfolding same_rest_def by metis
qed

lemma unmap_victim_ok:
  assumes ok: "tables_ok z m" "i < length (paging_array m)" "\<not> enable_shared_memory z" and wk: "paging wk = Some i"
    and b: "get_vaddr b \<in> canonical m i" "src < node_pages m" "obj_addr z (machine_objs m) (PagePtr src) = Some src"
  obtains lat m' where "unmap_victim z env a src b (wk, m) = Inr (lat, m')" "tables_ok z m'"
    "mapped_at m' = (mapped_at m)(i := (mapped_at m i)(unat (get_vaddr b) \<mapsto> PagePtr src))" "same_rest m m'"
    "dram_blocks m' = dram_blocks m"
proof -
  obtain nd where nd: "memory_node m = Some nd" "node_mem_map nd src \<noteq> None"
    using b(3) by (auto simp: obj_addr_def machine_objs_def split: option.splits)
  then obtain ba where ba: "buddy_allocator m = Some ba" "mem_node ba = Some nd"
    by (auto simp: memory_node_def split: option.splits)
  have same: "put_memory_node (Some nd) m = m" using ba by (simp add: put_memory_node_def)
  have get: "get_page_ptr (env_raw env) src nd = Inr nd"
    using nd b(2) by (simp add: get_page_ptr_def node_pages_def)
  obtain lat m' where run: "map_paging z i (push_bit (page_shift z) (get_vaddr b)) (PagePtr src) False m = Inr (lat, m')"
    "tables_ok z m'" "mapped_at m' = (mapped_at m)(i := (mapped_at m i)(unat (get_vaddr b) \<mapsto> PagePtr src))"
    "same_rest m m'" "dram_blocks m' = dram_blocks m"
    by (rule map_canonical [OF ok(1,2) b(1)]) (auto simp: ptr_ok_def)
  have "unmap_victim z env a src b (wk, m) = Inr (scast lat, m')"
    using ok(3) wk nd(1) get same run(1) by (simp add: unmap_victim_def)
  then show thesis using that run by blast
qed

lemma map_installed_ok:
  assumes ok: "tables_ok z m" "i < length (paging_array m)" "\<not> enable_shared_memory z" and wk: "paging wk = Some i"
    and e: "v_page_no e \<in> canonical m i"
  obtains lat m' where "map_installed z env bid a e (wk, m) = Inr (lat, m')" "tables_ok z m'"
    "mapped_at m' = (mapped_at m)(i := (mapped_at m i)(unat (v_page_no e) \<mapsto> BlockPtr bid))" "same_rest m m'"
    "dram_blocks m' = dram_blocks m"
proof -
  obtain lat m' where run: "map_paging z i (push_bit (page_shift z) (v_page_no e)) (BlockPtr bid) True m = Inr (lat, m')"
    "tables_ok z m'" "mapped_at m' = (mapped_at m)(i := (mapped_at m i)(unat (v_page_no e) \<mapsto> BlockPtr bid))"
    "same_rest m m'" "dram_blocks m' = dram_blocks m"
    by (rule map_canonical [OF ok(1,2) e]) (auto simp: ptr_ok_def)
  have "map_installed z env bid a e (wk, m) = Inr (scast lat, m')"
    using ok(3) wk run(1) by (simp add: map_installed_def)
  then show thesis using that run by blast
qed

lemma store_page_core:
  "store_page env a b d ty req m = (req', m') \<Longrightarrow>
     lineAddr req' = lineAddr req \<and> (\<exists>f. m' = m\<lparr>fetcher := f\<rparr>)"
  by (auto simp: store_page_def split: option.splits intro: exI [of _ "fetcher m"])

lemma same_rest_trans: "same_rest m m1 \<Longrightarrow> same_rest m1 m2 \<Longrightarrow> same_rest m m2"
  by (simp add: same_rest_def)

lemma table_index_core: "paging_array m' = paging_array m \<Longrightarrow> table_index m' = table_index m"
  by (simp add: table_index_def lm_paging_def fun_eq_iff)

lemma mapped_at_core: "paging_array m' = paging_array m \<Longrightarrow> mapped_at m' = mapped_at m"
  by (simp add: mapped_at_def lm_paging_def fun_eq_iff)

lemma tables_ok_core: "paging_array m' = paging_array m \<Longrightarrow> tables_ok z m' = tables_ok z m"
  by (simp add: tables_ok_def lm_paging_def)

text \<open>The block after the migration: it holds page \<open>p\<close>, mapped at \<open>v\<close>.\<close>

definition installed :: "DRAMBufferBlock \<Rightarrow> address \<Rightarrow> address \<Rightarrow> DRAMBufferBlock \<Rightarrow> bool" where
  "installed b v p b' \<longleftrightarrow> block_id b' = block_id b \<and> is_occupied b' \<and> get_src_addr b' = p \<and> get_vaddr b' = v"

text \<open>The translations of the process after the migration.\<close>

definition swap :: "DRAMBufferBlock \<Rightarrow> address \<Rightarrow> void_ptr \<Rightarrow> (nat \<Rightarrow> void_ptr option) \<Rightarrow> nat \<Rightarrow> void_ptr option" where
  "swap b v ptr f =
     (if is_occupied b then f(unat (get_vaddr b) \<mapsto> PagePtr (get_src_addr b)) else f)(unat v \<mapsto> ptr)"

lemma same_rest_core:
  assumes "paging_array m' = paging_array m" "buddy_allocator m' = buddy_allocator m" "ins_tlbs m' = ins_tlbs m"
    "data_tlbs m' = data_tlbs m" "dram_manager m' = dram_manager m"
  shows "same_rest m m'"
  using assms table_index_core [OF assms(1)] by (simp add: same_rest_def)

lemma entry_at_same: "same_rest m m' \<Longrightarrow> entry_at r m' = entry_at r m"
  by (simp add: same_rest_def entry_at_def)

lemma canonical_same: "same_rest m m' \<Longrightarrow> canonical m' i = canonical m i"
  by (simp add: same_rest_def canonical_def)

text \<open>First the page that the block held is mapped back and the block is emptied.\<close>

lemma release_victim_ok:
  assumes ok: "tables_ok z m" "i < length (paging_array m)" "\<not> enable_shared_memory z" and wk: "paging wk = Some i"
    and b: "dram_blocks m bid = Some b"
    and occ: "is_occupied b \<Longrightarrow> get_vaddr b \<in> canonical m i \<and> get_src_addr b < node_pages m \<and>
      obj_addr z (machine_objs m) (PagePtr (get_src_addr b)) = Some (get_src_addr b)"
  shows "\<exists>req' wk' m' b'. (if is_occupied b then
        bindE (unmap_victim z env a (get_src_addr b) b (wk, m)) (\<lambda>(overhead, m).
          let (req, wk) = add_hscc_overhead overhead req wk
          in Inr (req, wk, put_dram_block bid (block_invalidate b) m))
      else Inr (req, wk, m)) = Inr (req', wk', m') \<and>
    lineAddr req' = lineAddr req \<and> paging wk' = paging wk \<and> procIdx wk' = procIdx wk \<and> tables_ok z m' \<and> same_rest m m' \<and>
    mapped_at m' = (if is_occupied b then (mapped_at m)(i := (mapped_at m i)(unat (get_vaddr b) \<mapsto> PagePtr (get_src_addr b)))
      else mapped_at m) \<and>
    dram_blocks m' = (dram_blocks m)(bid \<mapsto> b') \<and> \<not> is_occupied b' \<and> block_id b' = block_id b"
proof (cases "is_occupied b")
  case True
  obtain lat m' where run: "unmap_victim z env a (get_src_addr b) b (wk, m) = Inr (lat, m')" "tables_ok z m'"
    "mapped_at m' = (mapped_at m)(i := (mapped_at m i)(unat (get_vaddr b) \<mapsto> PagePtr (get_src_addr b)))" "same_rest m m'"
    "dram_blocks m' = dram_blocks m"
    using unmap_victim_ok [OF ok wk, of b "get_src_addr b" env a] occ [OF True] by blast
  define m2 where "m2 = put_dram_block bid (block_invalidate b) m'"
  have pag: "paging_array m2 = paging_array m'" by (simp add: m2_def put_dram_block_def)
  have "same_rest m m2"
    by (rule same_rest_trans [OF run(4)], rule same_rest_core) (simp_all add: m2_def put_dram_block_def)
  moreover have "block_id (block_invalidate b) = block_id b" "\<not> is_occupied (block_invalidate b)"
      "dram_blocks m2 = (dram_blocks m)(bid \<mapsto> block_invalidate b)"
    using run(5) by (simp_all add: m2_def put_dram_block_def) (simp add: block_invalidate_def)
  moreover have "(if is_occupied b then
        bindE (unmap_victim z env a (get_src_addr b) b (wk, m)) (\<lambda>(overhead, m).
          let (req, wk) = add_hscc_overhead overhead req wk
          in Inr (req, wk, put_dram_block bid (block_invalidate b) m))
      else Inr (req, wk, m)) = Inr (req\<lparr>cycle := cycle req + lat\<rparr>,
        wk\<lparr>hscc_map_overhead := hscc_map_overhead wk + lat\<rparr>, m2)"
    using True run(1) by (simp add: add_hscc_overhead_def m2_def)
  moreover have "tables_ok z m2" "mapped_at m2 = (if is_occupied b then
      (mapped_at m)(i := (mapped_at m i)(unat (get_vaddr b) \<mapsto> PagePtr (get_src_addr b))) else mapped_at m)"
    using True run(2,3) tables_ok_core [OF pag] mapped_at_core [OF pag] by simp_all
  ultimately show ?thesis
    by (intro exI [where x = "req\<lparr>cycle := cycle req + lat\<rparr>"]
        exI [where x = "wk\<lparr>hscc_map_overhead := hscc_map_overhead wk + lat\<rparr>"] exI [where x = m2]
        exI [where x = "block_invalidate b"] conjI) simp_all
next
  case False
  have "same_rest m m" by (simp add: same_rest_def)
  moreover have "(dram_blocks m)(bid \<mapsto> b) = dram_blocks m" using b by (simp add: fun_upd_idem)
  ultimately show ?thesis
    using False ok(1) by (intro exI [where x = req] exI [where x = wk] exI [where x = m] exI [where x = b] conjI) simp_all
qed

text \<open>Then the entry is mapped to the block.\<close>

definition install ::
  "GlobSimInfo \<Rightarrow> walker_env \<Rightarrow> address \<Rightarrow> entry_ref \<Rightarrow> address \<Rightarrow> bool \<Rightarrow> MemReq \<times> walk_state \<Rightarrow>
   (bool \<times> MemReq \<times> walk_state) res" where
  "install z env bid entry a evict s =
     (case s of (req, wk, m) \<Rightarrow>
       bindE (entry_at entry m) (\<lambda>e.
       bindE (block_at bid m) (\<lambda>b.
       bindE (block_validate b (drop_bit (block_shift z) (lineAddr req))) (\<lambda>b.
         let m = put_dram_block bid (set_vaddr (set_src_addr b (p_page_no e)) (v_page_no e)) m
         in bindE (map_installed z env bid a e (wk, m)) (\<lambda>(overhead, m).
            let (req, wk) = add_hscc_overhead overhead req wk
            in Inr (evict, req, wk, m))))))"

lemma evict_and_fetch_eq:
  assumes "dram_blocks m bid = Some b"
    and "(if is_occupied b \<and> block_is_dirty b
      then store_page env (block_id_to_addr z (block_id b)) (push_bit (page_shift z) (get_src_addr b)) True NVM_FETCH req m
      else (req, m)) = (req0, m0)"
    and "store_page env (lineAddr req0) (block_id_to_addr z (block_id b)) False NVM_READ req0 m0 = (req1, m1)"
    and "wk1 = (let wk = (if is_occupied b \<and> block_is_dirty b then wk\<lparr>dirty_evict := dirty_evict wk + 1\<rparr> else wk)
      in if is_occupied b then wk\<lparr>total_evict := total_evict wk + 1\<rparr> else wk)"
  shows "evict_and_fetch z env req bid entry evict (wk, m) =
    bindE (if is_occupied b then
        bindE (unmap_victim z env (block_id_to_addr z (block_id b)) (get_src_addr b) b (wk1, m1)) (\<lambda>(overhead, m).
          let (req, wk) = add_hscc_overhead overhead req1 wk1
          in Inr (req, wk, put_dram_block bid (block_invalidate b) m))
      else Inr (req1, wk1, m1))
    (install z env bid entry (block_id_to_addr z (block_id b)) (evict \<or> is_occupied b \<and> block_is_dirty b))"
proof -
  have at: "block_at bid m = Inr b" using assms(1) by (simp add: block_at_def)
  show ?thesis
    unfolding evict_and_fetch_def assms(4) install_def
    by (simp only: at bindE.simps Let_def split_conv assms(2,3))
qed

lemma evict_and_fetch_ok:
  assumes ok: "tables_ok z m" "i < length (paging_array m)" "\<not> enable_shared_memory z" and wk: "paging wk = Some i"
    and b: "dram_blocks m bid = Some b"
    and occ: "is_occupied b \<Longrightarrow> get_vaddr b \<in> canonical m i \<and> get_src_addr b < node_pages m \<and>
      obj_addr z (machine_objs m) (PagePtr (get_src_addr b)) = Some (get_src_addr b)"
    and e: "entry_at r m = Inr e" "v_page_no e \<in> canonical m i"
  shows "\<exists>evict' req' wk' m' b'. evict_and_fetch z env req bid r evict (wk, m) = Inr (evict', req', wk', m') \<and>
    lineAddr req' = lineAddr req \<and> paging wk' = paging wk \<and> procIdx wk' = procIdx wk \<and> tables_ok z m' \<and> same_rest m m' \<and>
    mapped_at m' = (mapped_at m)(i := swap b (v_page_no e) (BlockPtr bid) (mapped_at m i)) \<and>
    dram_blocks m' = (dram_blocks m)(bid \<mapsto> b') \<and> installed b (v_page_no e) (p_page_no e) b'"
proof -
  define dirty where "dirty = (is_occupied b \<and> block_is_dirty b)"
  define a where "a = block_id_to_addr z (block_id b)"
  obtain req0 m0 where s0: "(if dirty then store_page env a (push_bit (page_shift z) (get_src_addr b)) True NVM_FETCH req m
      else (req, m)) = (req0, m0)" by fastforce
  obtain req1 m1 where s1: "store_page env (lineAddr req0) a False NVM_READ req0 m0 = (req1, m1)" by fastforce
  define wk1 where "wk1 = (let wk = (if dirty then wk\<lparr>dirty_evict := dirty_evict wk + 1\<rparr> else wk)
    in if is_occupied b then wk\<lparr>total_evict := total_evict wk + 1\<rparr> else wk)"
  obtain f0 where "m0 = m\<lparr>fetcher := f0\<rparr>" and line0: "lineAddr req0 = lineAddr req"
  proof (cases dirty)
    case True
    then show thesis using store_page_core s0 that by fastforce
  next
    case False
    then show thesis using s0 that [of "fetcher m"] by simp
  qed
  then obtain f where m1: "m1 = m\<lparr>fetcher := f\<rparr>" and line1: "lineAddr req1 = lineAddr req"
    using store_page_core [OF s1] by auto
  have core1: "paging_array m1 = paging_array m" "dram_blocks m1 = dram_blocks m" "same_rest m m1"
    "machine_objs m1 = machine_objs m" "node_pages m1 = node_pages m" "paging wk1 = Some i" "procIdx wk1 = procIdx wk"
    using wk by (simp_all add: m1 same_rest_core machine_objs_def memory_node_def node_pages_def wk1_def Let_def)
  have same1: "tables_ok z m1" "i < length (paging_array m1)" "mapped_at m1 = mapped_at m" "canonical m1 i = canonical m i"
    using ok(1,2) core1 by (simp_all add: tables_ok_core [OF core1(1)] mapped_at_core [OF core1(1)] canonical_same)
  obtain req2 wk2 m2 b2 where 2: "(if is_occupied b then
        bindE (unmap_victim z env a (get_src_addr b) b (wk1, m1)) (\<lambda>(overhead, m).
          let (req, wk) = add_hscc_overhead overhead req1 wk1
          in Inr (req, wk, put_dram_block bid (block_invalidate b) m))
      else Inr (req1, wk1, m1)) = Inr (req2, wk2, m2)"
    "lineAddr req2 = lineAddr req1" "paging wk2 = paging wk1" "procIdx wk2 = procIdx wk1" "tables_ok z m2" "same_rest m1 m2"
    "mapped_at m2 = (if is_occupied b then (mapped_at m1)(i := (mapped_at m1 i)(unat (get_vaddr b) \<mapsto> PagePtr (get_src_addr b)))
      else mapped_at m1)"
    "dram_blocks m2 = (dram_blocks m1)(bid \<mapsto> b2)" "\<not> is_occupied b2" "block_id b2 = block_id b"
    using release_victim_ok [OF same1(1,2) ok(3) core1(6), of bid b env a req1] b occ core1 same1(4) by auto
  define b3 where "b3 = set_vaddr (set_src_addr ((block_set_used b2)\<lparr>original_addr := drop_bit (block_shift z) (lineAddr req2)\<rparr>)
    (p_page_no e)) (v_page_no e)"
  define m3 where "m3 = put_dram_block bid b3 m2"
  have b3: "installed b (v_page_no e) (p_page_no e) b3"
    using 2(10) by (simp add: installed_def b3_def set_vaddr_def set_src_addr_def get_src_addr_def get_vaddr_def
        is_occupied_def block_set_used_def USED_flag_def)
  have pag3: "paging_array m3 = paging_array m2" by (simp add: m3_def put_dram_block_def)
  have same3: "same_rest m m3"
    by (rule same_rest_trans [OF same_rest_trans [OF core1(3) 2(6)]], rule same_rest_core) (simp_all add: m3_def put_dram_block_def)
  have e2: "entry_at r m2 = Inr e" using e(1) entry_at_same [OF 2(6)] entry_at_same [OF core1(3)] by simp
  have tab3: "tables_ok z m3" "i < length (paging_array m3)" "v_page_no e \<in> canonical m3 i" "paging wk2 = Some i"
    using 2(5) ok(2) same3 e(2) canonical_same [OF same3] 2(3) core1(6)
    by (simp_all add: tables_ok_core [OF pag3] same_rest_def)
  obtain lat m4 where 4: "map_installed z env bid a e (wk2, m3) = Inr (lat, m4)" "tables_ok z m4"
    "mapped_at m4 = (mapped_at m3)(i := (mapped_at m3 i)(unat (v_page_no e) \<mapsto> BlockPtr bid))" "same_rest m3 m4"
    "dram_blocks m4 = dram_blocks m3"
    by (rule map_installed_ok [OF tab3(1,2) ok(3) tab3(4,3)])
  have "evict_and_fetch z env req bid r evict (wk, m) =
      Inr (evict \<or> dirty, fst (add_hscc_overhead lat req2 wk2), snd (add_hscc_overhead lat req2 wk2), m4)"
  proof -
    have "install z env bid r a (evict \<or> dirty) (req2, wk2, m2) =
        Inr (evict \<or> dirty, fst (add_hscc_overhead lat req2 wk2), snd (add_hscc_overhead lat req2 wk2), m4)"
      using 2(8,9) e2 4(1)
      by (simp add: install_def block_at_def block_validate_def b3_def [symmetric] m3_def [symmetric] split_beta)
    then show ?thesis
      using evict_and_fetch_eq [OF b s0 [unfolded dirty_def a_def] s1 [unfolded a_def] wk1_def [unfolded dirty_def]]
        2(1) by (simp only: a_def [symmetric] dirty_def [symmetric] bindE.simps)
  qed
  moreover have "mapped_at m4 = (mapped_at m)(i := swap b (v_page_no e) (BlockPtr bid) (mapped_at m i))"
    using 4(3) 2(7) same1(3) mapped_at_core [OF pag3] by (simp add: swap_def)
  moreover have "dram_blocks m4 = (dram_blocks m)(bid \<mapsto> b3)"
    using 4(5) 2(8) core1(2) by (simp add: m3_def put_dram_block_def)
  ultimately show ?thesis
    using b3 4(2) same_rest_trans [OF same3 4(4)] 2(2,3,4) core1(6,7) wk line1 line0 by (auto simp: add_hscc_overhead_def)
qed

text \<open>A block without its dirty mark.\<close>

definition block_like :: "DRAMBufferBlock \<Rightarrow> DRAMBufferBlock \<Rightarrow> bool" where
  "block_like b b' \<longleftrightarrow> block_core b' = block_core b"

lemma block_likeD:
  assumes "block_like b b'"
  shows "block_id b' = block_id b" "is_occupied b' = is_occupied b" "get_vaddr b' = get_vaddr b" "get_src_addr b' = get_src_addr b"
  using assms by (simp_all add: block_like_def block_core_def get_vaddr_def get_src_addr_def)

lemma block_like_dirty: "block_like b b" "block_like b (block_set_dirty b)"
  by (simp_all add: block_like_def)

lemma hots_ok_cong:
  "ins_tlbs m' = ins_tlbs m \<Longrightarrow> data_tlbs m' = data_tlbs m \<Longrightarrow> hots_ok C tr m' = hots_ok C tr m"
  by (simp add: hots_ok_def)

definition swap_tr ::
  "DRAMBufferBlock \<Rightarrow> address \<Rightarrow> address \<Rightarrow> (address \<Rightarrow> address option) \<Rightarrow> address \<Rightarrow> address option" where
  "swap_tr b v frame tr = (if is_occupied b then tr(get_vaddr b \<mapsto> get_src_addr b) else tr)(v \<mapsto> frame)"

text \<open>The first step: entries of the page that the block holds go back to its NVM page.\<close>

lemma flush_victim_ok:
  assumes len: "length (ins_tlbs m) = numCores z" "length (data_tlbs m) = numCores z" and hot: "hots_ok C tr m"
    and b: "dram_blocks m bid = Some b" and e: "entry_at r m = Inr e" and v: "is_occupied b \<Longrightarrow> get_vaddr b \<noteq> v_page_no e"
  shows "\<exists>req' wk' m' b' e'. (if is_occupied b then
      let (cyc, wbs) = clflush z env a (cycle req) core_id;
          wk = wk\<lparr>extra_write := extra_write wk + wbs, clflush_overhead := clflush_overhead wk + (cyc - cycle req)\<rparr>;
          m = (if wbs \<noteq> 0 then put_dram_block bid (block_set_dirty b) m else m)
      in tlb_shootdown_hscc z (get_vaddr b) (get_src_addr b) False (req\<lparr>cycle := cyc\<rparr>) (wk, m)
    else Inr (req, wk, m)) = Inr (req', wk', m') \<and> lineAddr req' = lineAddr req \<and> paging wk' = paging wk \<and>
    paging_array m' = paging_array m \<and> buddy_allocator m' = buddy_allocator m \<and> dram_manager m' = dram_manager m \<and>
    length (ins_tlbs m') = numCores z \<and> length (data_tlbs m') = numCores z \<and>
    dram_blocks m' = (dram_blocks m)(bid \<mapsto> b') \<and> block_like b b' \<and>
    hots_ok C (if is_occupied b then tr(get_vaddr b \<mapsto> get_src_addr b) else tr) m' \<and>
    entry_at r m' = Inr e' \<and> v_page_no e' = v_page_no e \<and> p_page_no e' = p_page_no e"
proof (cases "is_occupied b")
  case True
  obtain cyc wbs where fl: "clflush z env a (cycle req) core_id = (cyc, wbs)" by fastforce
  define wk1 where "wk1 = wk\<lparr>extra_write := extra_write wk + wbs, clflush_overhead := clflush_overhead wk + (cyc - cycle req)\<rparr>"
  define m1 where "m1 = (if wbs \<noteq> 0 then put_dram_block bid (block_set_dirty b) m else m)"
  have m1: "ins_tlbs m1 = ins_tlbs m" "data_tlbs m1 = data_tlbs m" "paging_array m1 = paging_array m"
    "buddy_allocator m1 = buddy_allocator m" "dram_manager m1 = dram_manager m"
    "dram_blocks m1 = (dram_blocks m)(bid \<mapsto> (if wbs \<noteq> 0 then block_set_dirty b else b))"
    using b by (simp_all add: m1_def put_dram_block_def fun_upd_idem)
  have len1: "length (ins_tlbs m1) = numCores z" "length (data_tlbs m1) = numCores z" "hots_ok C tr m1"
    using len hot m1(1,2) hots_ok_cong [OF m1(1,2)] by simp_all
  obtain req' wk' its dts where 2: "tlb_shootdown_hscc z (get_vaddr b) (get_src_addr b) False (req\<lparr>cycle := cyc\<rparr>) (wk1, m1) =
      Inr (req', wk', m1\<lparr>ins_tlbs := its, data_tlbs := dts\<rparr>)"
    "lineAddr req' = lineAddr (req\<lparr>cycle := cyc\<rparr>)" "paging wk' = paging wk1" "procIdx wk' = procIdx wk1"
    "list_all2 (remapped (get_vaddr b) (get_src_addr b)) (ins_tlbs m1) its"
    "list_all2 (remapped (get_vaddr b) (get_src_addr b)) (data_tlbs m1) dts"
    "hots_ok C (tr(get_vaddr b \<mapsto> get_src_addr b)) (m1\<lparr>ins_tlbs := its, data_tlbs := dts\<rparr>)"
    by (rule hscc_ok [OF len1])
  have "entry_at r m1 = Inr e" using e m1(1,2) by (cases "ref_ins r") (simp_all add: entry_at_def)
  then obtain e' where e': "entry_at r (m1\<lparr>ins_tlbs := its, data_tlbs := dts\<rparr>) = Inr e'" "v_page_no e' = v_page_no e"
    "p_page_no e' = p_page_no e"
    using entry_at_remapped [OF _ 2(5,6)] v [OF True] by metis
  define b' where "b' = (if wbs \<noteq> 0 then block_set_dirty b else b)"
  have "block_like b b'" by (simp add: b'_def block_like_dirty)
  moreover have "length its = numCores z" "length dts = numCores z"
    using 2(5,6) len1 by (auto dest: list_all2_lengthD)
  ultimately show ?thesis
    using True fl 2(1,2,3,7) e' m1
    by (intro exI [where x = req'] exI [where x = wk'] exI [where x = "m1\<lparr>ins_tlbs := its, data_tlbs := dts\<rparr>"]
        exI [where x = b'] exI [where x = e'] conjI)
      (simp_all add: wk1_def [symmetric] m1_def [symmetric] b'_def [symmetric], simp add: wk1_def)
next
  case False
  have "(dram_blocks m)(bid \<mapsto> b) = dram_blocks m" using b by (simp add: fun_upd_idem)
  then show ?thesis
    using False assms by (intro exI [where x = req] exI [where x = wk] exI [where x = m] exI [where x = b]
        exI [where x = e] conjI) (simp_all add: block_like_dirty)
qed

lemma evict_DRAM_page_ok:
  assumes ok: "tables_ok z m" "i < length (paging_array m)" "\<not> enable_shared_memory z" and wk: "paging wk = Some i"
    and len: "length (ins_tlbs m) = numCores z" "length (data_tlbs m) = numCores z" and hot: "hots_ok (canonical m i) tr m"
    and b: "dram_blocks m bid = Some b" "block_id b = bid"
    and occ: "is_occupied b \<Longrightarrow> get_vaddr b \<in> canonical m i \<and> get_src_addr b < node_pages m \<and>
      obj_addr z (machine_objs m) (PagePtr (get_src_addr b)) = Some (get_src_addr b) \<and> get_vaddr b \<noteq> v_page_no e"
    and e: "entry_at r m = Inr e" "v_page_no e \<in> canonical m i"
  shows "\<exists>evict' req' wk' m' b'. evict_DRAM_page z env req bid r core evict (wk, m) = Inr (evict', req', wk', m') \<and>
    paging wk' = paging wk \<and> tables_ok z m' \<and> buddy_allocator m' = buddy_allocator m \<and> dram_manager m' = dram_manager m \<and>
    table_index m' = table_index m \<and>
    length (paging_array m') = length (paging_array m) \<and>
    length (ins_tlbs m') = numCores z \<and> length (data_tlbs m') = numCores z \<and>
    mapped_at m' = (mapped_at m)(i := swap b (v_page_no e) (BlockPtr bid) (mapped_at m i)) \<and>
    dram_blocks m' = (dram_blocks m)(bid \<mapsto> b') \<and> installed b (v_page_no e) (p_page_no e) b' \<and>
    hots_ok (canonical m i) (swap_tr b (v_page_no e) (frame_of z bid) tr) m'"
proof -
  define a where "a = block_id_to_addr z (block_id b)"
  define tr1 where "tr1 = (if is_occupied b then tr(get_vaddr b \<mapsto> get_src_addr b) else tr)"
  have "is_occupied b \<Longrightarrow> get_vaddr b \<noteq> v_page_no e" using occ by blast
  then obtain req1 wk1 m1 b1 e1 where 1: "(if is_occupied b then
      let (cyc, wbs) = clflush z env a (cycle req) core;
          wk = wk\<lparr>extra_write := extra_write wk + wbs, clflush_overhead := clflush_overhead wk + (cyc - cycle req)\<rparr>;
          m = (if wbs \<noteq> 0 then put_dram_block bid (block_set_dirty b) m else m)
      in tlb_shootdown_hscc z (get_vaddr b) (get_src_addr b) False (req\<lparr>cycle := cyc\<rparr>) (wk, m)
    else Inr (req, wk, m)) = Inr (req1, wk1, m1)" "lineAddr req1 = lineAddr req" "paging wk1 = paging wk"
    "paging_array m1 = paging_array m" "buddy_allocator m1 = buddy_allocator m"
    "length (ins_tlbs m1) = numCores z" "length (data_tlbs m1) = numCores z"
    "dram_blocks m1 = (dram_blocks m)(bid \<mapsto> b1)" "block_like b b1" "hots_ok (canonical m i) tr1 m1"
    "entry_at r m1 = Inr e1" "v_page_no e1 = v_page_no e" "p_page_no e1 = p_page_no e" "dram_manager m1 = dram_manager m"
    using flush_victim_ok [OF len hot b(1) e(1), of env a req core wk] unfolding tr1_def by blast
  note b1 = block_likeD [OF 1(9)]
  have idx1: "table_index m1 = table_index m" "mapped_at m1 = mapped_at m" "canonical m1 i = canonical m i"
    using table_index_core [OF 1(4)] mapped_at_core [OF 1(4)] by (simp_all add: canonical_def)
  have pages1: "node_pages m1 = node_pages m" "obj_addr z (machine_objs m1) (PagePtr x) = obj_addr z (machine_objs m) (PagePtr x)" for x
    using 1(5) by (simp_all add: node_pages_def memory_node_def obj_addr_def machine_objs_def)
  have ok1: "tables_ok z m1" "i < length (paging_array m1)" "paging wk1 = Some i" "dram_blocks m1 bid = Some b1"
    "v_page_no e1 \<in> canonical m1 i"
    using tables_ok_core [OF 1(4)] ok wk e(2) 1 idx1 by simp_all
  obtain evict2 req2 wk2 m2 b2 where 2: "evict_and_fetch z env req1 bid r evict (wk1, m1) = Inr (evict2, req2, wk2, m2)"
    "lineAddr req2 = lineAddr req1" "paging wk2 = paging wk1" "tables_ok z m2" "same_rest m1 m2"
    "mapped_at m2 = (mapped_at m1)(i := swap b1 (v_page_no e1) (BlockPtr bid) (mapped_at m1 i))"
    "dram_blocks m2 = (dram_blocks m1)(bid \<mapsto> b2)" "installed b1 (v_page_no e1) (p_page_no e1) b2"
    using evict_and_fetch_ok [OF ok1(1,2) ok(3) ok1(3,4) _ 1(11) ok1(5), of env req1 evict] occ b1 idx1(3) pages1 by auto
  have tlbs2: "ins_tlbs m2 = ins_tlbs m1" "data_tlbs m2 = data_tlbs m1" using 2(5) by (simp_all add: same_rest_def)
  have len2: "length (ins_tlbs m2) = numCores z" "length (data_tlbs m2) = numCores z" "hots_ok (canonical m i) tr1 m2"
    using 1(6,7,10) tlbs2 hots_ok_cong [OF tlbs2] by simp_all
  obtain req3 wk3 its dts where 3: "tlb_shootdown_hscc z (v_page_no e1) (drop_bit (page_shift z) a) True req2 (wk2, m2) =
      Inr (req3, wk3, m2\<lparr>ins_tlbs := its, data_tlbs := dts\<rparr>)" "paging wk3 = paging wk2"
    "list_all2 (remapped (v_page_no e1) (drop_bit (page_shift z) a)) (ins_tlbs m2) its"
    "list_all2 (remapped (v_page_no e1) (drop_bit (page_shift z) a)) (data_tlbs m2) dts"
    "hots_ok (canonical m i) (tr1(v_page_no e1 \<mapsto> drop_bit (page_shift z) a)) (m2\<lparr>ins_tlbs := its, data_tlbs := dts\<rparr>)"
    by (rule hscc_ok [OF len2])
  define m3 where "m3 = m2\<lparr>ins_tlbs := its, data_tlbs := dts\<rparr>"
  have "entry_at r m2 = Inr e1" using entry_at_same [OF 2(5)] 1(11) by simp
  then have run: "evict_DRAM_page z env req bid r core evict (wk, m) = Inr (evict2, req3, wk3, m3)"
    using b(1) 1(1) 2(1) 3(1)
    by (simp add: evict_DRAM_page_def block_at_def a_def [symmetric] m3_def)
  have pag3: "paging_array m3 = paging_array m2" by (simp add: m3_def)
  have "mapped_at m3 = (mapped_at m)(i := swap b (v_page_no e) (BlockPtr bid) (mapped_at m i))"
    using mapped_at_core [OF pag3] 2(6) idx1(2) b1 1(12) by (simp add: swap_def)
  moreover have "dram_blocks m3 = (dram_blocks m)(bid \<mapsto> b2)" using 2(7) 1(8) by (simp add: m3_def)
  moreover have "installed b (v_page_no e) (p_page_no e) b2" using 2(8) b1 1(12,13) by (simp add: installed_def)
  moreover have "hots_ok (canonical m i) (swap_tr b (v_page_no e) (frame_of z bid) tr) m3"
    using 3(5) 1(12) b(2) by (simp add: m3_def swap_tr_def tr1_def frame_of_def a_def)
  moreover have "length its = numCores z" "length dts = numCores z" using 3(3,4) len2 by (auto dest: list_all2_lengthD)
  ultimately show ?thesis
    using run tables_ok_core [OF pag3] table_index_core [OF pag3] pag3 2(3,4,5) 1(3,4,5,14) 3(2) idx1(1)
    by (intro exI [where x = evict2] exI [where x = req3] exI [where x = wk3] exI [where x = m3] exI [where x = b2] conjI)
      (simp_all add: same_rest_def, simp_all add: m3_def)
qed

section \<open>The invariant of the DRAM cache\<close>

text \<open>
  Block \<open>bid\<close> holds a page: the process maps the page to the block at the address the block
  records, and the NVM page it came from exists, is not free and is mapped by nobody.
\<close>

definition holds ::
  "nat \<Rightarrow> address set \<Rightarrow> nat multiset \<Rightarrow> address \<Rightarrow> (nat \<Rightarrow> nat \<Rightarrow> void_ptr option) \<Rightarrow> (void_ptr \<Rightarrow> address option) \<Rightarrow>
   address \<Rightarrow> DRAMBufferBlock \<Rightarrow> bool" where
  "holds i C F n mp oa bid b \<longleftrightarrow>
     mp i (unat (get_vaddr b)) = Some (BlockPtr bid) \<and> get_vaddr b \<in> C \<and>
     oa (PagePtr (get_src_addr b)) = Some (get_src_addr b) \<and> get_src_addr b < n \<and> unat (get_src_addr b) \<notin># F \<and>
     (\<forall>j k. mp j k \<noteq> Some (PagePtr (get_src_addr b)))"

definition dram_ok ::
  "GlobSimInfo \<Rightarrow> nat \<Rightarrow> address set \<Rightarrow> nat multiset \<Rightarrow> address \<Rightarrow> (nat \<Rightarrow> nat \<Rightarrow> void_ptr option) \<Rightarrow>
   (void_ptr \<Rightarrow> address option) \<Rightarrow> (address \<Rightarrow> DRAMBufferBlock option) \<Rightarrow> bool" where
  "dram_ok z i C F n mp oa bs \<longleftrightarrow>
     (\<forall>bid b. bs bid = Some b \<longrightarrow> block_id b = bid \<and> oa (BlockPtr bid) = Some (frame_of z bid) \<and>
        n \<le> frame_of z bid \<and> frame_of z bid \<noteq> PAGE_FAULT_SIG) \<and>
     (\<forall>x y. bs x \<noteq> None \<and> bs y \<noteq> None \<and> frame_of z x = frame_of z y \<longrightarrow> x = y) \<and>
     (\<forall>j k bid. mp j k = Some (BlockPtr bid) \<longrightarrow>
        j = i \<and> (\<exists>b. bs bid = Some b \<and> is_occupied b \<and> unat (get_vaddr b) = k)) \<and>
     (\<forall>bid b. bs bid = Some b \<and> is_occupied b \<longrightarrow> holds i C F n mp oa bid b) \<and>
     (\<forall>x y b b'. bs x = Some b \<and> bs y = Some b' \<and> is_occupied b \<and> is_occupied b' \<and>
        get_src_addr b = get_src_addr b' \<longrightarrow> x = y)"

lemma dram_okD:
  assumes "dram_ok z i C F n mp oa bs"
  shows "bs bid = Some b \<Longrightarrow> block_id b = bid \<and> oa (BlockPtr bid) = Some (frame_of z bid) \<and>
      n \<le> frame_of z bid \<and> frame_of z bid \<noteq> PAGE_FAULT_SIG"
    and "bs x \<noteq> None \<Longrightarrow> bs y \<noteq> None \<Longrightarrow> frame_of z x = frame_of z y \<Longrightarrow> x = y"
    and "mp j k = Some (BlockPtr bid) \<Longrightarrow> j = i \<and> (\<exists>b. bs bid = Some b \<and> is_occupied b \<and> unat (get_vaddr b) = k)"
    and "bs bid = Some b \<Longrightarrow> is_occupied b \<Longrightarrow> holds i C F n mp oa bid b"
    and "bs x = Some b \<Longrightarrow> bs y = Some b' \<Longrightarrow> is_occupied b \<Longrightarrow> is_occupied b' \<Longrightarrow> get_src_addr b = get_src_addr b' \<Longrightarrow> x = y"
  using assms unfolding dram_ok_def by blast+

lemma frames_okD:
  assumes "frames_ok F n mp oa"
  shows "mp i k = Some ptr \<Longrightarrow> frame_ok F n oa ptr"
    and "mp i k = Some p \<Longrightarrow> mp j l = Some q \<Longrightarrow> oa p = oa q \<Longrightarrow> i = j \<and> k = l"
  using assms unfolding frames_ok_def by blast+

lemma frame_ok_page: "frame_ok F n oa (PagePtr a) \<longleftrightarrow> oa (PagePtr a) = Some a \<and> unat a \<notin># F \<and> a < n"
  by (simp add: frame_ok_def)

lemma block_mapped_once:
  assumes "dram_ok z i C F n mp oa bs" "bs bid = Some b" "mp j k = Some (BlockPtr bid)"
  shows "j = i \<and> k = unat (get_vaddr b) \<and> is_occupied b"
  using dram_okD(3) [OF assms(1,3)] assms(2) by auto

text \<open>
  A migration of the page \<open>p\<close>, mapped at \<open>v\<close>, into block \<open>bid\<close>. The pointers in the new map are
  the block at \<open>v\<close>, the page of the victim at its address, and old ones elsewhere, which are not the
  block, not \<open>p\<close>, and not the page of the victim.
\<close>

definition migrates ::
  "GlobSimInfo \<Rightarrow> nat \<Rightarrow> address set \<Rightarrow> nat multiset \<Rightarrow> address \<Rightarrow> (nat \<Rightarrow> nat \<Rightarrow> void_ptr option) \<Rightarrow>
   (void_ptr \<Rightarrow> address option) \<Rightarrow> (address \<Rightarrow> DRAMBufferBlock option) \<Rightarrow> address \<Rightarrow> DRAMBufferBlock \<Rightarrow>
   address \<Rightarrow> address \<Rightarrow> DRAMBufferBlock \<Rightarrow> bool" where
  "migrates z i C F n mp oa bs bid b v p b' \<longleftrightarrow>
     frames_ok F n mp oa \<and> dram_ok z i C F n mp oa bs \<and> mp i (unat v) = Some (PagePtr p) \<and> v \<in> C \<and>
     bs bid = Some b \<and> installed b v p b'"

lemma swap_cases:
  assumes m: "migrates z i C F n mp oa bs bid b v p b'"
    and at: "(mp(i := swap b v (BlockPtr bid) (mp i))) j k = Some ptr"
  obtains (block) "j = i" "k = unat v" "ptr = BlockPtr bid"
    | (victim) "j = i" "k = unat (get_vaddr b)" "is_occupied b" "ptr = PagePtr (get_src_addr b)" "k \<noteq> unat v"
    | (old) "mp j k = Some ptr" "(j, k) \<noteq> (i, unat v)" "ptr \<noteq> BlockPtr bid" "ptr \<noteq> PagePtr p"
        "is_occupied b \<Longrightarrow> ptr \<noteq> PagePtr (get_src_addr b)"
proof (cases "j = i \<and> k = unat v")
  case True
  then show thesis using at block by (simp add: swap_def)
next
  case False
  show thesis
  proof (cases "j = i \<and> is_occupied b \<and> k = unat (get_vaddr b)")
    case True
    then show thesis using at False victim by (simp add: swap_def)
  next
    case nv: False
    then have old': "mp j k = Some ptr" using at False by (auto simp: swap_def split: if_splits)
    have "ptr \<noteq> BlockPtr bid" using nv old' m block_mapped_once unfolding migrates_def by blast
    moreover have "ptr \<noteq> PagePtr p" using False old' m frames_okD(2) unfolding migrates_def by blast
    moreover have "ptr \<noteq> PagePtr (get_src_addr b)" if "is_occupied b"
      using old' m dram_okD(4) that unfolding migrates_def holds_def by blast
    ultimately show thesis using old [OF old'] False by blast
  qed
qed

lemma migrate_victim:
  assumes "migrates z i C F n mp oa bs bid b v p b'" and "is_occupied b"
  shows "get_vaddr b \<noteq> v" "get_src_addr b \<noteq> p" "holds i C F n mp oa bid b"
proof -
  show h: "holds i C F n mp oa bid b" using assms dram_okD(4) unfolding migrates_def by blast
  then show "get_vaddr b \<noteq> v" "get_src_addr b \<noteq> p" using assms(1) unfolding migrates_def holds_def by auto
qed

lemma migrate_frames:
  assumes m: "migrates z i C F n mp oa bs bid b v p b'"
  shows "frames_ok F n (mp(i := swap b v (BlockPtr bid) (mp i))) oa"
proof -
  have frames: "frames_ok F n mp oa" and dram: "dram_ok z i C F n mp oa bs" and b: "bs bid = Some b"
    using m by (simp_all add: migrates_def)
  note blk = dram_okD(1) [OF dram b]
  have fok: "frame_ok F n oa ptr" if "(mp(i := swap b v (BlockPtr bid) (mp i))) j k = Some ptr" for j k ptr
    using m that
  proof (cases rule: swap_cases)
    case victim
    then show ?thesis using migrate_victim [OF m victim(3)] by (simp add: frame_ok_page holds_def)
  qed (use blk frames_okD(1) [OF frames] in \<open>auto simp: frame_ok_def\<close>)
  have sep: "oa ptr \<noteq> Some (frame_of z bid)" "is_occupied b \<Longrightarrow> oa ptr \<noteq> Some (get_src_addr b)"
    if "mp j k = Some ptr" "ptr \<noteq> BlockPtr bid" "is_occupied b \<Longrightarrow> ptr \<noteq> PagePtr (get_src_addr b)" for j k ptr
  proof -
    note f = frames_okD(1) [OF frames that(1)]
    have "is_occupied b \<Longrightarrow> get_src_addr b < n" using migrate_victim(3) [OF m] by (simp add: holds_def)
    moreover have "x \<noteq> bid \<Longrightarrow> frame_of z x \<noteq> frame_of z bid \<and> oa (BlockPtr x) = Some (frame_of z x)"
      if "ptr = BlockPtr x" for x
      using dram_okD(1,2) [OF dram] dram_okD(3) [OF dram, of j k x] \<open>mp j k = Some ptr\<close> that b by (metis option.discI)
    ultimately show "oa ptr \<noteq> Some (frame_of z bid)" "is_occupied b \<Longrightarrow> oa ptr \<noteq> Some (get_src_addr b)"
      using f blk that(2,3) by (cases ptr; force simp: frame_ok_def)+
  qed
  have src: "is_occupied b \<Longrightarrow> oa (PagePtr (get_src_addr b)) = Some (get_src_addr b) \<and> get_src_addr b \<noteq> frame_of z bid"
    using migrate_victim(3) [OF m] blk by (auto simp: holds_def)
  have "j = j' \<and> k = k'"
    if 1: "(mp(i := swap b v (BlockPtr bid) (mp i))) j k = Some q" and 2: "(mp(i := swap b v (BlockPtr bid) (mp i))) j' k' = Some q'"
      and eq: "oa q = oa q'" for j k q j' k' q'
    using m 1
  proof (cases rule: swap_cases)
    case c1: block
    show ?thesis using m 2
    proof (cases rule: swap_cases)
      case old
      then show ?thesis using sep(1) [OF old(1,3,5)] c1 eq blk by simp
    qed (use c1 eq blk src in auto)
  next
    case c1: victim
    show ?thesis using m 2
    proof (cases rule: swap_cases)
      case old
      then show ?thesis using sep(2) [OF old(1,3,5) c1(3)] c1 eq src by simp
    qed (use c1 eq blk src in auto)
  next
    case c1: old
    show ?thesis using m 2
    proof (cases rule: swap_cases)
      case block
      then show ?thesis using sep(1) [OF c1(1,3,5)] eq blk by simp
    next
      case victim
      then show ?thesis using sep(2) [OF c1(1,3,5)] eq src by simp
    next
      case old
      then show ?thesis using frames_okD(2) [OF frames c1(1) old(1) eq] by simp
    qed
  qed
  then show ?thesis unfolding frames_ok_def using fok by blast
qed

lemma migrate_holds:
  assumes m: "migrates z i C F n mp oa bs bid b v p b'"
  defines "mp' \<equiv> mp(i := swap b v (BlockPtr bid) (mp i))"
  shows "holds i C F n mp' oa bid b'"
    and "bs x = Some c \<Longrightarrow> is_occupied c \<Longrightarrow> x \<noteq> bid \<Longrightarrow> holds i C F n mp' oa x c"
proof -
  have dram: "dram_ok z i C F n mp oa bs" and frames: "frames_ok F n mp oa" and b: "bs bid = Some b"
    and inst: "get_src_addr b' = p" "get_vaddr b' = v" "v \<in> C" "mp i (unat v) = Some (PagePtr p)"
    using m by (auto simp: migrates_def installed_def)
  have no_page: "mp' j k \<noteq> Some (PagePtr q)"
    if q: "\<And>j k. mp j k = Some (PagePtr q) \<Longrightarrow> q = p" "is_occupied b \<Longrightarrow> q \<noteq> get_src_addr b" for j k q
  proof
    assume "mp' j k = Some (PagePtr q)"
    with m show False unfolding mp'_def by (cases rule: swap_cases) (use q in auto)
  qed
  have "frame_ok F n oa (PagePtr p)" by (rule frames_okD(1) [OF frames inst(4)])
  moreover have "mp' j k \<noteq> Some (PagePtr p)" for j k
    by (rule no_page) (use migrate_victim(2) [OF m] in auto)
  moreover have "mp' i (unat v) = Some (BlockPtr bid)" by (simp add: mp'_def swap_def)
  ultimately show "holds i C F n mp' oa bid b'" using inst by (simp add: holds_def frame_ok_page)
  show "holds i C F n mp' oa x c" if c: "bs x = Some c" "is_occupied c" "x \<noteq> bid"
  proof -
    have h: "holds i C F n mp oa x c" by (rule dram_okD(4) [OF dram c(1,2)])
    then have at: "mp i (unat (get_vaddr c)) = Some (BlockPtr x)" by (simp add: holds_def)
    then have "unat (get_vaddr c) \<noteq> unat v" using inst(4) by auto
    moreover have "is_occupied b \<Longrightarrow> unat (get_vaddr c) \<noteq> unat (get_vaddr b)"
      using at migrate_victim(3) [OF m] c(3) by (auto simp: holds_def)
    ultimately have "mp' i (unat (get_vaddr c)) = Some (BlockPtr x)" using at by (simp add: mp'_def swap_def)
    moreover have "mp' j k \<noteq> Some (PagePtr (get_src_addr c))" for j k
    proof (rule no_page)
      show "get_src_addr c \<noteq> get_src_addr b" if "is_occupied b" using dram_okD(5) [OF dram c(1) b c(2) that] c(3) by blast
    qed (use h in \<open>simp add: holds_def\<close>)
    ultimately show ?thesis using h by (simp add: holds_def)
  qed
qed

lemma migrate_dram:
  assumes m: "migrates z i C F n mp oa bs bid b v p b'"
  shows "dram_ok z i C F n (mp(i := swap b v (BlockPtr bid) (mp i))) oa (bs(bid \<mapsto> b'))"
proof -
  define mp' where "mp' = mp(i := swap b v (BlockPtr bid) (mp i))"
  have dram: "dram_ok z i C F n mp oa bs" and b: "bs bid = Some b" and inst: "installed b v p b'" "mp i (unat v) = Some (PagePtr p)"
    using m by (simp_all add: migrates_def)
  have b': "is_occupied b'" "get_src_addr b' = p" "get_vaddr b' = v" "block_id b' = block_id b"
    using inst(1) by (simp_all add: installed_def)
  have "x = y" if "(bs(bid \<mapsto> b')) x = Some c" "(bs(bid \<mapsto> b')) y = Some d" "is_occupied c" "is_occupied d"
    "get_src_addr c = get_src_addr d" for x y c d
  proof -
    have "get_src_addr c \<noteq> p" if "bs x = Some c" "is_occupied c" for x c
      using dram_okD(4) [OF dram that] inst(2) by (auto simp: holds_def)
    then show ?thesis using that b' dram_okD(5) [OF dram] by (auto split: if_splits)
  qed
  moreover have "holds i C F n mp' oa x c" if "(bs(bid \<mapsto> b')) x = Some c" "is_occupied c" for x c
    using that migrate_holds [OF m] unfolding mp'_def by (auto split: if_splits)
  moreover have "j = i \<and> (\<exists>c. (bs(bid \<mapsto> b')) x = Some c \<and> is_occupied c \<and> unat (get_vaddr c) = k)"
    if at: "mp' j k = Some (BlockPtr x)" for j k x
    using m at unfolding mp'_def
  proof (cases rule: swap_cases)
    case old
    then show ?thesis using dram_okD(3) [OF dram old(1)] by auto
  qed (use b' in auto)
  moreover have "x = y" if "(bs(bid \<mapsto> b')) x \<noteq> None" "(bs(bid \<mapsto> b')) y \<noteq> None" "frame_of z x = frame_of z y" for x y
    using that dram_okD(2) [OF dram] b by (metis fun_upd_apply option.discI)
  moreover have "block_id c = x \<and> oa (BlockPtr x) = Some (frame_of z x) \<and> n \<le> frame_of z x \<and> frame_of z x \<noteq> PAGE_FAULT_SIG"
    if "(bs(bid \<mapsto> b')) x = Some c" for x c
    using that dram_okD(1) [OF dram] b b'(4) by (metis fun_upd_apply option.inject)
  ultimately show ?thesis unfolding mp'_def [symmetric] dram_ok_def by blast
qed

text \<open>
  The whole state: one process uses the DRAM cache, its cores have TLBs that count accesses, the
  allocator of blocks is in order and its blocks exist.
\<close>

definition cache_ok :: "GlobSimInfo \<Rightarrow> nat \<Rightarrow> machine \<Rightarrow> bool" where
  "cache_ok z i m \<longleftrightarrow>
     tables_ok z m \<and> i < length (paging_array m) \<and> \<not> enable_shared_memory z \<and>
     length (ins_tlbs m) = numCores z \<and> length (data_tlbs m) = numCores z \<and>
     fa_inv (dram_manager m) \<and> sized (dram_manager m) \<and> 1 \<le> free_blocks (dram_manager m) \<and>
     (\<forall>bid<total_page_count (dram_manager m). dram_blocks m bid \<noteq> None) \<and>
     (\<exists>F. free_frames m F \<and> frames_ok F (node_pages m) (mapped_at m) (obj_addr z (machine_objs m)) \<and>
        dram_ok z i (canonical m i) F (node_pages m) (mapped_at m) (obj_addr z (machine_objs m)) (dram_blocks m))"

lemma hots_ok_tr:
  assumes "\<And>u. u \<in> C \<Longrightarrow> tr' u = tr u" and "hots_ok C tr m"
  shows "hots_ok C tr' m"
proof -
  have "hot_ok C tr' b" if "hot_ok C tr b" for b
    using that assms(1) by (auto simp: hot_ok_def coherent_def split: BaseTlb.splits)
  then show ?thesis using assms(2) by (simp add: hots_ok_def)
qed

lemma canonical_tr:
  assumes "u \<in> canonical m i"
  shows "machine_tr z env i m u =
    (case mapped_at m i (unat u) of Some ptr \<Rightarrow> obj_addr z (machine_objs m) ptr | None \<Rightarrow> if exhausted env m then Some u else None)"
  using assms by (simp add: machine_tr_def canonical_def)

text \<open>What the swap of pages means for the translations.\<close>

lemma migrate_tr:
  assumes m: "migrates z i (canonical m i) F (node_pages m) (mapped_at m) (obj_addr z (machine_objs m)) (dram_blocks m) bid b v p b'"
    and m': "mapped_at m' = (mapped_at m)(i := swap b v (BlockPtr bid) (mapped_at m i))" "table_index m' = table_index m"
      "buddy_allocator m' = buddy_allocator m" "obj_addr z (machine_objs m') = obj_addr z (machine_objs m)"
    and u: "u \<in> canonical m i"
  shows "machine_tr z env i m' u = swap_tr b v (frame_of z bid) (machine_tr z env i m) u"
proof -
  have "u \<in> canonical m' i" using u m'(2) by (simp add: canonical_def)
  note tr = canonical_tr [OF this, of z env] canonical_tr [OF u, of z env]
  have ex: "exhausted env m' = exhausted env m" using m'(3) by (simp add: exhausted_def)
  have blk: "obj_addr z (machine_objs m) (BlockPtr bid) = Some (frame_of z bid)"
    using m dram_okD(1) unfolding migrates_def by blast
  have unat: "unat x = unat y \<longleftrightarrow> x = y" for x y :: address by (auto intro: unsigned_word_eqI)
  show ?thesis
  proof (cases "is_occupied b")
    case True
    then have "obj_addr z (machine_objs m) (PagePtr (get_src_addr b)) = Some (get_src_addr b)"
      using migrate_victim(3) [OF m] by (simp add: holds_def)
    then show ?thesis using blk True unfolding tr m' ex by (simp add: swap_def swap_tr_def unat tr(2))
  next
    case False
    then show ?thesis using blk unfolding tr m' ex by (simp add: swap_def swap_tr_def unat tr(2))
  qed
qed

lemma block_addr_same:
  assumes "buddy_allocator m' = buddy_allocator m" "dram_blocks m' = (dram_blocks m)(bid \<mapsto> b')"
    and "dram_blocks m bid = Some b" "block_id b' = block_id b"
  shows "obj_addr z (machine_objs m') = obj_addr z (machine_objs m)" "node_pages m' = node_pages m"
    "free_frames m' F = free_frames m F"
  using assms by (auto simp: fun_eq_iff obj_addr_def machine_objs_def memory_node_def node_pages_def free_frames_def
      split: void_ptr.splits)

lemma do_dram_page_fault_ok:
  assumes ok: "cache_ok z i m" and hot: "hots_ok (canonical m i) (machine_tr z env i m) m" and pick: "picks (env_first env)"
    and wk: "paging wk = Some i" "unat (procIdx wk) < process_count (dram_manager m)"
    and e: "entry_at r m = Inr e" "v_page_no e \<in> canonical m i" "mapped_at m i (unat (v_page_no e)) = Some (PagePtr (p_page_no e))"
  obtains bid b evict' req' wk' m' where
    "do_dram_page_fault z env req core r evict (wk, m) = Inr (block_id_to_addr z bid, evict', req', wk', m')"
    "dram_blocks m bid = Some b" "cache_ok z i m'" "canonical m' i = canonical m i"
    "hots_ok (canonical m i) (machine_tr z env i m') m'"
    "\<And>u. u \<in> canonical m i \<Longrightarrow> machine_tr z env i m' u = swap_tr b (v_page_no e) (frame_of z bid) (machine_tr z env i m) u"
    "\<And>j. j \<noteq> i \<Longrightarrow> mapped_at m' j = mapped_at m j"
proof -
  let ?oa = "obj_addr z (machine_objs m)" and ?v = "v_page_no e" and ?p = "p_page_no e"
  obtain F where F: "free_frames m F" "frames_ok F (node_pages m) (mapped_at m) ?oa"
    "dram_ok z i (canonical m i) F (node_pages m) (mapped_at m) ?oa (dram_blocks m)"
    using ok unfolding cache_ok_def by blast
  have fa: "fa_inv (dram_manager m)" "1 \<le> free_blocks (dram_manager m)" "sized (dram_manager m)"
    using ok by (simp_all add: cache_ok_def)
  obtain bid fa' where al: "allocate_page (env_first env) (unat (procIdx wk)) (dram_manager m) = Inr (Some bid, fa')"
    "fa_inv fa'" "same_shape (dram_manager m) fa'" "1 \<le> free_blocks fa'" "bid < total_page_count (dram_manager m)"
    using allocate_page_ok [OF fa(1) wk(2) pick fa(2,3)] by blast
  obtain b where b: "dram_blocks m bid = Some b" using ok al(5) by (auto simp: cache_ok_def)
  have bid: "block_id b = bid" using dram_okD(1) [OF F(3) b] by simp
  define m1 where "m1 = m\<lparr>dram_manager := fa'\<rparr>"
  have m1: "paging_array m1 = paging_array m" "buddy_allocator m1 = buddy_allocator m" "dram_blocks m1 = dram_blocks m"
    "ins_tlbs m1 = ins_tlbs m" "data_tlbs m1 = data_tlbs m" "machine_objs m1 = machine_objs m" "node_pages m1 = node_pages m"
    "dram_manager m1 = fa'" "entry_at r m1 = entry_at r m"
    by (simp_all add: m1_def machine_objs_def memory_node_def node_pages_def entry_at_def)
  note idx1 = table_index_core [OF m1(1)] mapped_at_core [OF m1(1)] tables_ok_core [OF m1(1), of z]
    hots_ok_cong [OF m1(4,5)]
  have can1: "canonical m1 i = canonical m i" by (simp add: canonical_def idx1)
  obtain cyc wbs where fl: "clflush z env (lineAddr req) (cycle req) core = (cyc, wbs)" by fastforce
  define wk1 where "wk1 = wk\<lparr>extra_write := extra_write wk + wbs, clflush_overhead := clflush_overhead wk + (cyc - cycle req)\<rparr>"
  have occ: "is_occupied b \<Longrightarrow> get_vaddr b \<in> canonical m i \<and> get_src_addr b < node_pages m \<and>
      ?oa (PagePtr (get_src_addr b)) = Some (get_src_addr b) \<and> get_vaddr b \<noteq> ?v"
    using dram_okD(4) [OF F(3) b] e(3) by (auto simp: holds_def)
  obtain evict' req' wk' m' b' where run: "evict_DRAM_page z env (req\<lparr>cycle := cyc\<rparr>) bid r core evict (wk1, m1) = Inr (evict', req', wk', m')"
    and tabs: "tables_ok z m'" "buddy_allocator m' = buddy_allocator m" "dram_manager m' = fa'" "table_index m' = table_index m"
      "length (paging_array m') = length (paging_array m)" "length (ins_tlbs m') = numCores z" "length (data_tlbs m') = numCores z"
    and mp: "mapped_at m' = (mapped_at m)(i := swap b ?v (BlockPtr bid) (mapped_at m i))"
    and blks: "dram_blocks m' = (dram_blocks m)(bid \<mapsto> b')" "installed b ?v ?p b'"
    and hot': "hots_ok (canonical m i) (swap_tr b ?v (frame_of z bid) (machine_tr z env i m)) m'"
    using evict_DRAM_page_ok [of z m1 i wk1 "machine_tr z env i m" bid b e r env "req\<lparr>cycle := cyc\<rparr>" core evict]
      ok wk(1) hot occ e b bid unfolding idx1 can1 m1 by (auto simp: cache_ok_def wk1_def)
  have mig: "migrates z i (canonical m i) F (node_pages m) (mapped_at m) ?oa (dram_blocks m) bid b ?v ?p b'"
    using F e b blks(2) by (simp add: migrates_def)
  have id': "block_id b' = block_id b" using blks(2) by (simp add: installed_def)
  note same = block_addr_same [OF tabs(2) blks(1) b id']
  have can': "canonical m' i = canonical m i" using tabs(4) by (simp add: canonical_def)
  have "cache_ok z i m'"
    unfolding cache_ok_def same can' mp blks(1)
    using ok F(1) migrate_frames [OF mig] migrate_dram [OF mig] tabs al(2-4) sized_same [OF fa(3) al(3)]
    by (auto simp: cache_ok_def same_shape_def)
  moreover have tr': "machine_tr z env i m' u = swap_tr b ?v (frame_of z bid) (machine_tr z env i m) u" if "u \<in> canonical m i" for u
    by (rule migrate_tr [OF mig mp tabs(4,2) same(1) that])
  moreover have "do_dram_page_fault z env req core r evict (wk, m) = Inr (block_id_to_addr z bid, evict', req', wk', m')"
    using al(1) fl run blks(1) bid id' by (simp add: do_dram_page_fault_def m1_def [symmetric] wk1_def [symmetric] block_at_def)
  moreover have "hots_ok (canonical m i) (machine_tr z env i m') m'" by (rule hots_ok_tr [OF tr' hot'])
  ultimately show thesis using that b can' mp by simp
qed

end
