(* ===== verification/Spec2Isabelle.thy ===== *)
theory Spec2Isabelle
  imports LongMode_Paging Legacy_Paging PAE_Paging Machine_System Machine_Migration
begin

text \<open>
  A verification development for SHMA, a simulator of hybrid main memories: \<open>zsim\<close> runs the program
  and times it, \<open>NVMain\<close> times the memory, and SHMA adds the memory management between them. The
  development covers that memory management, under \<open>src/zsim-nvmain/src\<close>: page tables, physical
  page allocation, the DRAM cache of NVM pages, the TLBs, the page table walker, and the
  initialisation that connects them.

  \<^bold>\<open>How the parts interact.\<close> A core translates an address through its instruction or data TLB. A
  miss goes to the walker of the core, which reads the page table of the process; a page fault
  takes a page from the buddy allocator, shoots down the entries of all TLBs for the virtual page,
  and enters the page into the table. When the memory controller finds a page hot, the walker takes
  a block from the DRAM cache manager, moves the page that the block held back to NVM, and remaps
  the hot page in the page table and in all TLBs.

  \<^bold>\<open>Conventions.\<close> A method is a function from the state to a result in \<open>error + state\<close>
  (\<open>Prelude\<close>): a failed assertion, a null pointer, an index out of range, a division by zero and a
  panic are errors, never values. Machine integers are words of their width and wrap around; doubles
  are rationals rounded to 53 bits (\<open>Doubles\<close>). Pointers are indices or tagged names into explicit
  stores, and \<open>delete\<close> takes an object out of its store: what the heap does with its memory is not
  modelled. Memory that no constructor initialises is a parameter (\<open>raw\<close>), and so is code that is not
  modelled: the order of an unordered set, the cache flush of a core. Locks are left out: an
  operation is one step. Loops are folds over the
  ranges they run through, so no definition needs fuel. One recursion may not end, that of \<open>power\<close>:
  it is a partial function, whose value \<open>None\<close> stands for not returning, and it is shown for which
  exponents it returns.

  \<^bold>\<open>Theories.\<close>
  \<^item> \<open>Prelude\<close>: results with errors, folds, words. \<open>Common_Functions\<close>: \<open>common/common_functions.h\<close>,
    \<open>global_const.h\<close>. \<open>Mem_Objects\<close>: \<open>Page\<close>, \<open>DRAMBufferBlock\<close>, \<open>MemReq\<close>, \<open>GlobSimInfo\<close>. \<open>Doubles\<close>:
    the arithmetic of the thresholds.
  \<^item> \<open>Page_Table\<close>, \<open>Page_Tree\<close>: entries and tables of \<open>page-table/page_table_entry.h\<close>,
    \<open>page_table.h\<close> and \<open>comm_page_table_op.h\<close>, and the tree of tables with its well-formedness.
    \<open>Paging_Interface\<close>: the contract \<open>base_paging\<close> that the paging classes share.
    \<open>LongMode_Paging\<close>, \<open>Legacy_Paging\<close>, \<open>PAE_Paging\<close>: the classes of \<open>page-table/page_table.cpp\<close>;
    each interprets the contract. The 64-bit one refines a partial map from virtual page numbers to
    pages, with all failure cases. \<open>Paging_Classes\<close>: the inverted table of
    \<open>page-table/reversed_page_table.cpp\<close> and the dispatch of the virtual methods.
  \<^item> \<open>Flexi_List\<close>, \<open>Memory_Node\<close>, \<open>Buddy_Allocator\<close>: \<open>MMU/\<close>, the intrusive lists, zones and nodes,
    and the allocator. Free lists are lists of block heads with a common invariant: blocks are
    aligned, do not overlap, and together with what was handed out cover the node. The contracts
    \<open>block_queue\<close> and \<open>page_allocator\<close> are interpreted here.
  \<^item> \<open>DRAM_Buffer\<close>: \<open>DRAM-buffer/\<close>, the pools of clean and dirty blocks of the processes. An
    allocation never fails, and a block is in one pool.
  \<^item> \<open>Tlb_Entry\<close>, \<open>Common_Tlb\<close>, \<open>Hot_Monitor_Tlb\<close>, \<open>Page_Table_Walker\<close>: \<open>tlb/\<close>. The contract
    \<open>tlb_walker\<close> is what a TLB expects of the walker. Recency is stated against a list with move to
    front.
  \<^item> \<open>System_Init\<close>: \<open>InitSystem\<close> of \<open>init.cpp\<close> and \<open>setCid\<close> of \<open>zsim.cpp\<close>, as far as they concern
    these objects.
  \<^item> \<open>Machine_Map\<close>, \<open>Machine_Walk\<close>, \<open>Machine_System\<close>: the composition. The machine is one partial
    map from virtual pages to frames; \<open>machine_ok\<close> is its invariant, the walker interprets
    \<open>tlb_walker\<close> on it, and the properties speak of any sequence of accesses of all cores from the
    start of the simulator on. \<open>Machine_Migration\<close>: the same for a migration into the DRAM cache.

  \<^bold>\<open>What the theorems show.\<close> The composition theorems say that an access through a TLB gets what the
  page table holds, that processes do not share frames, and that TLBs hold the pages used last. The
  first two end where the allocator runs out of pages: then a fault is answered with the virtual page
  number, nothing is mapped, and this is stated in the theorems (\<open>answered\<close>, \<open>machine_tr\<close>). The component theorems give each operation on every branch, round trips of the page
  tables, disjointness and completeness of allocation, bounds of the thresholds. Several theorems
  state that the code does not do what it means to: they exhibit the state and the wrong result.

  \<^bold>\<open>Bounds.\<close> The recency theorem holds for fewer than \<open>2^31\<close> accesses, where the signed counter of
  the TLB would wrap around. The allocator theorems hold for fewer than \<open>2^32\<close> pages in a node: the
  size of a free list is a 32-bit counter, and the allocator takes a list of size 0 for empty. With
  1 GB pages at most 512 tables of the second level can exist, and no page can be mapped when they do.
  The DRAM cache has fewer than \<open>2^31\<close> blocks, as its code keeps counts in
  \<open>int\<close>.

  \<^bold>\<open>Not modelled.\<close> The cores, caches, coherence, network, event simulation, scheduler and
  instrumentation of \<open>zsim\<close>, which do not touch the objects above except through the calls that are
  modelled; \<open>NVMain\<close>, which times requests; the memory controllers, whose policy of what is hot
  depends on both; the tree of \<open>common/trie.h\<close>, which nothing instantiates
  (the tables named trie are hash maps); \<open>galloc\<close> and the Pin kit, which are vendored; printing of statistics.
\<close>

end
